(* ===== verification/Circle_Prelude.thy ===== *)
theory Circle_Prelude
  imports Main "HOL-Library.Word" "HOL-Library.Signed_Division"
begin

text \<open>
  What every component theory shares: the outcome of a C++ operation that may not return
  normally, the C integer types and conversions the sources use, and lemmas on byte
  arrays addressed by offset lists.  The collections declared here are filled by the
  component theories.
\<close>

section \<open>Collections\<close>

named_theorems res_simps \<open>evaluation of the outcome type\<close>
named_theorems rep_intros \<open>operations that keep the queue representation\<close>
named_theorems pend_simps \<open>what an MPI operation leaves pending\<close>
named_theorems frame_simps \<open>components of the state an operation does not touch\<close>

section \<open>Outcomes\<close>

text \<open>
  An operation ends normally with \<open>Inr\<close> or it does not return: the job is aborted
  through \<open>MPI_Abort\<close>, the process calls \<open>exit\<close>, nothing catches an exception, the registered MPI error handler
  calls \<open>abort\<close>, a blocking MPI call never completes, a loop never ends, or the
  C++ code has undefined behaviour at this point (an index out of range, a signed
  overflow, a division by zero).
\<close>

datatype failure = Mpi_Abort int | Exit_process int | Uncaught | Mpi_error | Blocks | Diverges | Undefined

type_synonym 'a res = "failure + 'a"

type_synonym byte = "8 word"

definition bind_res :: "'a res \<Rightarrow> ('a \<Rightarrow> 'b res) \<Rightarrow> 'b res" where
  "bind_res r f = (case r of Inl e \<Rightarrow> Inl e | Inr x \<Rightarrow> f x)"

definition opt_res :: "failure \<Rightarrow> 'a option \<Rightarrow> 'a res" where
  "opt_res e r = (case r of None \<Rightarrow> Inl e | Some x \<Rightarrow> Inr x)"

definition guard_res :: "bool \<Rightarrow> failure \<Rightarrow> 'a res \<Rightarrow> 'a res" where
  "guard_res ok e r = (if ok then r else Inl e)"

lemma bind_res_Inl [simp, res_simps]: "bind_res (Inl e) f = Inl e"
  by (simp add: bind_res_def)

lemma bind_res_Inr [simp, res_simps]: "bind_res (Inr x) f = f x"
  by (simp add: bind_res_def)

lemma bind_res_eq_Inr: "bind_res r f = Inr y \<longleftrightarrow> (\<exists>x. r = Inr x \<and> f x = Inr y)"
  by (cases r) auto

lemma bind_res_assoc: "bind_res (bind_res r f) g = bind_res r (\<lambda>x. bind_res (f x) g)"
  by (cases r) simp_all

lemma bind_res_InrE:
  assumes "bind_res r f = Inr y"
  obtains x where "r = Inr x" "f x = Inr y"
  using assms by (cases r) auto

lemma opt_res_simps [simp, res_simps]:
  "opt_res e None = Inl e" "opt_res e (Some x) = Inr x"
  by (simp_all add: opt_res_def)

lemma opt_res_eq_Inr [simp]: "opt_res e r = Inr x \<longleftrightarrow> r = Some x"
  by (cases r) auto

lemma guard_res_True [simp, res_simps]: "ok \<Longrightarrow> guard_res ok e r = r"
  by (simp add: guard_res_def)

lemma guard_res_False [simp, res_simps]: "\<not> ok \<Longrightarrow> guard_res ok e r = Inl e"
  by (simp add: guard_res_def)

lemma guard_res_eq_Inr: "guard_res ok e r = Inr x \<longleftrightarrow> ok \<and> r = Inr x"
  by (simp add: guard_res_def)

lemma bind_res_cong [fundef_cong]:
  "r = r' \<Longrightarrow> (\<And>x. r' = Inr x \<Longrightarrow> f x = g x) \<Longrightarrow> bind_res r f = bind_res r' g"
  by (cases r') auto

lemma guard_res_cong [fundef_cong]:
  "ok = ok' \<Longrightarrow> e = e' \<Longrightarrow> (ok' \<Longrightarrow> r = r') \<Longrightarrow> guard_res ok e r = guard_res ok' e' r'"
  by (simp add: guard_res_def)

text \<open>
  \<open>yields r Q\<close>: the operation ends normally with a result in \<open>Q\<close>, or it blocks in MPI.
  It excludes every other failure, so it is both a postcondition and the absence of
  aborts, errors and undefined behaviour.
\<close>

definition yields :: "'a res \<Rightarrow> ('a \<Rightarrow> bool) \<Rightarrow> bool" where
  "yields r Q \<longleftrightarrow> (case r of Inl e \<Rightarrow> e = Blocks | Inr x \<Rightarrow> Q x)"

lemma yields_Inr [simp]: "yields (Inr x) Q \<longleftrightarrow> Q x"
  by (simp add: yields_def)

lemma yields_Inl [simp]: "yields (Inl e) Q \<longleftrightarrow> e = Blocks"
  by (simp add: yields_def)

lemma yields_bind: "yields r (\<lambda>x. yields (f x) Q) \<Longrightarrow> yields (bind_res r f) Q"
  by (cases r) auto

lemma yields_mono: "yields r Q \<Longrightarrow> (\<And>x. Q x \<Longrightarrow> R x) \<Longrightarrow> yields r R"
  by (cases r) auto

text \<open>Sequencing with a known postcondition of the first operation.\<close>

lemma yields_seq: "yields r Q \<Longrightarrow> (\<And>x. Q x \<Longrightarrow> yields (f x) R) \<Longrightarrow> yields (bind_res r f) R"
  by (cases r) auto

lemma yields_D: "yields r Q \<Longrightarrow> r = Inr x \<Longrightarrow> Q x"
  by simp

lemma yields_fail: "yields r Q \<Longrightarrow> r = Inl e \<Longrightarrow> e = Blocks"
  by simp

lemmas res_Inr = bind_res_eq_Inr guard_res_eq_Inr opt_res_eq_Inr

section \<open>C integers\<close>

text \<open>
  \<open>int\<close> and \<open>int32_t\<close> are 32 bits wide, \<open>size_t\<close> and \<open>uintptr_t\<close> 64.  Signed
  arithmetic that leaves the range is undefined, so the model checks it where a value
  can get there; conversions wrap.
\<close>

definition INT_MAX :: int where [code_unfold]: "INT_MAX = 2147483647"

definition in_int :: "int \<Rightarrow> bool" where
  "in_int x \<longleftrightarrow> - INT_MAX - 1 \<le> x \<and> x \<le> INT_MAX"

definition ck_int :: "int \<Rightarrow> int res" where
  "ck_int x = (if in_int x then Inr x else Inl Undefined)"

definition to_u32 :: "nat \<Rightarrow> nat" where
  "to_u32 n = n mod 4294967296"

definition to_int32 :: "nat \<Rightarrow> int" where
  "to_int32 n = (let m = int (to_u32 n) in if m \<le> INT_MAX then m else m - 4294967296)"

definition to_size :: "int \<Rightarrow> nat" where
  "to_size x = nat (x mod 18446744073709551616)"

lemma to_u32_id [simp]: "n < 4294967296 \<Longrightarrow> to_u32 n = n"
  by (simp add: to_u32_def)

lemma to_int32_id [simp]: "int n \<le> INT_MAX \<Longrightarrow> to_int32 n = int n"
  by (simp add: to_int32_def INT_MAX_def Let_def)

lemma to_size_id [simp]: "0 \<le> x \<Longrightarrow> x \<le> INT_MAX \<Longrightarrow> to_size x = nat x"
  by (simp add: to_size_def INT_MAX_def)

lemma to_size_of_nat [simp]: "int n \<le> INT_MAX \<Longrightarrow> to_size (int n) = n"
  by simp

lemma ck_int_ok [simp]: "in_int x \<Longrightarrow> ck_int x = Inr x"
  by (simp add: ck_int_def)

lemma ck_int_eq_Inr: "ck_int x = Inr y \<longleftrightarrow> in_int x \<and> y = x"
  by (auto simp: ck_int_def)

lemma in_int_iff: "in_int x \<longleftrightarrow> - 2147483648 \<le> x \<and> x \<le> 2147483647"
  by (simp add: in_int_def INT_MAX_def)

text \<open>C division and remainder truncate towards zero; on the operands the code uses
  they are the mathematical ones.\<close>

lemma sdiv_nonneg [simp]: "0 \<le> a \<Longrightarrow> 0 < b \<Longrightarrow> a sdiv b = a div (b::int)"
  by (cases "a = 0") (auto simp: signed_divide_int_def)

lemma smod_nonneg [simp]: "0 \<le> a \<Longrightarrow> 0 < b \<Longrightarrow> a smod b = a mod (b::int)"
  by (cases "a = 0") (auto simp: signed_modulo_int_def)

section \<open>Byte arrays cut at offsets\<close>

text \<open>\<open>starts n xs\<close> are the offsets at which the strings \<open>xs\<close> begin when they are laid
  out one after the other from offset \<open>n\<close>; \<open>slices b os\<close> cuts \<open>b\<close> at the offsets.\<close>

fun starts :: "nat \<Rightarrow> 'a list list \<Rightarrow> nat list" where
  "starts n [] = []"
| "starts n (x # xs) = n # starts (n + length x) xs"

fun slices :: "'a list \<Rightarrow> nat list \<Rightarrow> 'a list list" where
  "slices b (x # y # os) = take (y - x) (drop x b) # slices b (y # os)"
| "slices b os = []"

lemma length_starts [simp]: "length (starts n xs) = length xs"
  by (induction xs arbitrary: n) auto

lemma starts_append:
  "starts n (xs @ ys) = starts n xs @ starts (n + length (concat xs)) ys"
  by (induction xs arbitrary: n) (auto simp: add.assoc)

lemma starts_shift: "starts (n + k) xs = map (\<lambda>o'. o' + k) (starts n xs)"
proof (induction xs arbitrary: n)
  case (Cons x xs)
  have "starts (n + k + length x) xs = starts (n + length x + k) xs"
    by (simp add: add.commute add.left_commute)
  with Cons.IH show ?case by simp
qed simp

lemma starts_sub: "map (\<lambda>o'. o' - k) (starts k xs) = starts 0 xs"
  using starts_shift [of 0 k xs] by (simp add: comp_def)

lemma starts_bound: "o' \<in> set (starts n xs) \<Longrightarrow> n \<le> o' \<and> o' \<le> n + length (concat xs)"
  by (induction xs arbitrary: n) fastforce+

lemma starts_eq_Nil [simp]: "starts n xs = [] \<longleftrightarrow> xs = []"
  by (cases xs) auto

lemma hd_starts [simp]: "xs \<noteq> [] \<Longrightarrow> hd (starts n xs) = n"
  by (cases xs) auto

lemma nth_0_starts [simp]: "xs \<noteq> [] \<Longrightarrow> starts n xs ! 0 = n"
  by (cases xs) auto

lemma slices_starts:
  assumes "take (length (concat xs)) (drop n b) = concat xs"
  shows "slices b (starts n xs @ [n + length (concat xs)]) = xs"
  using assms
proof (induction xs arbitrary: n)
  case (Cons x xs)
  have x: "take (length x) (drop n b) = x"
    using arg_cong [OF Cons.prems, of "take (length x)"] by simp
  have rest: "take (length (concat xs)) (drop (n + length x) b) = concat xs"
    using arg_cong [OF Cons.prems, of "drop (length x)"]
    by (simp add: drop_take add.commute)
  note IH = Cons.IH [OF rest]
  have e: "n + length (concat (x # xs)) = n + length x + length (concat xs)" by simp
  show ?case
  proof (cases xs)
    case Nil
    with x show ?thesis by simp
  next
    case (Cons y ys)
    have "starts (n + length x) xs = (n + length x) # starts (n + length x + length y) ys"
      by (simp add: Cons)
    with IH x show ?thesis by (simp add: add.assoc)
  qed
qed simp

lemma slices_inverse:
  assumes "sorted (os @ [h])" "h \<le> length b"
  shows "starts (hd (os @ [h])) (slices b (os @ [h])) = os
    \<and> concat (slices b (os @ [h])) = take (h - hd (os @ [h])) (drop (hd (os @ [h])) b)"
  using assms
proof (induction os)
  case (Cons x os)
  let ?y = "hd (os @ [h])"
  obtain ys where ys: "os @ [h] = ?y # ys" by (cases os) auto
  have ym: "?y \<in> set (os @ [h])" using ys by (metis list.set_intros(1))
  have srt: "sorted (os @ [h])" using Cons.prems(1) by simp
  have xy: "x \<le> ?y" using Cons.prems(1) ym by (auto simp del: set_append)
  have yh: "?y \<le> h" using srt by (cases os) (auto simp: sorted_append)
  note IH = Cons.IH [OF srt Cons.prems(2)]
  have e: "slices b ((x # os) @ [h]) = take (?y - x) (drop x b) # slices b (os @ [h])"
    using ys by (metis append_Cons slices.simps(1))
  have len: "length (take (?y - x) (drop x b)) = ?y - x"
    using yh Cons.prems(2) by simp
  have "take (?y - x) (drop x b) @ take (h - ?y) (drop ?y b) = take (h - x) (drop x b)"
    using xy yh take_add [of "?y - x" "h - ?y" "drop x b"] by simp
  with e len IH xy show ?case by simp
qed simp

lemma slices_Nil_iff: "[] \<notin> set (slices b (os @ [h])) \<Longrightarrow> sorted (os @ [h]) \<Longrightarrow> h \<le> length b
    \<Longrightarrow> sorted_wrt (<) (os @ [h])"
proof (induction os)
  case (Cons x os)
  let ?y = "hd (os @ [h])"
  obtain ys where ys: "os @ [h] = ?y # ys" by (cases os) auto
  have e: "slices b ((x # os) @ [h]) = take (?y - x) (drop x b) # slices b (os @ [h])"
    using ys by (metis append_Cons slices.simps(1))
  have srt: "sorted (os @ [h])" using Cons.prems(2) by simp
  have "sorted_wrt (<) (os @ [h])"
    using Cons.IH [OF _ srt Cons.prems(3)] Cons.prems(1) e by simp
  moreover have "x < ?y" using Cons.prems(1) e by auto
  ultimately have "\<forall>z \<in> set (os @ [h]). x < z"
    using ys by (metis (no_types, lifting) less_trans set_ConsD sorted_wrt.simps(2))
  with \<open>sorted_wrt (<) (os @ [h])\<close> show ?case by simp
qed simp

lemma slices_nonempty: "sorted_wrt (<) (os @ [h]) \<Longrightarrow> h \<le> length b \<Longrightarrow> [] \<notin> set (slices b (os @ [h]))"
proof (induction os)
  case (Cons x os)
  let ?y = "hd (os @ [h])"
  obtain ys where ys: "os @ [h] = ?y # ys" by (cases os) auto
  have e: "slices b ((x # os) @ [h]) = take (?y - x) (drop x b) # slices b (os @ [h])"
    using ys by (metis append_Cons slices.simps(1))
  have "?y \<in> set (os @ [h])" using ys by (metis list.set_intros(1))
  then have "x < ?y" using Cons.prems(1) by (auto simp del: set_append)
  moreover have "?y \<le> h" using Cons.prems(1) by (cases os) (auto simp: sorted_wrt_append less_imp_le)
  ultimately have "take (?y - x) (drop x b) \<noteq> []" using Cons.prems(2) by simp
  moreover have "[] \<notin> set (slices b (os @ [h]))" using Cons by simp
  ultimately show ?case using e by simp
qed simp

lemma length_slices [simp]: "length (slices b os) = length os - 1"
  by (induction b os rule: slices.induct) auto

lemma take_list_update_append: "n < length xs \<Longrightarrow> take (Suc n) (xs[n := x]) = take n xs @ [x]"
  by (simp add: take_Suc_conv_app_nth)

end
