(* ===== verification/Circle_Flags.thy ===== *)
theory Circle_Flags
  imports Circle_Prelude
begin

unbundle bit_operations_syntax

text \<open>
  The two enumerations of \<open>include/lanl_circle.hpp\<close>: the run time flags, an unsigned
  bit set with its \<open>operator&\<close> and \<open>operator|\<close>, and the logging levels, whose order
  decides what \<open>Circle::log\<close> prints and whether \<open>execute\<close> prints a summary.
\<close>

section \<open>Run time flags\<close>

type_synonym RuntimeFlags = "32 word"

definition FlagNone :: RuntimeFlags where "FlagNone = 0"
definition SplitRandom :: RuntimeFlags where "SplitRandom = push_bit 0 1"
definition SplitEqual :: RuntimeFlags where "SplitEqual = push_bit 1 1"
definition CreateGlobal :: RuntimeFlags where "CreateGlobal = push_bit 2 1"
definition TermTree :: RuntimeFlags where "TermTree = push_bit 3 1"
definition DefaultFlags :: RuntimeFlags where "DefaultFlags = SplitEqual"

definition flags_and :: "RuntimeFlags \<Rightarrow> RuntimeFlags \<Rightarrow> RuntimeFlags" where
  "flags_and x y = x AND y"

definition flags_or :: "RuntimeFlags \<Rightarrow> RuntimeFlags \<Rightarrow> RuntimeFlags" where
  "flags_or x y = x OR y"

text \<open>The test \<open>(flags & f) != RuntimeFlags::None\<close> that the sources write out.\<close>

definition has_flag :: "RuntimeFlags \<Rightarrow> RuntimeFlags \<Rightarrow> bool" where
  "has_flag flags f \<longleftrightarrow> flags_and flags f \<noteq> FlagNone"

lemmas flag_values = FlagNone_def SplitRandom_def SplitEqual_def CreateGlobal_def TermTree_def

lemma has_flag_bits:
  "has_flag flags SplitRandom \<longleftrightarrow> bit flags 0"
  "has_flag flags SplitEqual \<longleftrightarrow> bit flags 1"
  "has_flag flags CreateGlobal \<longleftrightarrow> bit flags 2"
  "has_flag flags TermTree \<longleftrightarrow> bit flags 3"
  unfolding has_flag_def flags_and_def flag_values push_bit_of_1
  by (simp_all only: and_exp_eq_0_iff_not_bit not_not)

lemma bit_flags_or: "bit (flags_or x y) n \<longleftrightarrow> bit x n \<or> bit y n"
  by (simp add: flags_or_def bit_or_iff)

section \<open>Logging levels\<close>

datatype LogLevel = NoLog | Fatal | Error | Warning | Info | Debug

fun level_value :: "LogLevel \<Rightarrow> nat" where
  "level_value NoLog = 0"
| "level_value Fatal = 1"
| "level_value Error = 2"
| "level_value Warning = 3"
| "level_value Info = 4"
| "level_value Debug = 5"

lemma level_value_inject [simp]: "level_value a = level_value b \<longleftrightarrow> a = b"
  by (cases a; cases b) auto

instantiation LogLevel :: linorder
begin

definition less_eq_LogLevel :: "LogLevel \<Rightarrow> LogLevel \<Rightarrow> bool" where
  "a \<le> b \<longleftrightarrow> level_value a \<le> level_value b"

definition less_LogLevel :: "LogLevel \<Rightarrow> LogLevel \<Rightarrow> bool" where
  "a < b \<longleftrightarrow> level_value a < level_value b"

instance
  by intro_classes (auto simp: less_eq_LogLevel_def less_LogLevel_def)

end

text \<open>\<open>Circle::log\<close> returns at once when the message's level is above the object's.\<close>

definition log_prints :: "LogLevel \<Rightarrow> LogLevel \<Rightarrow> bool" where
  "log_prints level_of_message level_of_object = (\<not> level_of_message > level_of_object)"

end
