(* ===== verification/Circle_Queue.thy ===== *)
theory Circle_Queue
  imports Circle_Prelude
begin

text \<open>
  The work queue of \<open>src/queue.cpp\<close>: a byte pool \<open>base\<close> that holds the elements one
  after the other, the offsets \<open>strings\<close> at which they start and the first free byte
  \<open>head\<close>.  Elements are pushed and popped at the end.  The theory models every
  operation that changes the queue, gives the representation relation between the
  arrays and the list of elements, and states what a client may rely on as the locale
  \<open>lifo_store\<close>.
\<close>

section \<open>State and operations\<close>

record queue =
  base :: "byte list"
  head :: nat
  strings :: "nat list"
  qcount :: nat

definition Queue_new :: queue where
  "Queue_new = \<lparr>base = [], head = 0, strings = [], qcount = 0\<rparr>"

definition getCount :: "queue \<Rightarrow> nat" where
  "getCount q = qcount q"

text \<open>\<open>std::vector::resize\<close> and \<open>memcpy\<close> into a vector.\<close>

definition vec_resize :: "'a::zero list \<Rightarrow> nat \<Rightarrow> 'a list" where
  "vec_resize xs n = take n xs @ replicate (n - length xs) 0"

definition memcpy :: "'a list \<Rightarrow> nat \<Rightarrow> 'a list \<Rightarrow> 'a list" where
  "memcpy dst off src = take off dst @ src @ drop (off + length src) dst"

text \<open>The loops that round a size up: the offsets grow by \<open>4096 / sizeof(uintptr_t)\<close>,
  the pool by 4096 pages; the page size is what \<open>sysconf\<close> reports.\<close>

function extendStr_loop :: "nat \<Rightarrow> nat \<Rightarrow> nat" where
  "extendStr_loop newSize amount =
     (if newSize < amount then extendStr_loop (newSize + 4096 div 8) amount else newSize)"
  by pat_completeness auto
termination
  by (relation "measure (\<lambda>(newSize, amount). amount - newSize)") auto

declare extendStr_loop.simps [simp del]

partial_function (option) extend_loop :: "nat \<Rightarrow> nat \<Rightarrow> nat \<Rightarrow> nat option" where
  "extend_loop pagesize newSize amount =
     (if newSize < amount then extend_loop pagesize (newSize + pagesize * 4096) amount
      else Some newSize)"

declare extend_loop.simps [code]

definition extendStr :: "nat \<Rightarrow> queue \<Rightarrow> int \<times> queue" where
  "extendStr amount q =
     (let newSize = extendStr_loop (length (strings q)) amount
      in (0, q\<lparr>strings := vec_resize (strings q) newSize\<rparr>))"

definition Queue_extend :: "nat \<Rightarrow> nat \<Rightarrow> queue \<Rightarrow> (int \<times> queue) res" where
  "Queue_extend pagesize amount q =
     bind_res (opt_res Diverges (extend_loop pagesize (length (base q)) amount))
       (\<lambda>newSize. Inr (0, q\<lparr>base := vec_resize (base q) newSize\<rparr>))"

definition push :: "nat \<Rightarrow> byte list \<Rightarrow> queue \<Rightarrow> (int \<times> queue) res" where
  "push pagesize content q =
     (let len = to_u32 (length content) in
      if len = 0 then Inr (-1, q)
      else guard_res (int (qcount q) < INT_MAX) Undefined
        (case (if qcount q + 1 > length (strings q) then extendStr (qcount q + 1) q else (0, q)) of
          (rc, q) \<Rightarrow>
            if rc < 0 then Inr (-1, q)
            else (let new_bytes = head q + len in
              bind_res (if new_bytes > length (base q) then Queue_extend pagesize new_bytes q else Inr (0, q))
                (\<lambda>(rc, q).
                  if rc < 0 then Inr (-1, q)
                  else Inr (0, q\<lparr>strings := (strings q)[qcount q := head q],
                                 base := memcpy (base q) (head q) (take len content),
                                 head := head q + len,
                                 qcount := qcount q + 1\<rparr>)))))"

definition push_string :: "nat \<Rightarrow> byte list \<Rightarrow> queue \<Rightarrow> (int \<times> queue) res" where
  "push_string pagesize element q = (let content = element in push pagesize content q)"

definition pop :: "byte list \<Rightarrow> queue \<Rightarrow> (int \<times> byte list \<times> queue) res" where
  "pop content q =
     (if qcount q < 1 then Inr (-1, content, q)
      else guard_res (qcount q \<le> length (strings q)) Undefined
        (let current = strings q ! (qcount q - 1) in
         guard_res (current \<le> head q \<and> head q \<le> length (base q)) Undefined
           (let len = head q - current in
            Inr (0, take len (drop current (base q)),
                 q\<lparr>head := current, qcount := qcount q - 1\<rparr>))))"

definition pop_string :: "byte list \<Rightarrow> queue \<Rightarrow> (int \<times> byte list \<times> queue) res" where
  "pop_string element q =
     bind_res (pop [] q) (\<lambda>(result, content, q). Inr (result, content, q))"

definition lastSize :: "queue \<Rightarrow> nat res" where
  "lastSize q =
     (if qcount q < 1 then Inr (to_size (-1))
      else guard_res (qcount q \<le> length (strings q)) Undefined
        (let current = strings q ! (qcount q - 1) in
         Inr (to_size (int (head q) - int current))))"

section \<open>Representation\<close>

text \<open>The offsets in use with the end of the last element, and the elements they cut out
  of the pool, oldest first.\<close>

definition offs :: "queue \<Rightarrow> nat list" where
  "offs q = take (qcount q) (strings q) @ [head q]"

definition items :: "queue \<Rightarrow> byte list list" where
  "items q = slices (base q) (offs q)"

definition wf_queue :: "queue \<Rightarrow> bool" where
  "wf_queue q \<longleftrightarrow> qcount q \<le> length (strings q) \<and> hd (offs q) = 0
     \<and> sorted_wrt (<) (offs q) \<and> head q \<le> length (base q)"

definition queue_rep :: "queue \<Rightarrow> byte list list \<Rightarrow> bool" where
  "queue_rep q xs \<longleftrightarrow> qcount q = length xs \<and> length xs \<le> length (strings q)
     \<and> take (length xs) (strings q) = starts 0 xs
     \<and> head q = length (concat xs) \<and> head q \<le> length (base q)
     \<and> take (length (concat xs)) (base q) = concat xs \<and> [] \<notin> set xs"

lemma queue_rep_items: "queue_rep q xs \<Longrightarrow> items q = xs"
  using slices_starts [of xs 0 "base q"] by (auto simp: queue_rep_def items_def offs_def)

lemma sorted_starts: "[] \<notin> set xs \<Longrightarrow> sorted_wrt (<) (starts n xs @ [n + length (concat xs)])"
proof (induction xs arbitrary: n)
  case (Cons x xs)
  have "sorted_wrt (<) (starts (n + length x) xs @ [n + length x + length (concat xs)])"
    using Cons by simp
  moreover have "n < y" if "y \<in> set (starts (n + length x) xs)" for y
    using starts_bound [OF that] Cons.prems by (cases x) auto
  ultimately show ?case using Cons.prems by (cases x) (auto simp: add.assoc)
qed simp

lemma queue_rep_wf: assumes "queue_rep q xs" shows "wf_queue q"
proof -
  have "sorted_wrt (<) (offs q)"
    using assms sorted_starts [of xs 0] by (simp add: queue_rep_def offs_def)
  then show ?thesis
    using assms by (cases xs) (auto simp: queue_rep_def wf_queue_def offs_def)
qed

lemma wf_queue_rep: assumes "wf_queue q" shows "queue_rep q (items q)"
proof -
  let ?os = "take (qcount q) (strings q)"
  have srt: "sorted (?os @ [head q])" and hd0: "hd (?os @ [head q]) = 0"
    using assms strict_sorted_imp_sorted by (auto simp: wf_queue_def offs_def)
  have len: "length (items q) = qcount q"
    using assms by (simp add: items_def offs_def wf_queue_def)
  have inv: "starts 0 (items q) = ?os" "concat (items q) = take (head q) (base q)"
    using slices_inverse [OF srt] hd0 assms by (auto simp: items_def offs_def wf_queue_def)
  have ne: "[] \<notin> set (items q)"
    using assms slices_nonempty [of ?os "head q" "base q"] by (simp add: wf_queue_def items_def offs_def)
  have hd_len: "length (concat (items q)) = head q"
    using inv(2) assms by (simp add: wf_queue_def)
  show ?thesis
    using assms len inv ne unfolding queue_rep_def hd_len by (simp add: wf_queue_def)
qed

lemma wf_queue_iff_rep: "wf_queue q \<longleftrightarrow> (\<exists>xs. queue_rep q xs)"
  using queue_rep_wf wf_queue_rep by blast

lemma queue_rep_unique: "queue_rep q xs \<Longrightarrow> queue_rep q ys \<Longrightarrow> xs = ys"
  using queue_rep_items by metis

lemma queue_rep_new [simp, rep_intros]: "queue_rep Queue_new []"
  by (simp add: queue_rep_def Queue_new_def)

lemma queue_rep_count: "queue_rep q xs \<Longrightarrow> qcount q = length xs"
  by (simp add: queue_rep_def)

lemma queue_rep_Nil_head: "queue_rep q [] \<Longrightarrow> head q = 0"
  by (simp add: queue_rep_def)

section \<open>Growing the arrays\<close>

lemma extendStr_loop_ge: "amount \<le> extendStr_loop newSize amount \<and> newSize \<le> extendStr_loop newSize amount"
proof (induction newSize amount rule: extendStr_loop.induct)
  case (1 newSize amount)
  then show ?case by (auto simp: extendStr_loop.simps [of newSize amount])
qed

lemma extend_loop_returns:
  assumes "0 < pagesize"
  shows "\<exists>n. extend_loop pagesize newSize amount = Some n \<and> amount \<le> n \<and> newSize \<le> n"
proof (induction "amount - newSize" arbitrary: newSize rule: less_induct)
  case less
  show ?case
  proof (cases "newSize < amount")
    case True
    with assms have "amount - (newSize + pagesize * 4096) < amount - newSize" by simp
    from less [OF this] obtain n
      where "extend_loop pagesize (newSize + pagesize * 4096) amount = Some n"
        "amount \<le> n" "newSize + pagesize * 4096 \<le> n" by blast
    with True show ?thesis by (simp add: extend_loop.simps)
  next
    case False
    then show ?thesis by (simp add: extend_loop.simps)
  qed
qed

lemma extend_loop_page_0: "newSize < amount \<Longrightarrow> extend_loop 0 newSize amount = None"
proof (rule ccontr)
  assume lt: "newSize < amount" and "extend_loop 0 newSize amount \<noteq> None"
  then obtain n where "extend_loop 0 newSize amount = Some n" by auto
  moreover have "pagesize = 0 \<longrightarrow> \<not> newSize < amount" if "extend_loop pagesize newSize amount = Some n"
    for pagesize newSize amount n
  proof (rule extend_loop.raw_induct [where P = "\<lambda>p s a n. p = 0 \<longrightarrow> \<not> s < a", OF _ that])
    fix f :: "nat \<Rightarrow> nat \<Rightarrow> nat \<Rightarrow> nat option" and p s a n
    assume IH: "\<And>p s a n. f p s a = Some n \<Longrightarrow> p = 0 \<longrightarrow> \<not> s < a"
      and eq: "(if s < a then f p (s + p * 4096) a else Some s) = Some n"
    show "p = 0 \<longrightarrow> \<not> s < a"
    proof (cases "s < a")
      case True
      with eq have "f p (s + p * 4096) a = Some n" by simp
      from IH [OF this] show ?thesis by simp
    qed simp
  qed
  ultimately show False using lt by blast
qed

lemma extend_loop_ends:
  "(extend_loop pagesize newSize amount \<noteq> None \<longleftrightarrow> 0 < pagesize \<or> amount \<le> newSize)
   \<and> (\<forall>n. extend_loop pagesize newSize amount = Some n \<longrightarrow> amount \<le> n \<and> newSize \<le> n)"
proof (cases "0 < pagesize")
  case True
  with extend_loop_returns [OF True, of newSize amount] show ?thesis by auto
next
  case False
  then have "extend_loop pagesize newSize amount = (if newSize < amount then None else Some newSize)"
    using extend_loop_page_0 [of newSize amount] by (subst extend_loop.simps) simp
  with False show ?thesis by auto
qed

lemma vec_resize_grow: "length xs \<le> n \<Longrightarrow> vec_resize xs n = xs @ replicate (n - length xs) 0"
  by (simp add: vec_resize_def)

lemma extendStr_rep:
  assumes "queue_rep q xs"
  obtains q' where "extendStr amount q = (0, q')" "queue_rep q' xs"
    "amount \<le> length (strings q')" "base q' = base q"
proof -
  let ?q = "snd (extendStr amount q)"
  have ge: "amount \<le> extendStr_loop (length (strings q)) amount"
    "length (strings q) \<le> extendStr_loop (length (strings q)) amount"
    using extendStr_loop_ge by auto
  have "extendStr amount q = (0, ?q)" by (simp add: extendStr_def Let_def)
  moreover have "queue_rep ?q xs"
    using assms ge by (simp add: extendStr_def Let_def queue_rep_def vec_resize_grow)
  moreover have "amount \<le> length (strings ?q)"
    using ge by (simp add: extendStr_def Let_def vec_resize_grow)
  moreover have "base ?q = base q" by (simp add: extendStr_def Let_def)
  ultimately show thesis by (rule that)
qed

lemma extend_rep:
  assumes "queue_rep q xs" "0 < pagesize"
  obtains q' where "Queue_extend pagesize amount q = Inr (0, q')" "queue_rep q' xs"
    "amount \<le> length (base q')" "strings q' = strings q"
proof -
  obtain n where n: "extend_loop pagesize (length (base q)) amount = Some n"
    "amount \<le> n" "length (base q) \<le> n"
    using extend_loop_returns [OF assms(2)] by blast
  let ?q = "q\<lparr>base := vec_resize (base q) n\<rparr>"
  have "Queue_extend pagesize amount q = Inr (0, ?q)" using n by (simp add: Queue_extend_def)
  moreover have "queue_rep ?q xs"
    using assms n by (simp add: queue_rep_def vec_resize_grow)
  moreover have "amount \<le> length (base ?q)" using n by (simp add: vec_resize_grow)
  ultimately show thesis using that by simp
qed

section \<open>Push and pop\<close>

text \<open>The last step of \<open>push\<close>, once both arrays have room.\<close>

lemma store_rep:
  assumes "queue_rep q xs" "x \<noteq> []" "length xs < length (strings q)"
    "head q + length x \<le> length (base q)"
  shows "queue_rep (q\<lparr>strings := (strings q)[qcount q := head q],
           base := memcpy (base q) (head q) x, head := head q + length x,
           qcount := qcount q + 1\<rparr>) (xs @ [x])"
  using assms
  by (auto simp: queue_rep_def memcpy_def starts_append take_list_update_append)

lemma push_rep:
  assumes "queue_rep q xs" "x \<noteq> []" "length x < 4294967296" "int (length xs) < INT_MAX" "0 < pagesize"
  obtains q' where "push pagesize x q = Inr (0, q')" "queue_rep q' (xs @ [x])"
proof -
  obtain q1 where q1: "queue_rep q1 xs" "qcount q < length (strings q1)"
    "(if qcount q + 1 > length (strings q) then extendStr (qcount q + 1) q else (0, q)) = (0, q1)"
  proof (cases "qcount q + 1 > length (strings q)")
    case True
    obtain q' where "extendStr (qcount q + 1) q = (0, q')" "queue_rep q' xs"
      "qcount q + 1 \<le> length (strings q')"
      using extendStr_rep [OF assms(1)] by metis
    with True show thesis by (intro that [of q']) auto
  next
    case False
    with assms(1) show thesis by (auto intro: that)
  qed
  obtain q2 where q2: "queue_rep q2 xs" "head q1 + length x \<le> length (base q2)" "strings q2 = strings q1"
    "(if head q1 + length x > length (base q1) then Queue_extend pagesize (head q1 + length x) q1 else Inr (0, q1))
       = Inr (0, q2)"
  proof (cases "head q1 + length x > length (base q1)")
    case True
    obtain q' where "Queue_extend pagesize (head q1 + length x) q1 = Inr (0, q')" "queue_rep q' xs"
      "head q1 + length x \<le> length (base q')" "strings q' = strings q1"
      using extend_rep [OF q1(1) assms(5)] by metis
    with True show thesis by (intro that [of q']) auto
  next
    case False
    with q1(1) show thesis by (auto intro: that)
  qed
  have cnt: "qcount q = length xs" "head q2 = head q1"
    using assms(1) q1(1) q2(1) by (simp_all add: queue_rep_def)
  let ?q = "q2\<lparr>strings := (strings q2)[qcount q2 := head q2], base := memcpy (base q2) (head q2) x,
      head := head q2 + length x, qcount := qcount q2 + 1\<rparr>"
  have "push pagesize x q = Inr (0, ?q)"
    using assms cnt q1(3) q2(4) by (simp add: push_def Let_def)
  moreover have "queue_rep ?q (xs @ [x])"
    by (rule store_rep) (use q1 q2 cnt assms in \<open>auto simp: queue_rep_def\<close>)
  ultimately show thesis by (rule that)
qed

lemma push_empty: "push pagesize [] q = Inr (-1, q)"
  by (simp add: push_def to_u32_def)

lemma pop_rep:
  assumes "queue_rep q (xs @ [x])"
  obtains q' where "pop c q = Inr (0, x, q')" "queue_rep q' xs"
    "strings q' = strings q" "base q' = base q"
proof -
  have os: "take (length xs) (strings q) = starts 0 xs" "strings q ! length xs = length (concat xs)"
    "length xs < length (strings q)"
    and hd: "head q = length (concat xs) + length x" "head q \<le> length (base q)"
    and bs: "take (head q) (base q) = concat xs @ x" and ne: "[] \<notin> set xs"
    using assms
    by (auto simp: queue_rep_def starts_append take_Suc_conv_app_nth)
  have x: "take (length x) (drop (length (concat xs)) (base q)) = x"
    using arg_cong [OF bs, of "drop (length (concat xs))"] hd(1) by (simp add: drop_take)
  let ?q = "q\<lparr>head := length (concat xs), qcount := length xs\<rparr>"
  have "pop c q = Inr (0, x, ?q)"
    using assms os hd x by (simp add: pop_def queue_rep_def Let_def)
  moreover have "queue_rep ?q xs"
    using os hd ne arg_cong [OF bs, of "take (length (concat xs))"]
    by (simp add: queue_rep_def)
  ultimately show thesis using that by simp
qed

lemma pop_empty: "queue_rep q [] \<Longrightarrow> pop c q = Inr (-1, c, q)"
  by (simp add: queue_rep_def pop_def)

lemma lastSize_rep:
  assumes "queue_rep q (xs @ [x])" "length (base q) < 2 ^ 63"
  shows "lastSize q = Inr (length x)"
proof -
  have "strings q ! length xs = length (concat xs)" "head q = length (concat xs) + length x"
    using assms by (auto simp: queue_rep_def starts_append take_Suc_conv_app_nth)
  moreover have "head q < 2 ^ 63" using assms by (simp add: queue_rep_def)
  ultimately show ?thesis
    using assms by (simp add: lastSize_def queue_rep_def Let_def to_size_def)
qed

lemma lastSize_empty: "queue_rep q [] \<Longrightarrow> lastSize q = Inr 18446744073709551615"
  by (simp add: lastSize_def queue_rep_def to_size_def)

section \<open>What a client of the queue relies on\<close>

text \<open>
  A last-in first-out store: \<open>cont\<close> lists its elements oldest first, \<open>accepts\<close> says
  which elements can be stored.  The checkpoint code, the callbacks of the user and the
  C interface use the queue through these laws only.
\<close>

fun put_all :: "('x \<Rightarrow> 's \<Rightarrow> (int \<times> 's) res) \<Rightarrow> 'x list \<Rightarrow> 's \<Rightarrow> 's res" where
  "put_all put [] s = Inr s"
| "put_all put (x # xs) s = bind_res (put x s) (\<lambda>(rc, s). put_all put xs s)"

locale lifo_store =
  fixes put :: "'x \<Rightarrow> 's \<Rightarrow> (int \<times> 's) res"
    and get :: "'x \<Rightarrow> 's \<Rightarrow> (int \<times> 'x \<times> 's) res"
    and cont :: "'s \<Rightarrow> 'x list"
    and inv :: "'s \<Rightarrow> bool"
    and accepts :: "'x \<Rightarrow> bool"
    and room :: "nat"
  assumes put_law: "inv s \<Longrightarrow> accepts x \<Longrightarrow> length (cont s) < room \<Longrightarrow>
      \<exists>s'. put x s = Inr (0, s') \<and> inv s' \<and> cont s' = cont s @ [x]"
    and get_law: "inv s \<Longrightarrow> cont s = xs @ [x] \<Longrightarrow>
      \<exists>s'. get y s = Inr (0, x, s') \<and> inv s' \<and> cont s' = xs"
    and get_empty_law: "inv s \<Longrightarrow> cont s = [] \<Longrightarrow> get y s = Inr (-1, y, s)"
begin

lemma put_get:
  assumes "inv s" "accepts x" "length (cont s) < room"
  shows "\<exists>s1 s2. put x s = Inr (0, s1) \<and> get y s1 = Inr (0, x, s2) \<and> inv s2 \<and> cont s2 = cont s"
proof -
  obtain s1 where s1: "put x s = Inr (0, s1)" "inv s1" "cont s1 = cont s @ [x]"
    using put_law [OF assms] by blast
  with get_law [OF s1(2,3), of y] show ?thesis by blast
qed

lemma put_all_cont:
  assumes "inv s" "\<forall>x \<in> set xs. accepts x" "length (cont s) + length xs \<le> room"
  shows "\<exists>s'. put_all put xs s = Inr s' \<and> inv s' \<and> cont s' = cont s @ xs"
  using assms
proof (induction xs arbitrary: s)
  case (Cons x xs)
  obtain s1 where s1: "put x s = Inr (0, s1)" "inv s1" "cont s1 = cont s @ [x]"
    using put_law [of s x] Cons.prems by auto
  obtain s' where "put_all put xs s1 = Inr s'" "inv s'" "cont s' = cont s1 @ xs"
    using Cons.IH [of s1] Cons.prems s1 by auto
  with s1 show ?case by simp
qed simp

end

definition storable :: "nat \<Rightarrow> byte list \<Rightarrow> bool" where
  "storable pagesize x \<longleftrightarrow> 0 < pagesize \<and> x \<noteq> [] \<and> length x < 4294967296"

interpretation queue_store: lifo_store "push pagesize" pop items wf_queue "storable pagesize" "nat INT_MAX"
  for pagesize
proof unfold_locales
  fix s x
  assume "wf_queue s" "storable pagesize x" "length (items s) < nat INT_MAX"
  then show "\<exists>s'. push pagesize x s = Inr (0, s') \<and> wf_queue s' \<and> items s' = items s @ [x]"
    using push_rep [OF wf_queue_rep, of s x pagesize] queue_rep_items queue_rep_wf
    by (auto simp: storable_def) (metis zless_nat_eq_int_zless)
next
  fix s xs x y
  assume "wf_queue s" "items s = xs @ [x]"
  then have "queue_rep s (xs @ [x])" using wf_queue_rep by metis
  from pop_rep [OF this, of y] show "\<exists>s'. pop y s = Inr (0, x, s') \<and> wf_queue s' \<and> items s' = xs"
    using queue_rep_items queue_rep_wf by metis
next
  fix s y
  assume "wf_queue s" "items s = []"
  then show "pop y s = Inr (-1, y, s)" using pop_empty wf_queue_rep by metis
qed

section \<open>Refinement of a list\<close>

text \<open>A client program on the arrays, and the same program on a list of elements: each
  operation gives its return code and, for \<open>pop\<close>, the element.\<close>

datatype queue_op = Push "byte list" | Pop

fun run_queue :: "nat \<Rightarrow> queue_op list \<Rightarrow> queue \<Rightarrow> ((int \<times> byte list) list \<times> queue) res" where
  "run_queue pagesize [] q = Inr ([], q)"
| "run_queue pagesize (Push x # ops) q =
     bind_res (push pagesize x q) (\<lambda>(rc, q).
     bind_res (run_queue pagesize ops q) (\<lambda>(outs, q). Inr ((rc, []) # outs, q)))"
| "run_queue pagesize (Pop # ops) q =
     bind_res (pop [] q) (\<lambda>(rc, x, q).
     bind_res (run_queue pagesize ops q) (\<lambda>(outs, q). Inr ((rc, x) # outs, q)))"

fun run_stack :: "queue_op list \<Rightarrow> byte list list \<Rightarrow> (int \<times> byte list) list \<times> byte list list" where
  "run_stack [] xs = ([], xs)"
| "run_stack (Push x # ops) xs =
     (case run_stack ops (if x = [] then xs else xs @ [x]) of
       (outs, ys) \<Rightarrow> ((if x = [] then -1 else 0, []) # outs, ys))"
| "run_stack (Pop # ops) xs =
     (case run_stack ops (butlast xs) of
       (outs, ys) \<Rightarrow> ((if xs = [] then (-1, []) else (0, last xs)) # outs, ys))"

fun pushed :: "queue_op list \<Rightarrow> byte list list" where
  "pushed [] = []"
| "pushed (Push x # ops) = x # pushed ops"
| "pushed (Pop # ops) = pushed ops"

lemma run_queue_refines:
  assumes "wf_queue q" "0 < pagesize" "\<forall>x \<in> set (pushed ops). length x < 4294967296"
    "int (length (items q) + length (pushed ops)) \<le> INT_MAX"
  shows "\<exists>q'. run_queue pagesize ops q = Inr (fst (run_stack ops (items q)), q')
    \<and> wf_queue q' \<and> items q' = snd (run_stack ops (items q))"
  using assms(1,3,4)
proof (induction ops arbitrary: q)
  case Nil
  then show ?case by simp
next
  case (Cons op ops)
  show ?case
  proof (cases op)
    case (Push x)
    show ?thesis
    proof (cases "x = []")
      case True
      have "int (length (items q) + length (pushed ops)) \<le> INT_MAX" using Cons.prems(3) Push by simp
      then obtain q' where "run_queue pagesize ops q = Inr (fst (run_stack ops (items q)), q')"
        "wf_queue q'" "items q' = snd (run_stack ops (items q))"
        using Cons.IH [OF Cons.prems(1)] Cons.prems(2) Push by auto
      with True Push show ?thesis by (simp add: push_empty case_prod_beta)
    next
      case False
      have "storable pagesize x" "length (items q) < nat INT_MAX"
        using assms(2) False Cons.prems Push by (auto simp: storable_def)
      from queue_store.put_law [OF Cons.prems(1) this] obtain q1 where
        q1: "push pagesize x q = Inr (0, q1)" "wf_queue q1" "items q1 = items q @ [x]" by blast
      obtain q' where "run_queue pagesize ops q1 = Inr (fst (run_stack ops (items q1)), q')"
        "wf_queue q'" "items q' = snd (run_stack ops (items q1))"
        using Cons.IH [OF q1(2)] Cons.prems q1(3) Push by auto
      with q1 False Push show ?thesis by (simp add: case_prod_beta)
    qed
  next
    case Pop
    show ?thesis
    proof (cases "items q = []")
      case True
      obtain q' where "run_queue pagesize ops q = Inr (fst (run_stack ops (items q)), q')"
        "wf_queue q'" "items q' = snd (run_stack ops (items q))"
        using Cons.IH [OF Cons.prems(1)] Cons.prems Pop by auto
      with queue_store.get_empty_law [OF Cons.prems(1) True] True Pop show ?thesis
        by (simp add: case_prod_beta)
    next
      case False
      then have "items q = butlast (items q) @ [last (items q)]" by simp
      from queue_store.get_law [OF Cons.prems(1) this] obtain q1 where
        q1: "pop [] q = Inr (0, last (items q), q1)" "wf_queue q1" "items q1 = butlast (items q)" by blast
      have "length (items q1) \<le> length (items q)" using q1(3) by simp
      then have "int (length (items q1) + length (pushed ops)) \<le> INT_MAX"
        using Cons.prems(3) Pop by simp
      then obtain q' where "run_queue pagesize ops q1 = Inr (fst (run_stack ops (items q1)), q')"
        "wf_queue q'" "items q' = snd (run_stack ops (items q1))"
        using Cons.IH [OF q1(2)] Cons.prems(2) Pop by auto
      with q1 False Pop show ?thesis by (simp add: case_prod_beta)
    qed
  qed
qed

end
