(* ===== verification/Circle_Checkpoint.thy ===== *)
theory Circle_Checkpoint
  imports Circle_Queue
begin

text \<open>
  Checkpoint files: \<open>Queue::write\<close> and \<open>Queue::read\<close> of \<open>src/queue.cpp\<close>.  The file
  system is a map from names to contents; whether a file can be opened, a line printed
  or a file closed is decided by the environment, a parameter.  What the C and C++
  library does is written out: \<open>%d\<close>, \<open>%s\<close> (which stops at a NUL byte) and
  \<open>std::getline\<close>.
\<close>

section \<open>The library functions in use\<close>

type_synonym files = "string \<Rightarrow> byte list option"

record os_env =
  can_write :: "string \<Rightarrow> bool"
  can_read :: "string \<Rightarrow> bool"
  fprintf_ok :: "byte list \<Rightarrow> bool"
  fclose_rc :: int

fun show_nat :: "nat \<Rightarrow> string" where
  "show_nat n = (if n < 10 then [char_of (48 + n)] else show_nat (n div 10) @ [char_of (48 + n mod 10)])"

declare show_nat.simps [simp del]

definition show_int :: "int \<Rightarrow> string" where
  "show_int i = (if i < 0 then ''-'' @ show_nat (nat (- i)) else show_nat (nat i))"

definition newline :: byte where "newline = 10"

definition c_str :: "byte list \<Rightarrow> byte list" where
  "c_str x = takeWhile (\<lambda>b. b \<noteq> 0) x"

function getlines :: "byte list \<Rightarrow> byte list list" where
  "getlines b =
     (if b = [] then []
      else takeWhile (\<lambda>c. c \<noteq> newline) b # getlines (tl (dropWhile (\<lambda>c. c \<noteq> newline) b)))"
  by pat_completeness auto
termination
proof (relation "measure length")
  fix b :: "byte list"
  assume "b \<noteq> []"
  then show "(tl (dropWhile (\<lambda>c. c \<noteq> newline) b), b) \<in> measure length"
    using length_dropWhile_le [of "\<lambda>c. c \<noteq> newline" b]
    by (cases b) (auto simp: less_Suc_eq_le intro: le_trans)
qed simp

declare getlines.simps [simp del]

section \<open>Writing and reading\<close>

definition checkpoint_name :: "int \<Rightarrow> string" where
  "checkpoint_name rank = ''circle'' @ show_int rank @ ''.txt''"

lemma pop_decreases:
  "pop c q = Inr (rc, x, q') \<Longrightarrow> 0 < qcount q \<Longrightarrow> qcount q' < qcount q"
  by (auto simp: pop_def res_Inr Let_def)

function write_loop :: "os_env \<Rightarrow> byte list \<Rightarrow> queue \<Rightarrow> (int \<times> byte list \<times> queue) res" where
  "write_loop env out q =
     (if qcount q > 0 then
        bind_res (pop [] q)
          (\<lambda>(rc, content, q).
            if rc < 0 then Inr (-1, out, q)
            else (let line = c_str content @ [newline] in
              if \<not> fprintf_ok env line then Inr (-1, out, q)
              else write_loop env (out @ line) q))
      else Inr (0, out, q))"
  by pat_completeness auto
termination
  by (relation "measure (\<lambda>(env, out, q). qcount q)") (auto dest: pop_decreases)

declare write_loop.simps [simp del]

definition Queue_write :: "os_env \<Rightarrow> int \<Rightarrow> files \<Rightarrow> queue \<Rightarrow> (int \<times> files \<times> queue) res" where
  "Queue_write env rank fs q =
     (if qcount q = 0 then Inr (0, fs, q)
      else (let filename = checkpoint_name rank in
        if \<not> can_write env filename then Inr (-1, fs, q)
        else bind_res (write_loop env [] q)
          (\<lambda>(rc, out, q). Inr (if rc < 0 then rc else fclose_rc env, fs(filename \<mapsto> out), q))))"

definition Queue_read :: "os_env \<Rightarrow> nat \<Rightarrow> int \<Rightarrow> files \<Rightarrow> queue \<Rightarrow> (int \<times> queue) res" where
  "Queue_read env pagesize rank fs q =
     (let filename = checkpoint_name rank in
      case (if can_read env filename then fs filename else None) of
        None \<Rightarrow> Inr (-1, q)
      | Some contents \<Rightarrow>
          bind_res (put_all (push pagesize) (getlines contents) q) (\<lambda>q. Inr (0, q)))"

section \<open>File names\<close>

definition digits_value :: "string \<Rightarrow> nat" where
  "digits_value s = foldl (\<lambda>n c. 10 * n + (of_char c - 48)) 0 s"

lemma digits_value_snoc [simp]: "digits_value (s @ [c]) = 10 * digits_value s + (of_char c - 48)"
  by (simp add: digits_value_def)

lemma digit_value [simp]: "n < 10 \<Longrightarrow> of_char (char_of (48 + n)) = (48 + n :: nat)"
  by (simp add: of_char_of)

lemma digits_value_show: "digits_value (show_nat n) = n"
proof (induction n rule: show_nat.induct)
  case (1 n)
  show ?case
  proof (cases "n < 10")
    case True
    then show ?thesis by (simp add: show_nat.simps [of n] digits_value_def)
  next
    case False
    with 1 show ?thesis by (simp add: show_nat.simps [of n])
  qed
qed

lemma show_nat_inject: "show_nat a = show_nat b \<longleftrightarrow> a = b"
  using digits_value_show by metis

lemma digit_not_minus: "n < 10 \<Longrightarrow> char_of (48 + n :: nat) \<noteq> CHR ''-''"
proof
  assume n: "n < 10" and "char_of (48 + n :: nat) = CHR ''-''"
  then have "of_char (char_of (48 + n)) = (of_char CHR ''-'' :: nat)" by simp
  with n show False by simp
qed

lemma show_nat_no_minus: "CHR ''-'' \<notin> set (show_nat n)"
proof (induction n rule: show_nat.induct)
  case (1 n)
  then show ?case
    using digit_not_minus [of n] digit_not_minus [of "n mod 10"]
    by (cases "n < 10") (auto simp: show_nat.simps [of n])
qed

lemma show_int_inject: "show_int a = show_int b \<longleftrightarrow> a = b"
proof
  assume eq: "show_int a = show_int b"
  show "a = b"
  proof (cases "a < 0 \<longleftrightarrow> b < 0")
    case True
    with eq show ?thesis
      by (cases "a < 0") (auto simp: show_int_def show_nat_inject)
  next
    case False
    with eq have "show_nat (nat b) = CHR ''-'' # show_nat (nat (- a))
        \<or> show_nat (nat a) = CHR ''-'' # show_nat (nat (- b))"
      by (auto simp: show_int_def split: if_splits)
    then have "CHR ''-'' \<in> set (show_nat (nat a)) \<or> CHR ''-'' \<in> set (show_nat (nat b))"
      by (metis list.set_intros(1))
    then show ?thesis using show_nat_no_minus by blast
  qed
qed simp

lemma checkpoint_name_inject: "checkpoint_name a = checkpoint_name b \<longleftrightarrow> a = b"
  by (simp add: checkpoint_name_def show_int_inject)

section \<open>What a checkpoint keeps\<close>

definition checkpoint_text :: "byte list list \<Rightarrow> byte list" where
  "checkpoint_text xs = concat (map (\<lambda>x. c_str x @ [newline]) (rev xs))"

lemma write_loop_rep:
  assumes "queue_rep q xs" "\<forall>line. fprintf_ok env line"
  shows "\<exists>q'. write_loop env out q = Inr (0, out @ checkpoint_text xs, q') \<and> queue_rep q' []"
  using assms(1)
proof (induction xs arbitrary: q out rule: rev_induct)
  case Nil
  then show ?case by (simp add: write_loop.simps [of env out q] queue_rep_count checkpoint_text_def)
next
  case (snoc x xs)
  obtain q1 where q1: "pop [] q = Inr (0, x, q1)" "queue_rep q1 xs"
    using pop_rep [OF snoc.prems] by metis
  obtain q' where "write_loop env (out @ c_str x @ [newline]) q1
      = Inr (0, (out @ c_str x @ [newline]) @ checkpoint_text xs, q')" "queue_rep q' []"
    using snoc.IH [OF q1(2)] by blast
  with q1 assms(2) queue_rep_count [OF snoc.prems] show ?case
    by (simp add: write_loop.simps [of env out q] checkpoint_text_def)
qed

lemma Queue_write_rep:
  assumes "queue_rep q xs" "xs \<noteq> []" "can_write env (checkpoint_name rank)" "\<forall>line. fprintf_ok env line"
  shows "\<exists>q'. Queue_write env rank fs q
      = Inr (fclose_rc env, fs(checkpoint_name rank \<mapsto> checkpoint_text xs), q') \<and> queue_rep q' []"
  using assms write_loop_rep [OF assms(1,4), of "[]"] queue_rep_count [OF assms(1)]
  by (auto simp: Queue_write_def Let_def)

definition one_line :: "byte list \<Rightarrow> bool" where
  "one_line x \<longleftrightarrow> newline \<notin> set x"

lemma getlines_line:
  assumes "one_line x"
  shows "getlines (x @ newline # b) = x # getlines b"
proof -
  have "takeWhile (\<lambda>c. c \<noteq> newline) (x @ newline # b) = x"
    and "dropWhile (\<lambda>c. c \<noteq> newline) (x @ newline # b) = newline # b"
    using assms by (auto simp: one_line_def takeWhile_append dropWhile_append)
  then show ?thesis by (simp add: getlines.simps [of "x @ newline # b"])
qed

lemma getlines_Nil [simp]: "getlines [] = []"
  by (simp add: getlines.simps)

lemma one_line_c_str: "one_line x \<Longrightarrow> one_line (c_str x)"
  by (auto simp: one_line_def c_str_def dest: set_takeWhileD)

lemma getlines_concat:
  "\<forall>x \<in> set xs. one_line x \<Longrightarrow> getlines (concat (map (\<lambda>x. c_str x @ [newline]) xs)) = map c_str xs"
  by (induction xs) (auto simp: getlines_line one_line_c_str)

lemma getlines_checkpoint:
  "\<forall>x \<in> set xs. one_line x \<Longrightarrow> getlines (checkpoint_text xs) = rev (map c_str xs)"
  by (simp add: checkpoint_text_def getlines_concat rev_map)

lemma put_all_push:
  assumes "queue_rep q ys" "0 < pagesize" "int (length ys + length xs) \<le> INT_MAX"
    "\<forall>x \<in> set xs. length x < 4294967296"
  shows "\<exists>q'. put_all (push pagesize) xs q = Inr q' \<and> queue_rep q' (ys @ filter (\<lambda>x. x \<noteq> []) xs)"
  using assms
proof (induction xs arbitrary: q ys)
  case (Cons x xs)
  show ?case
  proof (cases "x = []")
    case True
    with Cons show ?thesis by (simp add: push_empty)
  next
    case False
    obtain q1 where q1: "push pagesize x q = Inr (0, q1)" "queue_rep q1 (ys @ [x])"
      using push_rep [OF Cons.prems(1) False] Cons.prems by auto
    with Cons.IH [OF q1(2)] Cons.prems False show ?thesis by auto
  qed
qed auto

lemma Queue_read_rep:
  assumes "queue_rep q ys" "0 < pagesize" "can_read env (checkpoint_name rank)"
    "fs (checkpoint_name rank) = Some (checkpoint_text xs)" "\<forall>x \<in> set xs. one_line x"
    "int (length ys + length xs) \<le> INT_MAX" "\<forall>x \<in> set xs. length x < 4294967296"
  shows "\<exists>q'. Queue_read env pagesize rank fs q = Inr (0, q')
    \<and> queue_rep q' (ys @ filter (\<lambda>x. x \<noteq> []) (rev (map c_str xs)))"
proof -
  have "length (c_str x) \<le> length x" for x by (simp add: c_str_def length_takeWhile_le)
  then have "\<forall>x \<in> set (rev (map c_str xs)). length x < 4294967296"
    using assms(7) by (auto intro: le_less_trans)
  moreover have "int (length ys + length (rev (map c_str xs))) \<le> INT_MAX"
    using assms(6) by simp
  ultimately obtain q' where "put_all (push pagesize) (rev (map c_str xs)) q = Inr q'"
    "queue_rep q' (ys @ filter (\<lambda>x. x \<noteq> []) (rev (map c_str xs)))"
    using put_all_push [OF assms(1,2)] by blast
  with assms getlines_checkpoint [OF assms(5)] show ?thesis
    by (simp add: Queue_read_def Let_def)
qed

text \<open>A rank writes its own file only.\<close>

lemma write_files:
  "Queue_write env a fs q = Inr (rc, fs', q') \<Longrightarrow> fs' = fs \<or> (\<exists>out. fs' = fs(checkpoint_name a \<mapsto> out))"
  by (auto simp: Queue_write_def Let_def split: if_splits elim!: bind_res_InrE)

lemma write_read_other:
  assumes "Queue_write env a fs q = Inr (rc, fs', q')" "a \<noteq> b"
  shows "Queue_read env' pagesize b fs' q2 = Queue_read env' pagesize b fs q2"
  using write_files [OF assms(1)] assms(2) checkpoint_name_inject [of a b]
  by (auto simp: Queue_read_def Let_def)

end
