(* ===== verification/Circle_Object.thy ===== *)
theory Circle_Object
  imports Circle_Flags Circle_Checkpoint
begin

text \<open>
  The object a user of the library holds: \<open>Circle\<close> and \<open>CircleImpl\<close> of
  \<open>src/circle.cpp\<close> and the C interface to the queue of \<open>src/lanl_circle.cpp\<close>.  The
  callbacks are the user's code and so are parameters; they act on the object through
  these operations and on state of their own, the field \<open>user\<close>.
\<close>

section \<open>Process environment\<close>

text \<open>Page size, allocation and random numbers, which the system decides.  A random number
  generator maps the seed to a number and the next seed.\<close>

record env =
  pagesize :: nat
  malloc_ok :: "nat \<Rightarrow> bool"
  rand_r :: "nat \<Rightarrow> int \<times> nat"
  os :: os_env

text \<open>\<open>GlobalInit::init\<close> with what the MPI start-up calls return; the second component is
  \<open>must_finalize_mpi\<close>.\<close>

record mpi_startup =
  initialized_rc :: int
  mpi_initialized :: bool
  init_rc :: int

definition MPI_SUCCESS :: int where "MPI_SUCCESS = 0"

definition init :: "mpi_startup \<Rightarrow> int \<times> bool" where
  "init m =
     (if initialized_rc m \<noteq> MPI_SUCCESS then (-1, False)
      else if mpi_initialized m then (0, False)
      else if init_rc m \<noteq> MPI_SUCCESS then (-1, False)
      else (0, True))"

definition finalizes_at_exit :: "bool \<Rightarrow> bool" where
  "finalizes_at_exit must_finalize_mpi = must_finalize_mpi"

section \<open>The object\<close>

record 'u circle =
  c_rank :: int
  queue :: queue
  reduce_buf :: "byte list option"
  reduce_buf_size :: nat
  reduce_period :: int
  logLevel :: LogLevel
  runtimeFlags :: RuntimeFlags
  tree_width :: int
  user :: 'u

record 'u callbacks =
  createCallback :: "'u circle \<Rightarrow> 'u circle res"
  processCallback :: "'u circle \<Rightarrow> 'u circle res"
  reduceInitCallback :: "('u circle \<Rightarrow> 'u circle res) option"
  reduceOperationCallback ::
    "('u circle \<Rightarrow> byte list option \<Rightarrow> nat \<Rightarrow> byte list option \<Rightarrow> nat \<Rightarrow> 'u circle res) option"
  reduceFinalizeCallback :: "('u circle \<Rightarrow> byte list option \<Rightarrow> nat \<Rightarrow> 'u circle res) option"

text \<open>The constructor leaves \<open>reduce_buf_size\<close> indeterminate: the argument \<open>junk\<close>.\<close>

definition Circle_new :: "int \<Rightarrow> RuntimeFlags \<Rightarrow> nat \<Rightarrow> 'u \<Rightarrow> 'u circle" where
  "Circle_new rank flags junk u =
     \<lparr>c_rank = rank, queue = Queue_new, reduce_buf = None, reduce_buf_size = junk,
      reduce_period = 0, logLevel = Fatal, runtimeFlags = flags, tree_width = 64, user = u\<rparr>"

definition getLogLevel :: "'u circle \<Rightarrow> LogLevel" where "getLogLevel c = logLevel c"
definition setLogLevel :: "LogLevel \<Rightarrow> 'u circle \<Rightarrow> 'u circle" where
  "setLogLevel l c = c\<lparr>logLevel := l\<rparr>"
definition getRank :: "'u circle \<Rightarrow> int" where "getRank c = c_rank c"
definition getRuntimeFlags :: "'u circle \<Rightarrow> RuntimeFlags" where "getRuntimeFlags c = runtimeFlags c"
definition setRuntimeFlags :: "RuntimeFlags \<Rightarrow> 'u circle \<Rightarrow> 'u circle" where
  "setRuntimeFlags f c = c\<lparr>runtimeFlags := f\<rparr>"
definition getTreeWidth :: "'u circle \<Rightarrow> int" where "getTreeWidth c = tree_width c"
definition setTreeWidth :: "int \<Rightarrow> 'u circle \<Rightarrow> 'u circle" where
  "setTreeWidth k c = c\<lparr>tree_width := k\<rparr>"
definition getReducePeriod :: "'u circle \<Rightarrow> int" where "getReducePeriod c = reduce_period c"
definition setReducePeriod :: "int \<Rightarrow> 'u circle \<Rightarrow> 'u circle" where
  "setReducePeriod secs c = c\<lparr>reduce_period := secs\<rparr>"

definition getLocalQueueSize :: "'u circle \<Rightarrow> nat" where
  "getLocalQueueSize c = to_u32 (qcount (queue c))"

text \<open>\<open>Circle::abort\<close>: its body is compiled out.\<close>

definition Circle_abort :: "'u circle \<Rightarrow> 'u circle" where
  "Circle_abort c = c"

definition enqueue :: "env \<Rightarrow> byte list \<Rightarrow> 'u circle \<Rightarrow> (int \<times> 'u circle) res" where
  "enqueue E element c =
     bind_res (push (pagesize E) element (queue c)) (\<lambda>(rc, q). Inr (rc, c\<lparr>queue := q\<rparr>))"

definition dequeue :: "byte list \<Rightarrow> 'u circle \<Rightarrow> (int \<times> byte list \<times> 'u circle) res" where
  "dequeue element c =
     bind_res (pop element (queue c)) (\<lambda>(rc, x, q). Inr (rc, x, c\<lparr>queue := q\<rparr>))"

text \<open>\<open>Circle::reduce\<close> copies the user's buffer; \<open>size\<close> is its length.\<close>

definition reduce :: "env \<Rightarrow> byte list \<Rightarrow> 'u circle \<Rightarrow> 'u circle" where
  "reduce E buf c =
     (let c = c\<lparr>reduce_buf := None\<rparr> in
      if length buf > 0 then
        (if \<not> malloc_ok E (length buf) then c
         else c\<lparr>reduce_buf := Some buf, reduce_buf_size := length buf\<rparr>)
      else c)"

definition readRestarts :: "env \<Rightarrow> files \<Rightarrow> 'u circle \<Rightarrow> (int \<times> 'u circle) res" where
  "readRestarts E fs c =
     bind_res (Queue_read (os E) (pagesize E) (getRank c) fs (queue c))
       (\<lambda>(rc, q). Inr (rc, c\<lparr>queue := q\<rparr>))"

definition checkpoint :: "env \<Rightarrow> files \<Rightarrow> 'u circle \<Rightarrow> (int \<times> files \<times> 'u circle) res" where
  "checkpoint E fs c =
     bind_res (Queue_write (os E) (getRank c) fs (queue c))
       (\<lambda>(rc, fs, q). Inr (rc, fs, c\<lparr>queue := q\<rparr>))"

section \<open>The C interface to the queue\<close>

text \<open>A pointer that may be null is an option: the caller's buffer, with its present
  contents, and the caller's size.\<close>

definition circle_enqueue :: "env \<Rightarrow> byte list \<Rightarrow> nat \<Rightarrow> 'u circle \<Rightarrow> (int \<times> 'u circle) res" where
  "circle_enqueue E element szelement c =
     guard_res (szelement \<le> length element) Undefined
       (let content = take szelement element in enqueue E content c)"

definition circle_dequeue ::
  "byte list option \<Rightarrow> nat option \<Rightarrow> 'u circle \<Rightarrow> (int \<times> byte list option \<times> nat option \<times> 'u circle) res" where
  "circle_dequeue element szelement c =
     (case (element, szelement) of
       (None, None) \<Rightarrow> Inr (-1, None, None, c)
     | (None, Some _) \<Rightarrow> bind_res (lastSize (queue c)) (\<lambda>sz. Inr (0, None, Some sz, c))
     | (Some buf, _) \<Rightarrow>
         bind_res (dequeue [] c)
           (\<lambda>(_, content, c).
             let n = (case szelement of Some sz \<Rightarrow> min sz (length content) | None \<Rightarrow> length content) in
             guard_res (n \<le> length buf) Undefined
               (Inr (0, Some (memcpy buf 0 (take n content)),
                     map_option (\<lambda>_. length content) szelement, c))))"

section \<open>Facts\<close>

lemma enqueue_rep:
  assumes "queue_rep (queue c) xs" "x \<noteq> []" "length x < 4294967296" "int (length xs) < INT_MAX" "0 < pagesize E"
  obtains q where "enqueue E x c = Inr (0, c\<lparr>queue := q\<rparr>)" "queue_rep q (xs @ [x])"
proof -
  obtain q where q: "push (pagesize E) x (queue c) = Inr (0, q)" "queue_rep q (xs @ [x])"
    using push_rep [OF assms] by metis
  then have "enqueue E x c = Inr (0, c\<lparr>queue := q\<rparr>)" by (simp add: enqueue_def)
  then show thesis using q(2) by (rule that)
qed

lemma dequeue_rep:
  assumes "queue_rep (queue c) (xs @ [x])"
  obtains q where "dequeue y c = Inr (0, x, c\<lparr>queue := q\<rparr>)" "queue_rep q xs"
    "strings q = strings (queue c)" "base q = base (queue c)"
proof -
  obtain q where q: "pop y (queue c) = Inr (0, x, q)" "queue_rep q xs"
    "strings q = strings (queue c)" "base q = base (queue c)"
    using pop_rep [OF assms] by metis
  then have "dequeue y c = Inr (0, x, c\<lparr>queue := q\<rparr>)" by (simp add: dequeue_def)
  then show thesis using q(2-) by (rule that)
qed

interpretation circle_store: lifo_store "enqueue E" dequeue "\<lambda>c. items (queue c)" "\<lambda>c. wf_queue (queue c)"
    "storable (pagesize E)" "nat INT_MAX"
  for E
proof unfold_locales
  fix c :: "'u circle" and x
  assume "wf_queue (queue c)" "storable (pagesize E) x" "length (items (queue c)) < nat INT_MAX"
  from queue_store.put_law [OF this]
  show "\<exists>c'. enqueue E x c = Inr (0, c') \<and> wf_queue (queue c') \<and> items (queue c') = items (queue c) @ [x]"
    by (auto simp: enqueue_def)
next
  fix c :: "'u circle" and xs x y
  assume "wf_queue (queue c)" "items (queue c) = xs @ [x]"
  from queue_store.get_law [OF this, of y]
  show "\<exists>c'. dequeue y c = Inr (0, x, c') \<and> wf_queue (queue c') \<and> items (queue c') = xs"
    by (auto simp: dequeue_def)
next
  fix c :: "'u circle" and y
  assume "wf_queue (queue c)" "items (queue c) = []"
  from queue_store.get_empty_law [OF this, of y] show "dequeue y c = Inr (-1, y, c)"
    by (simp add: dequeue_def)
qed

text \<open>Asking for the size, then dequeuing into a buffer of at least that size, returns the
  last element whole.\<close>

lemma circle_dequeue_rep:
  assumes "queue_rep (queue c) (xs @ [x])" "length x \<le> length buf" "szelement = None \<or> szelement = Some (length x)"
  shows "\<exists>q. circle_dequeue (Some buf) szelement c
      = Inr (0, Some (x @ drop (length x) buf), map_option (\<lambda>_. length x) szelement, c\<lparr>queue := q\<rparr>)
      \<and> queue_rep q xs"
proof -
  obtain q where "dequeue [] c = Inr (0, x, c\<lparr>queue := q\<rparr>)" "queue_rep q xs"
    using dequeue_rep [OF assms(1)] by metis
  with assms(2,3) show ?thesis
    by (auto simp: circle_dequeue_def memcpy_def Let_def)
qed

text \<open>On an empty queue the C function still reports success, and nothing says so: the buffer is
  unchanged, the size is 0 where one was asked for, or the largest \<open>size_t\<close> when only the
  size was.\<close>

lemma circle_dequeue_empty:
  assumes "queue_rep (queue c) []"
  shows "circle_dequeue (Some buf) szelement c = Inr (0, Some buf, map_option (\<lambda>_. 0) szelement, c)"
    "circle_dequeue None (Some sz) c = Inr (0, None, Some 18446744073709551615, c)"
proof -
  have "pop [] (queue c) = Inr (-1, [], queue c)" by (rule pop_empty [OF assms])
  then have "dequeue [] c = Inr (-1, [], c)" by (simp add: dequeue_def)
  then show "circle_dequeue (Some buf) szelement c = Inr (0, Some buf, map_option (\<lambda>_. 0) szelement, c)"
    by (auto simp: circle_dequeue_def memcpy_def Let_def split: option.splits)
  show "circle_dequeue None (Some sz) c = Inr (0, None, Some 18446744073709551615, c)"
    by (simp add: circle_dequeue_def lastSize_empty [OF assms])
qed

text \<open>Through the C interface: enqueue, ask for the size, dequeue.\<close>

lemma circle_c_roundtrip:
  assumes "queue_rep (queue c) xs" "x \<noteq> []" "length x < 4294967296" "int (length xs) < INT_MAX" "0 < pagesize E"
    "length x \<le> length buf"
  shows "\<exists>q1. circle_enqueue E (x @ junk) (length x) c = Inr (0, c\<lparr>queue := q1\<rparr>)
    \<and> (length (base q1) < 2 ^ 63 \<longrightarrow>
        circle_dequeue None (Some sz) (c\<lparr>queue := q1\<rparr>) = Inr (0, None, Some (length x), c\<lparr>queue := q1\<rparr>))
    \<and> (\<exists>q2. circle_dequeue (Some buf) (Some (length x)) (c\<lparr>queue := q1\<rparr>)
            = Inr (0, Some (x @ drop (length x) buf), Some (length x), c\<lparr>queue := q2\<rparr>) \<and> queue_rep q2 xs)"
proof -
  obtain q1 where q1: "enqueue E x c = Inr (0, c\<lparr>queue := q1\<rparr>)" "queue_rep q1 (xs @ [x])"
    using enqueue_rep [OF assms(1-5)] by metis
  have sz: "length (base q1) < 2 ^ 63 \<Longrightarrow>
      circle_dequeue None (Some sz) (c\<lparr>queue := q1\<rparr>) = Inr (0, None, Some (length x), c\<lparr>queue := q1\<rparr>)"
    using lastSize_rep [OF q1(2)] by (simp add: circle_dequeue_def)
  have "queue_rep (queue (c\<lparr>queue := q1\<rparr>)) (xs @ [x])" using q1(2) by simp
  from circle_dequeue_rep [OF this assms(6), of "Some (length x)"] obtain q2 where
    "circle_dequeue (Some buf) (Some (length x)) (c\<lparr>queue := q1\<rparr>)
      = Inr (0, Some (x @ drop (length x) buf), Some (length x), c\<lparr>queue := q2\<rparr>)" "queue_rep q2 xs"
    by auto
  with sz q1(1) show ?thesis by (intro exI [of _ q1]) (auto simp: circle_enqueue_def)
qed

end
