(* ===== verification/Circle_Mpi.thy ===== *)
theory Circle_Mpi
  imports Circle_Prelude Complex_Main
begin

text \<open>
  The MPI library is not part of the repository: it is a parameter, a record of the
  calls the sources make, over a type \<open>'w\<close> of the state of the network and of the
  library.  The first argument of each call is the rank of the calling process on the
  work communicator.  The locale \<open>mpi_laws\<close> states what the MPI standard documents of
  these calls and the sources rely on; \<open>fifo_mpi\<close> is a reference instance used to
  evaluate the model.
\<close>

section \<open>Messages and calls\<close>

text \<open>A message carries the elements of one MPI datatype.\<close>

datatype payload = Empty | Ints "int list" | Chars "byte list" | Longs "int list" | Bytes "byte list"

fun payload_ints :: "payload \<Rightarrow> int" where
  "payload_ints (Ints xs) = int (length xs)"
| "payload_ints _ = 0"

record status =
  MPI_SOURCE :: int
  msg_ints :: int

text \<open>A channel: the source, the destination and the tag of a message.\<close>

type_synonym channel = "int \<times> int \<times> int"

datatype MPI_Request = Send_req nat | Recv_req nat channel

record 'w mpi =
  MPI_Iprobe :: "int \<Rightarrow> int option \<Rightarrow> int \<Rightarrow> 'w \<Rightarrow> status option \<times> 'w"
  MPI_Recv :: "int \<Rightarrow> int \<Rightarrow> int \<Rightarrow> 'w \<Rightarrow> (payload \<times> 'w) option"
  MPI_Send :: "int \<Rightarrow> int \<Rightarrow> int \<Rightarrow> payload \<Rightarrow> 'w \<Rightarrow> 'w option"
  MPI_Isend :: "int \<Rightarrow> int \<Rightarrow> int \<Rightarrow> payload \<Rightarrow> 'w \<Rightarrow> nat \<times> 'w"
  MPI_Issend :: "int \<Rightarrow> int \<Rightarrow> int \<Rightarrow> payload \<Rightarrow> 'w \<Rightarrow> nat \<times> 'w"
  MPI_Irecv :: "int \<Rightarrow> int \<Rightarrow> int \<Rightarrow> 'w \<Rightarrow> nat \<times> 'w"
  MPI_Wait :: "int \<Rightarrow> nat \<Rightarrow> 'w \<Rightarrow> 'w option"
  MPI_Test :: "int \<Rightarrow> nat \<Rightarrow> 'w \<Rightarrow> bool \<times> 'w"
  MPI_Testall :: "int \<Rightarrow> MPI_Request list \<Rightarrow> 'w \<Rightarrow> bool \<times> 'w"
  MPI_Wtime :: "int \<Rightarrow> 'w \<Rightarrow> real \<times> 'w"

text \<open>
  A blocking call that never completes blocks the process.  A receive names the datatype
  it expects; another one is an MPI error, for which the registered handler aborts.
\<close>

definition recv :: "'w mpi \<Rightarrow> int \<Rightarrow> int \<Rightarrow> int \<Rightarrow> 'w \<Rightarrow> (payload \<times> 'w) res" where
  "recv M me src tag w = opt_res Blocks (MPI_Recv M me src tag w)"

definition send :: "'w mpi \<Rightarrow> int \<Rightarrow> int \<Rightarrow> int \<Rightarrow> payload \<Rightarrow> 'w \<Rightarrow> 'w res" where
  "send M me dest tag p w = opt_res Blocks (MPI_Send M me dest tag p w)"

fun as_ints :: "payload \<Rightarrow> int list res" where
  "as_ints (Ints xs) = Inr xs"
| "as_ints _ = Inl Mpi_error"

fun as_int :: "payload \<Rightarrow> int res" where
  "as_int (Ints [x]) = Inr x"
| "as_int _ = Inl Mpi_error"

fun as_chars :: "payload \<Rightarrow> byte list res" where
  "as_chars (Chars xs) = Inr xs"
| "as_chars _ = Inl Mpi_error"

fun as_longs3 :: "payload \<Rightarrow> (int \<times> int \<times> int) res" where
  "as_longs3 (Longs [x, y, z]) = Inr (x, y, z)"
| "as_longs3 _ = Inl Mpi_error"

fun as_bytes :: "payload \<Rightarrow> byte list res" where
  "as_bytes (Bytes xs) = Inr xs"
| "as_bytes Empty = Inr []"
| "as_bytes _ = Inl Mpi_error"

fun_cases as_int_InrE: "as_int p = Inr x"
fun_cases as_ints_InrE: "as_ints p = Inr x"
fun_cases as_chars_InrE: "as_chars p = Inr x"

text \<open>The loop that sends the same message to each rank of a list.\<close>

fun send_each :: "'w mpi \<Rightarrow> int \<Rightarrow> int \<Rightarrow> payload \<Rightarrow> int list \<Rightarrow> 'w \<Rightarrow> 'w res" where
  "send_each M me tag p [] w = Inr w"
| "send_each M me tag p (d # ds) w = bind_res (send M me d tag p w) (\<lambda>w. send_each M me tag p ds w)"

section \<open>The laws\<close>

text \<open>
  \<open>pend w (i, j, t)\<close> are the messages with tag \<open>t\<close> that \<open>i\<close> has sent to \<open>j\<close> and \<open>j\<close> has
  not received, oldest first.  A receive takes the oldest one (messages do not overtake
  on one channel); a probe never removes a message and only reports one that is there;
  waiting for or testing a send request does not touch the messages, and testing a list
  of requests can complete only the receives in it.  Nothing is assumed about when a
  probe reports a message that is pending.
\<close>

locale mpi_laws =
  fixes M :: "'w mpi" and pend :: "'w \<Rightarrow> channel \<Rightarrow> payload list"
  assumes iprobe_pend: "MPI_Iprobe M me src t w = (r, w') \<Longrightarrow> pend w' = pend w"
    and iprobe_some: "MPI_Iprobe M me src t w = (Some st, w') \<Longrightarrow>
      pend w (MPI_SOURCE st, me, t) \<noteq> [] \<and> (src = None \<or> src = Some (MPI_SOURCE st))
      \<and> msg_ints st = payload_ints (List.hd (pend w (MPI_SOURCE st, me, t)))"
    and recv_law: "MPI_Recv M me i t w = Some (p, w') \<Longrightarrow>
      \<exists>ps. pend w (i, me, t) = p # ps \<and> pend w' = (pend w)((i, me, t) := ps)"
    and recv_ready: "pend w (i, me, t) \<noteq> [] \<Longrightarrow> MPI_Recv M me i t w \<noteq> None"
    and send_law: "MPI_Send M me d t p w = Some w' \<Longrightarrow>
      pend w' = (pend w)((me, d, t) := pend w (me, d, t) @ [p])"
    and isend_law: "MPI_Isend M me d t p w = (h, w') \<Longrightarrow>
      pend w' = (pend w)((me, d, t) := pend w (me, d, t) @ [p])"
    and issend_law: "MPI_Issend M me d t p w = (h, w') \<Longrightarrow>
      pend w' = (pend w)((me, d, t) := pend w (me, d, t) @ [p])"
    and irecv_law: "MPI_Irecv M me i t w = (h, w') \<Longrightarrow> pend w' = pend w"
    and wait_law: "MPI_Wait M me h w = Some w' \<Longrightarrow> pend w' = pend w"
    and test_law: "MPI_Test M me h w = (b, w') \<Longrightarrow> pend w' = pend w"
    and testall_law: "MPI_Testall M me rs w = (b, w') \<Longrightarrow>
      \<forall>h. Recv_req h k \<notin> set rs \<Longrightarrow> pend w' k = pend w k"
    and wtime_law: "MPI_Wtime M me w = (x, w') \<Longrightarrow> pend w' = pend w"
begin

lemma send_Inr:
  "send M me d t p w = Inr w' \<Longrightarrow> pend w' = (pend w)((me, d, t) := pend w (me, d, t) @ [p])"
  by (simp add: send_def send_law)

lemma recv_Inr:
  assumes "recv M me i t w = Inr (p, w')"
  obtains ps where "pend w (i, me, t) = p # ps" "pend w' = (pend w)((i, me, t) := ps)"
  using assms recv_law [of me i t w p w'] by (auto simp: recv_def)

lemma recv_pend:
  assumes "pend w (i, me, t) = p # ps"
  obtains w' where "recv M me i t w = Inr (p, w')" "pend w' = (pend w)((i, me, t) := ps)"
proof -
  have "MPI_Recv M me i t w \<noteq> None" using assms by (intro recv_ready) simp
  then obtain p' w' where r: "MPI_Recv M me i t w = Some (p', w')" by auto
  from recv_law [OF r] assms that [of w'] r show thesis by (simp add: recv_def)
qed

text \<open>Sends and receives of pending messages as postconditions.\<close>

lemma send_yields:
  "yields (send M me d t p w) (\<lambda>w'. pend w' = (pend w)((me, d, t) := pend w (me, d, t) @ [p]))"
  using send_law [of me d t p w] by (cases "MPI_Send M me d t p w") (auto simp: send_def)

lemma recv_yields:
  assumes "pend w (i, me, t) = p # ps"
  shows "yields (recv M me i t w) (\<lambda>(p', w'). p' = p \<and> pend w' = (pend w)((i, me, t) := ps))"
  using recv_pend [OF assms] by fastforce

lemma probe_None: "MPI_Iprobe M me src t w = (None, w') \<Longrightarrow> pend w' = pend w"
  by (rule iprobe_pend)

text \<open>A receive right after a successful probe does not block and takes the probed message.\<close>

lemma probe_recv:
  assumes "MPI_Iprobe M me src t w = (Some st, w1)"
  obtains p ps w2 where "recv M me (MPI_SOURCE st) t w1 = Inr (p, w2)"
    "pend w (MPI_SOURCE st, me, t) = p # ps"
    "pend w2 = (pend w)((MPI_SOURCE st, me, t) := ps)" "pend w1 = pend w"
    "src = None \<or> src = Some (MPI_SOURCE st)" "msg_ints st = payload_ints p"
proof -
  have same: "pend w1 = pend w" by (rule iprobe_pend [OF assms])
  note some = iprobe_some [OF assms]
  with same have "MPI_Recv M me (MPI_SOURCE st) t w1 \<noteq> None"
    using recv_ready by simp
  then obtain p w2 where r: "recv M me (MPI_SOURCE st) t w1 = Inr (p, w2)"
    by (auto simp: recv_def)
  from recv_Inr [OF r] obtain ps where "pend w1 (MPI_SOURCE st, me, t) = p # ps"
    "pend w2 = (pend w1)((MPI_SOURCE st, me, t) := ps)" .
  with r same some show thesis by (intro that) auto
qed

lemma send_each_pend:
  assumes "send_each M me t p ds w = Inr w'" "distinct ds"
  shows "pend w' k = (if \<exists>d \<in> set ds. k = (me, d, t) then pend w k @ [p] else pend w k)"
  using assms
proof (induction ds arbitrary: w)
  case (Cons d ds)
  then obtain w1 where w1: "send M me d t p w = Inr w1" "send_each M me t p ds w1 = Inr w'"
    by (auto elim: bind_res_InrE)
  with Cons.IH [OF w1(2)] send_Inr [OF w1(1)] Cons.prems(2) show ?case by auto
qed simp

end

text \<open>
  A stronger contract: a probe for a message from a given rank finds it once it has been
  sent.  MPI does not promise this at any particular moment (it promises progress), so the
  properties that need it name it.
\<close>

locale mpi_eager = mpi_laws +
  assumes iprobe_eager: "pend w (i, me, t) \<noteq> [] \<Longrightarrow> fst (MPI_Iprobe M me (Some i) t w) \<noteq> None"
begin

lemma iprobe_none: "fst (MPI_Iprobe M me (Some i) t w) = None \<Longrightarrow> pend w (i, me, t) = []"
  using iprobe_eager by blast

end

section \<open>A reference network\<close>

text \<open>
  First-in first-out channels that never fill up; a synchronous send completes when its
  message has been received.  All messages under way are in one list, oldest first; the
  lists of what was sent and received so far count the messages of a channel.
\<close>

record fifo =
  net_msgs :: "(channel \<times> payload) list"
  net_ranks :: "int list"
  net_sent :: "channel list"
  net_rcvd :: "channel list"
  net_sync :: "(nat \<times> channel \<times> nat) list"
  net_fresh :: nat
  net_clock :: real

definition fifo_new :: "int \<Rightarrow> fifo" where
  "fifo_new n = \<lparr>net_msgs = [], net_ranks = [0..n - 1], net_sent = [], net_rcvd = [], net_sync = [],
     net_fresh = 0, net_clock = 0\<rparr>"

definition chan :: "fifo \<Rightarrow> channel \<Rightarrow> payload list" where
  "chan w k = map snd (filter (\<lambda>m. fst m = k) (net_msgs w))"

fun drop_msg :: "channel \<Rightarrow> (channel \<times> payload) list \<Rightarrow> (channel \<times> payload) list" where
  "drop_msg k [] = []"
| "drop_msg k (m # ms) = (if fst m = k then ms else m # drop_msg k ms)"

definition fifo_probe :: "int \<Rightarrow> int option \<Rightarrow> int \<Rightarrow> fifo \<Rightarrow> status option \<times> fifo" where
  "fifo_probe me src t w =
     (case filter (\<lambda>i. chan w (i, me, t) \<noteq> []) (case src of None \<Rightarrow> net_ranks w | Some i \<Rightarrow> [i]) of
       [] \<Rightarrow> (None, w)
     | i # _ \<Rightarrow> (Some \<lparr>MPI_SOURCE = i, msg_ints = payload_ints (List.hd (chan w (i, me, t)))\<rparr>, w))"

definition fifo_drop :: "channel \<Rightarrow> fifo \<Rightarrow> fifo" where
  "fifo_drop k w = w\<lparr>net_msgs := drop_msg k (net_msgs w), net_rcvd := k # net_rcvd w\<rparr>"

definition fifo_recv :: "int \<Rightarrow> int \<Rightarrow> int \<Rightarrow> fifo \<Rightarrow> (payload \<times> fifo) option" where
  "fifo_recv me i t w =
     (case chan w (i, me, t) of [] \<Rightarrow> None | p # ps \<Rightarrow> Some (p, fifo_drop (i, me, t) w))"

definition fifo_put :: "int \<Rightarrow> int \<Rightarrow> int \<Rightarrow> payload \<Rightarrow> fifo \<Rightarrow> fifo" where
  "fifo_put me d t p w =
     w\<lparr>net_msgs := net_msgs w @ [((me, d, t), p)], net_sent := (me, d, t) # net_sent w\<rparr>"

definition fifo_isend :: "bool \<Rightarrow> int \<Rightarrow> int \<Rightarrow> int \<Rightarrow> payload \<Rightarrow> fifo \<Rightarrow> nat \<times> fifo" where
  "fifo_isend synchronous me d t p w =
     (let h = net_fresh w; w' = fifo_put me d t p w in
      (h, w'\<lparr>net_sync := (if synchronous then (h, (me, d, t), count_list (net_sent w') (me, d, t)) # net_sync w'
                           else net_sync w'),
            net_fresh := h + 1\<rparr>))"

definition fifo_done :: "nat \<Rightarrow> fifo \<Rightarrow> bool" where
  "fifo_done h w = (case map_of (net_sync w) h of None \<Rightarrow> True | Some (k, n) \<Rightarrow> n \<le> count_list (net_rcvd w) k)"

fun fifo_req_done :: "fifo \<Rightarrow> MPI_Request \<Rightarrow> bool" where
  "fifo_req_done w (Send_req h) = fifo_done h w"
| "fifo_req_done w (Recv_req h k) = (chan w k \<noteq> [])"

fun fifo_take :: "MPI_Request \<Rightarrow> fifo \<Rightarrow> fifo" where
  "fifo_take (Send_req h) w = w"
| "fifo_take (Recv_req h k) w = fifo_drop k w"

definition fifo_mpi :: "fifo mpi" where
  "fifo_mpi = \<lparr>
     MPI_Iprobe = fifo_probe,
     MPI_Recv = fifo_recv,
     MPI_Send = (\<lambda>me d t p w. Some (fifo_put me d t p w)),
     MPI_Isend = fifo_isend False,
     MPI_Issend = fifo_isend True,
     MPI_Irecv = (\<lambda>me i t w. (net_fresh w, w\<lparr>net_fresh := net_fresh w + 1\<rparr>)),
     MPI_Wait = (\<lambda>me h w. if fifo_done h w then Some w else None),
     MPI_Test = (\<lambda>me h w. (fifo_done h w, w)),
     MPI_Testall = (\<lambda>me rs w. if list_all (fifo_req_done w) rs then (True, fold fifo_take rs w) else (False, w)),
     MPI_Wtime = (\<lambda>me w. (net_clock w, w))\<rparr>"

lemma chan_update [simp]:
  "chan (w\<lparr>net_ranks := x1\<rparr>) = chan w" "chan (w\<lparr>net_sent := x2\<rparr>) = chan w" "chan (w\<lparr>net_rcvd := x2\<rparr>) = chan w"
  "chan (w\<lparr>net_sync := x3\<rparr>) = chan w" "chan (w\<lparr>net_fresh := x4\<rparr>) = chan w"
  by (simp_all add: fun_eq_iff chan_def)

lemma chan_new [simp]: "chan (fifo_new n) k = []"
  by (simp add: chan_def fifo_new_def)

lemma chan_put [simp]: "chan (fifo_put me d t p w) = (chan w)((me, d, t) := chan w (me, d, t) @ [p])"
  by (auto simp: fun_eq_iff chan_def fifo_put_def)

lemma chan_drop [simp]: "chan (fifo_drop k w) = (chan w)(k := List.tl (chan w k))"
proof
  fix k'
  have "map snd (filter (\<lambda>m. fst m = k') (drop_msg k ms))
      = (if k' = k then List.tl (map snd (filter (\<lambda>m. fst m = k) ms)) else map snd (filter (\<lambda>m. fst m = k') ms))" for ms
    by (induction ms) auto
  then show "chan (fifo_drop k w) k' = ((chan w)(k := List.tl (chan w k))) k'"
    by (simp add: chan_def fifo_drop_def)
qed

lemma fold_fifo_take:
  "\<forall>h. Recv_req h k \<notin> set rs \<Longrightarrow> chan (fold fifo_take rs w) k = chan w k"
proof (induction rs arbitrary: w)
  case (Cons r rs)
  then show ?case by (cases r) auto
qed simp

interpretation fifo: mpi_laws fifo_mpi chan
proof unfold_locales
  fix me src t w st w'
  assume "MPI_Iprobe fifo_mpi me src t w = (Some st, w')"
  then have "fifo_probe me src t w = (Some st, w')" by (simp add: fifo_mpi_def)
  then obtain i rest where f: "filter (\<lambda>i. chan w (i, me, t) \<noteq> [])
      (case src of None \<Rightarrow> net_ranks w | Some i \<Rightarrow> [i]) = i # rest"
    and st: "st = \<lparr>MPI_SOURCE = i, msg_ints = payload_ints (List.hd (chan w (i, me, t)))\<rparr>"
    by (auto simp: fifo_probe_def split: list.splits)
  have "chan w (i, me, t) \<noteq> [] \<and> (src = None \<or> src = Some i)"
    using f by (cases src) (auto simp: filter_eq_Cons_iff split: if_splits)
  with st show "chan w (MPI_SOURCE st, me, t) \<noteq> [] \<and> (src = None \<or> src = Some (MPI_SOURCE st))
      \<and> msg_ints st = payload_ints (List.hd (chan w (MPI_SOURCE st, me, t)))" by simp
next
  fix me rs w b w' k
  assume "MPI_Testall fifo_mpi me rs w = (b, w')" "\<forall>h. Recv_req h k \<notin> set rs"
  then show "chan w' k = chan w k"
    using fold_fifo_take [of k rs w] by (auto simp: fifo_mpi_def split: if_splits)
qed (auto simp: fifo_mpi_def fifo_probe_def fifo_recv_def fifo_isend_def Let_def
       split: list.splits if_splits)

interpretation fifo: mpi_eager fifo_mpi chan
  by unfold_locales (auto simp: fifo_mpi_def fifo_probe_def)

end
