(* ===== verification/Circle_Tree.thy ===== *)
theory Circle_Tree
  imports Circle_Prelude
begin

text \<open>
  The k-ary communication tree of \<open>src/tree_state.cpp\<close>, rooted at rank 0, in which the
  collective operations (reductions, barrier, tree termination, abort) run.  The theory
  models the constructor, shows which ranks it makes parent and children, and states
  what the collectives rely on as the locale \<open>rank_tree\<close>.
\<close>

section \<open>The constructor\<close>

text \<open>\<open>MPI_PROC_NULL\<close> is \<open>None\<close>.\<close>

record tree_state =
  ts_rank :: int
  ts_nranks :: int
  parentRank :: "int option"
  nchildren :: int
  childrenRanks :: "int option list"
  maxChildren :: int

definition CIRCLE_MPI_ERROR :: int where "CIRCLE_MPI_ERROR = 32"

definition alloc_children :: "(nat \<Rightarrow> bool) \<Rightarrow> int \<Rightarrow> int option list res" where
  "alloc_children malloc_ok width =
     (if width > 0 then
        guard_res (malloc_ok (nat width * 4)) (Mpi_Abort CIRCLE_MPI_ERROR)
          (Inr (replicate (nat width) None))
      else Inr [])"

fun fill_children :: "int \<Rightarrow> nat \<Rightarrow> nat \<Rightarrow> int option list \<Rightarrow> int option list res" where
  "fill_children left i 0 cs = Inr cs"
| "fill_children left i (Suc m) cs =
     guard_res (i < length cs) Undefined (fill_children left (i + 1) m (cs[i := Some (left + int i)]))"

definition TreeState_new :: "(nat \<Rightarrow> bool) \<Rightarrow> int \<Rightarrow> int \<Rightarrow> int \<Rightarrow> tree_state res" where
  "TreeState_new malloc_ok rank nranks width =
     bind_res (alloc_children malloc_ok width) (\<lambda>cs.
     bind_res (if rank > 0 then guard_res (width \<noteq> 0) Undefined (Inr (Some ((rank - 1) sdiv width)))
               else Inr None) (\<lambda>parent.
     bind_res (ck_int (rank * width)) (\<lambda>rw.
     bind_res (ck_int (rw + 1)) (\<lambda>left.
     bind_res (ck_int (rw + width)) (\<lambda>right.
       if left < nranks then
         (let right = (if right \<ge> nranks then nranks - 1 else right);
              n = right - left + 1
          in bind_res (fill_children left 0 (nat n) cs) (\<lambda>cs.
               Inr \<lparr>ts_rank = rank, ts_nranks = nranks, parentRank = parent, nchildren = n,
                    childrenRanks = cs, maxChildren = width\<rparr>))
       else Inr \<lparr>ts_rank = rank, ts_nranks = nranks, parentRank = parent, nchildren = 0,
                 childrenRanks = cs, maxChildren = width\<rparr>)))))"

definition getChildrenCount :: "tree_state \<Rightarrow> int" where
  "getChildrenCount t = nchildren t"

definition getParentRank :: "tree_state \<Rightarrow> int option" where
  "getParentRank t = parentRank t"

definition getChildrenRanks :: "tree_state \<Rightarrow> int option list" where
  "getChildrenRanks t = childrenRanks t"

text \<open>
  The ranks a loop \<open>for (i = 0; i < nchildren; i++)\<close> over \<open>childrenRanks\<close> visits; an
  entry \<open>MPI_PROC_NULL\<close> makes the communication a no-op.
\<close>

definition child_list :: "tree_state \<Rightarrow> int list" where
  "child_list t = concat (map (\<lambda>c. case c of None \<Rightarrow> [] | Some r \<Rightarrow> [r])
     (take (nat (getChildrenCount t)) (getChildrenRanks t)))"

section \<open>What the constructor computes\<close>

definition kary_parent :: "int \<Rightarrow> int \<Rightarrow> int option" where
  "kary_parent width r = (if 0 < r then Some ((r - 1) div width) else None)"

definition kary_children :: "int \<Rightarrow> int \<Rightarrow> int \<Rightarrow> int list" where
  "kary_children width n r = [r * width + 1 .. min (r * width + width) (n - 1)]"

lemma fill_children_ok:
  "i + m \<le> length cs \<Longrightarrow>
   fill_children left i m cs = Inr (take i cs @ map (\<lambda>j. Some (left + int j)) [i..<i + m] @ drop (i + m) cs)"
proof (induction m arbitrary: i cs)
  case (Suc m)
  have "fill_children left i (Suc m) cs
      = fill_children left (i + 1) m (cs[i := Some (left + int i)])" using Suc.prems by simp
  also have "\<dots> = Inr (take (i + 1) (cs[i := Some (left + int i)])
      @ map (\<lambda>j. Some (left + int j)) [i + 1..<i + 1 + m]
      @ drop (i + 1 + m) (cs[i := Some (left + int i)]))"
    using Suc.IH [of "i + 1" "cs[i := Some (left + int i)]"] Suc.prems by simp
  also have "take (i + 1) (cs[i := Some (left + int i)]) = take i cs @ [Some (left + int i)]"
    using Suc.prems by (simp add: take_list_update_append)
  finally show ?case using Suc.prems by (simp add: upt_rec)
qed simp

lemma upto_map: "map (\<lambda>j. left + int j) [0..<nat (r - left + 1)] = [left..r]"
proof (rule nth_equalityI)
  fix i assume "i < length (map (\<lambda>j. left + int j) [0..<nat (r - left + 1)])"
  then show "map (\<lambda>j. left + int j) [0..<nat (r - left + 1)] ! i = [left..r] ! i" by simp
qed simp

lemma concat_Some: "concat (map ((\<lambda>c. case c of None \<Rightarrow> [] | Some r \<Rightarrow> [r]) \<circ> (\<lambda>j. Some (f j))) js) = map f js"
  by (induction js) auto

text \<open>Width at least one, no overflow, memory for the list: the tree is the k-ary one.\<close>

lemma TreeState_new_ok:
  assumes "0 \<le> r" "r < n" "1 \<le> width" "r * width + width \<le> INT_MAX" "malloc_ok (nat width * 4)"
  obtains t where "TreeState_new malloc_ok r n width = Inr t"
    "parentRank t = kary_parent width r" "child_list t = kary_children width n r"
    "nchildren t = int (length (kary_children width n r))" "0 \<le> nchildren t"
proof -
  let ?left = "r * width + 1" and ?right = "min (r * width + width) (n - 1)"
  have rw: "0 \<le> r * width" using assms by simp
  have rng: "in_int (r * width)" "in_int (r * width + 1)" "in_int (r * width + width)"
    using assms rw unfolding in_int_def INT_MAX_def by linarith+
  have par: "(if r > 0 then guard_res (width \<noteq> 0) Undefined (Inr (Some ((r - 1) sdiv width))) else Inr None)
      = Inr (kary_parent width r)"
    using assms by (simp add: kary_parent_def)
  have al: "alloc_children malloc_ok width = Inr (replicate (nat width) None)"
    using assms by (simp add: alloc_children_def)
  show thesis
  proof (cases "?left < n")
    case True
    have le: "nat (?right - ?left + 1) \<le> nat width" by simp
    let ?m = "nat (?right - ?left + 1)"
    let ?cs = "map (\<lambda>j. Some (?left + int j)) [0..<?m] @ drop ?m (replicate (nat width) None)"
    let ?t = "\<lparr>ts_rank = r, ts_nranks = n, parentRank = kary_parent width r,
        nchildren = ?right - ?left + 1, childrenRanks = ?cs, maxChildren = width\<rparr>"
    have fill: "fill_children ?left 0 ?m (replicate (nat width) None) = Inr ?cs"
      using fill_children_ok [of 0 ?m "replicate (nat width) None" ?left] le by simp
    have right: "(if r * width + width \<ge> n then n - 1 else r * width + width) = ?right" by simp
    have "TreeState_new malloc_ok r n width = Inr ?t"
      unfolding TreeState_new_def al par
      using rng True fill right by (simp add: Let_def)
    moreover have "child_list ?t = kary_children width n r"
      by (simp add: child_list_def getChildrenCount_def getChildrenRanks_def kary_children_def
          concat_Some upto_map [symmetric])
    moreover have "?right - ?left + 1 = int (length (kary_children width n r))"
      using True assms by (simp add: kary_children_def)
    ultimately show thesis by (intro that [of ?t]) auto
  next
    case False
    let ?t = "\<lparr>ts_rank = r, ts_nranks = n, parentRank = kary_parent width r,
        nchildren = 0, childrenRanks = replicate (nat width) None, maxChildren = width\<rparr>"
    have "TreeState_new malloc_ok r n width = Inr ?t"
      unfolding TreeState_new_def al par using rng False by simp
    moreover have "kary_children width n r = []"
      using False assms by (simp add: kary_children_def)
    ultimately show thesis
      by (intro that [of ?t]) (auto simp: child_list_def getChildrenCount_def)
  qed
qed

text \<open>Width zero: only rank 0 gets past the division.\<close>

lemma TreeState_new_width_0: "0 < r \<Longrightarrow> TreeState_new malloc_ok r n 0 = Inl Undefined"
  by (simp add: TreeState_new_def alloc_children_def)

section \<open>What the collectives rely on\<close>

locale rank_tree =
  fixes n :: int and par :: "int \<Rightarrow> int option" and chl :: "int \<Rightarrow> int list"
  assumes par_root: "par 0 = None"
    and par_less: "0 < r \<Longrightarrow> r < n \<Longrightarrow> \<exists>p. par r = Some p \<and> 0 \<le> p \<and> p < r"
    and child_iff: "0 \<le> r \<Longrightarrow> r < n \<Longrightarrow> c \<in> set (chl r) \<longleftrightarrow> 0 < c \<and> c < n \<and> par c = Some r"
    and child_distinct: "distinct (chl r)"
begin

lemma child_bounds: "0 \<le> r \<Longrightarrow> r < n \<Longrightarrow> c \<in> set (chl r) \<Longrightarrow> r < c \<and> c < n \<and> par c = Some r"
  using child_iff [of r c] par_less [of c] by auto

lemma par_range: "0 \<le> r \<Longrightarrow> r < n \<Longrightarrow> par r = Some p \<Longrightarrow> 0 \<le> p \<and> p < r \<and> r \<in> set (chl p)"
  using par_less [of r] child_iff [of p r] par_root by (cases "r = 0") auto

lemma unique_parent:
  "0 \<le> r \<Longrightarrow> r < n \<Longrightarrow> 0 \<le> r' \<Longrightarrow> r' < n \<Longrightarrow> c \<in> set (chl r) \<Longrightarrow> c \<in> set (chl r') \<Longrightarrow> r = r'"
  using child_iff by auto

text \<open>A property that every parent passes to its children holds everywhere if it holds at
  the root: the way results travel down.\<close>

lemma down_induct:
  assumes "P 0" "\<And>r c. 0 \<le> r \<Longrightarrow> r < n \<Longrightarrow> P r \<Longrightarrow> c \<in> set (chl r) \<Longrightarrow> P c"
  shows "0 \<le> r \<Longrightarrow> r < n \<Longrightarrow> P r"
proof (induction "nat r" arbitrary: r rule: less_induct)
  case less
  show ?case
  proof (cases "r = 0")
    case True
    with assms(1) show ?thesis by simp
  next
    case False
    then obtain p where p: "par r = Some p" "0 \<le> p" "p < r"
      using par_less less.prems by force
    with less.prems have "P p" by (intro less.hyps) auto
    moreover have "r \<in> set (chl p)" using par_range less.prems p by blast
    ultimately show ?thesis using assms(2) [of p r] p less.prems by simp
  qed
qed

text \<open>A property that holds at a rank when it holds at all its children holds everywhere:
  the way partial results travel up.\<close>

lemma up_induct:
  assumes "\<And>r. 0 \<le> r \<Longrightarrow> r < n \<Longrightarrow> (\<And>c. c \<in> set (chl r) \<Longrightarrow> P c) \<Longrightarrow> P r"
  shows "0 \<le> r \<Longrightarrow> r < n \<Longrightarrow> P r"
proof (induction "nat (n - r)" arbitrary: r rule: less_induct)
  case less
  have "P c" if "c \<in> set (chl r)" for c
    using child_bounds [OF less.prems that] less.prems by (intro less.hyps) auto
  with assms less.prems show ?case by blast
qed

end

lemma kary_div:
  assumes "1 \<le> (k::int)"
  shows "(c - 1) div k = r \<longleftrightarrow> r * k + 1 \<le> c \<and> c \<le> r * k + k"
proof
  assume "(c - 1) div k = r"
  then have "c - 1 = r * k + (c - 1) mod k" using mult_div_mod_eq [of k "c - 1"] by (simp add: mult.commute)
  moreover have "0 \<le> (c - 1) mod k" "(c - 1) mod k < k" using assms by auto
  ultimately show "r * k + 1 \<le> c \<and> c \<le> r * k + k" by linarith
next
  assume "r * k + 1 \<le> c \<and> c \<le> r * k + k"
  then show "(c - 1) div k = r"
    by (intro int_div_pos_eq [where r = "c - 1 - r * k"]) (auto simp: mult.commute)
qed

lemma kary_parent_less:
  assumes "1 \<le> (k::int)" "0 < r"
  shows "0 \<le> (r - 1) div k \<and> (r - 1) div k < r"
proof
  show "0 \<le> (r - 1) div k" using assms by (simp add: pos_imp_zdiv_nonneg_iff)
  have "(r - 1) div k \<le> (r - 1) div 1" using assms by (intro zdiv_mono2) auto
  then show "(r - 1) div k < r" by simp
qed

interpretation kary: rank_tree n "kary_parent (int (Suc k))" "kary_children (int (Suc k)) n"
  for n k
proof unfold_locales
  fix r :: int
  assume "0 < r" "r < n"
  then show "\<exists>p. kary_parent (int (Suc k)) r = Some p \<and> 0 \<le> p \<and> p < r"
    using kary_parent_less [of "int (Suc k)" r] by (simp add: kary_parent_def)
next
  fix r c :: int
  assume "0 \<le> r" "r < n"
  then have nn: "0 \<le> r * int (Suc k)" by simp
  have "c \<in> set (kary_children (int (Suc k)) n r)
      \<longleftrightarrow> r * int (Suc k) + 1 \<le> c \<and> c \<le> r * int (Suc k) + int (Suc k) \<and> c < n"
    by (auto simp: kary_children_def simp del: of_nat_Suc)
  also have "\<dots> \<longleftrightarrow> 0 < c \<and> c < n \<and> (c - 1) div int (Suc k) = r"
    using kary_div [of "int (Suc k)" c r] nn by (auto simp del: of_nat_Suc)
  finally show "c \<in> set (kary_children (int (Suc k)) n r)
      \<longleftrightarrow> 0 < c \<and> c < n \<and> kary_parent (int (Suc k)) c = Some r"
    by (auto simp: kary_parent_def)
qed (auto simp: kary_parent_def kary_children_def)

text \<open>Whatever two processes of the same run compute, they agree: each knows the other as its
  child exactly when that one knows it as its parent, and parents have smaller ranks.\<close>

lemma TreeState_new_inv:
  assumes "TreeState_new malloc_ok r n width = Inr t" "0 \<le> r" "r < n" "1 \<le> width"
  shows "getParentRank t = kary_parent width r" "child_list t = kary_children width n r"
proof -
  obtain cs where cs: "alloc_children malloc_ok width = Inr cs"
    using assms(1) unfolding TreeState_new_def by (cases "alloc_children malloc_ok width") auto
  have mal: "malloc_ok (nat width * 4)"
    using cs assms(4) by (cases "malloc_ok (nat width * 4)") (simp_all add: alloc_children_def guard_res_def)
  have "in_int (r * width + width)"
    using assms(1) unfolding TreeState_new_def by (auto simp: ck_int_eq_Inr elim!: bind_res_InrE)
  then have "r * width + width \<le> INT_MAX" by (simp add: in_int_def)
  from TreeState_new_ok [where malloc_ok = malloc_ok, OF assms(2-4) this mal]
  show "getParentRank t = kary_parent width r" "child_list t = kary_children width n r"
    using assms(1) by (auto simp: getParentRank_def)
qed

lemma trees_agree:
  assumes "TreeState_new malloc_a a n width = Inr t" "TreeState_new malloc_b b n width = Inr u"
    "0 \<le> a" "a < n" "0 \<le> b" "b < n" "1 \<le> width"
  shows "b \<in> set (child_list t) \<longleftrightarrow> getParentRank u = Some a"
    "getParentRank u = None \<longleftrightarrow> b = 0" "getParentRank u = Some p \<Longrightarrow> 0 \<le> p \<and> p < b"
proof -
  obtain k where k: "width = int (Suc k)" using assms(7) by (intro that [of "nat (width - 1)"]) simp
  note t = TreeState_new_inv [OF assms(1,3,4,7)] and u = TreeState_new_inv [OF assms(2,5,6,7)]
  show "b \<in> set (child_list t) \<longleftrightarrow> getParentRank u = Some a"
    unfolding t u k kary.child_iff [OF assms(3,4)]
    using assms(5,6) by (auto simp: kary_parent_def)
  show "getParentRank u = None \<longleftrightarrow> b = 0" unfolding u using assms(5) by (auto simp: kary_parent_def)
  show "getParentRank u = Some p \<Longrightarrow> 0 \<le> p \<and> p < b"
    unfolding u k using kary.par_range [OF assms(5,6)] by blast
qed

end
