(* ===== verification/Circle_State.thy ===== *)
theory Circle_State
  imports Circle_Object Circle_Mpi Circle_Tree
begin

text \<open>
  The state of one process in the work loop: the message tags and codes and the class
  \<open>State\<close> of \<open>include/token.hpp\<close>, its constructor and the choice of the next rank to ask
  for work, of \<open>src/state.cpp\<close>.
\<close>

section \<open>Tags and codes\<close>

definition WHITE :: int where [simp, code_unfold]: "WHITE = 0"
definition BLACK :: int where [simp, code_unfold]: "BLACK = 1"
definition TERMINATE :: int where [simp, code_unfold]: "TERMINATE = -1"
definition TAG_WORK_REQUEST :: int where [code_unfold]: "TAG_WORK_REQUEST = 0"
definition TAG_WORK_REPLY :: int where [code_unfold]: "TAG_WORK_REPLY = 1"
definition TAG_WORK_RECEIPT :: int where [code_unfold]: "TAG_WORK_RECEIPT = 2"
definition TAG_TOKEN :: int where [code_unfold]: "TAG_TOKEN = 3"
definition TAG_REDUCE :: int where [code_unfold]: "TAG_REDUCE = 4"
definition TAG_BARRIER :: int where [code_unfold]: "TAG_BARRIER = 5"
definition TAG_TERM :: int where [code_unfold]: "TAG_TERM = 6"
definition TAG_ABORT_REQUEST :: int where [code_unfold]: "TAG_ABORT_REQUEST = 7"
definition TAG_ABORT_REPLY :: int where [code_unfold]: "TAG_ABORT_REPLY = 8"
definition TAG_ABORT_REDUCE :: int where [code_unfold]: "TAG_ABORT_REDUCE = 9"
definition MSG_VALID :: int where [simp, code_unfold]: "MSG_VALID = 10"
definition MSG_INVALID :: int where [simp, code_unfold]: "MSG_INVALID = 11"
definition PAYLOAD_ABORT :: int where [simp, code_unfold]: "PAYLOAD_ABORT = -32"

definition message_tags :: "int list" where
  "message_tags = [TAG_WORK_REQUEST, TAG_WORK_REPLY, TAG_WORK_RECEIPT, TAG_TOKEN, TAG_REDUCE,
     TAG_BARRIER, TAG_TERM, TAG_ABORT_REQUEST, TAG_ABORT_REPLY, TAG_ABORT_REDUCE]"

lemmas tag_values = TAG_WORK_REQUEST_def TAG_WORK_REPLY_def TAG_WORK_RECEIPT_def TAG_TOKEN_def
  TAG_REDUCE_def TAG_BARRIER_def TAG_TERM_def TAG_ABORT_REQUEST_def
  TAG_ABORT_REPLY_def TAG_ABORT_REDUCE_def

lemma message_tags_distinct: "distinct message_tags"
  by (simp add: message_tags_def tag_values)

lemma tag_neq [simp]:
  "TAG_WORK_REQUEST \<noteq> TAG_WORK_REPLY" "TAG_WORK_REQUEST \<noteq> TAG_WORK_RECEIPT" "TAG_WORK_REQUEST \<noteq> TAG_TOKEN"
  "TAG_WORK_REQUEST \<noteq> TAG_REDUCE" "TAG_WORK_REQUEST \<noteq> TAG_BARRIER" "TAG_WORK_REQUEST \<noteq> TAG_TERM"
  "TAG_WORK_REQUEST \<noteq> TAG_ABORT_REQUEST" "TAG_WORK_REQUEST \<noteq> TAG_ABORT_REPLY" "TAG_WORK_REQUEST \<noteq> TAG_ABORT_REDUCE"
  "TAG_WORK_REPLY \<noteq> TAG_WORK_RECEIPT" "TAG_WORK_REPLY \<noteq> TAG_TOKEN" "TAG_WORK_REPLY \<noteq> TAG_REDUCE"
  "TAG_WORK_REPLY \<noteq> TAG_BARRIER" "TAG_WORK_REPLY \<noteq> TAG_TERM" "TAG_WORK_REPLY \<noteq> TAG_ABORT_REQUEST"
  "TAG_WORK_REPLY \<noteq> TAG_ABORT_REPLY" "TAG_WORK_REPLY \<noteq> TAG_ABORT_REDUCE"
  "TAG_WORK_RECEIPT \<noteq> TAG_TOKEN" "TAG_WORK_RECEIPT \<noteq> TAG_REDUCE" "TAG_WORK_RECEIPT \<noteq> TAG_BARRIER"
  "TAG_WORK_RECEIPT \<noteq> TAG_TERM" "TAG_WORK_RECEIPT \<noteq> TAG_ABORT_REQUEST" "TAG_WORK_RECEIPT \<noteq> TAG_ABORT_REPLY"
  "TAG_WORK_RECEIPT \<noteq> TAG_ABORT_REDUCE"
  "TAG_TOKEN \<noteq> TAG_REDUCE" "TAG_TOKEN \<noteq> TAG_BARRIER" "TAG_TOKEN \<noteq> TAG_TERM"
  "TAG_TOKEN \<noteq> TAG_ABORT_REQUEST" "TAG_TOKEN \<noteq> TAG_ABORT_REPLY" "TAG_TOKEN \<noteq> TAG_ABORT_REDUCE"
  "TAG_REDUCE \<noteq> TAG_BARRIER" "TAG_REDUCE \<noteq> TAG_TERM" "TAG_REDUCE \<noteq> TAG_ABORT_REQUEST"
  "TAG_REDUCE \<noteq> TAG_ABORT_REPLY" "TAG_REDUCE \<noteq> TAG_ABORT_REDUCE"
  "TAG_BARRIER \<noteq> TAG_TERM" "TAG_BARRIER \<noteq> TAG_ABORT_REQUEST" "TAG_BARRIER \<noteq> TAG_ABORT_REPLY"
  "TAG_BARRIER \<noteq> TAG_ABORT_REDUCE"
  "TAG_TERM \<noteq> TAG_ABORT_REQUEST" "TAG_TERM \<noteq> TAG_ABORT_REPLY" "TAG_TERM \<noteq> TAG_ABORT_REDUCE"
  "TAG_ABORT_REQUEST \<noteq> TAG_ABORT_REPLY" "TAG_ABORT_REQUEST \<noteq> TAG_ABORT_REDUCE"
  "TAG_ABORT_REPLY \<noteq> TAG_ABORT_REDUCE"
  by (simp_all add: tag_values)

lemmas tag_neq_sym [simp] = tag_neq [THEN not_sym]

section \<open>The state\<close>

text \<open>
  The queue and the reduction buffer are shared with the object, so the object is a
  field.  Flags that are only ever 0 or 1 are Booleans.  The offset buffers are scratch
  memory: only their length \<open>offsets_count\<close> is state; likewise \<open>requestors\<close>, an array of
  \<open>nprocs\<close> entries.
\<close>

record 'u state =
  circ :: "'u circle"
  rank :: int
  nprocs :: int
  ABORT_FLAG :: int
  token_is_local :: bool
  token_proc :: int
  token_buf :: int
  token_src :: int
  token_dest :: int
  token_send_req :: "nat option"
  offsets_count :: int
  seed :: nat
  next_processor :: "int option"
  work_requested :: bool
  work_requested_rank :: int
  tree :: tree_state
  reduce_enabled :: bool
  reduce_time_last :: real
  reduce_time_interval :: real
  reduce_outstanding :: bool
  reduce_replies :: int
  local_reduce_buf :: "int \<times> int \<times> int"
  barrier_started :: bool
  barrier_up :: bool
  barrier_replies :: int
  term_tree_enabled :: bool
  work_outstanding :: int
  term_flag :: int
  term_up :: bool
  term_replies :: int
  abort_state :: int
  abort_outstanding :: bool
  abort_req :: "MPI_Request list"
  local_objects_processed :: int
  local_work_requested :: nat
  local_no_work_received :: nat

abbreviation qp :: "'u state \<Rightarrow> queue" where
  "qp s \<equiv> queue (circ s)"

definition set_queue :: "queue \<Rightarrow> 'u state \<Rightarrow> 'u state" where
  "set_queue q s = s\<lparr>circ := (circ s)\<lparr>queue := q\<rparr>\<rparr>"

section \<open>Choosing whom to ask\<close>

text \<open>\<open>do next = rand_r(&seed) % size; while (next == rank)\<close>: the loop ends when the
  generator gives another rank; \<open>None\<close> is that it never does.\<close>

partial_function (option) pick_other :: "(nat \<Rightarrow> int \<times> nat) \<Rightarrow> int \<Rightarrow> int \<Rightarrow> nat \<Rightarrow> (int \<times> nat) option" where
  "pick_other rand r n sd =
     (let x = rand sd; p = fst x smod n in
      if p = r then pick_other rand r n (snd x) else Some (p, snd x))"

declare pick_other.simps [code]

definition getNextProc :: "env \<Rightarrow> 'u state \<Rightarrow> 'u state res" where
  "getNextProc E s =
     (if nprocs s > 1 then
        bind_res (opt_res Diverges (pick_other (rand_r E) (rank s) (nprocs s) (seed s)))
          (\<lambda>(p, sd). Inr (s\<lparr>next_processor := Some p, seed := sd\<rparr>))
      else Inr (s\<lparr>next_processor := None\<rparr>))"

section \<open>The constructor\<close>

text \<open>
  \<open>now\<close> is what \<open>MPI_Wtime\<close> returns; \<open>junk\<close> stands for the fields the constructor does
  not set before they are written (\<open>reduce_replies\<close>, \<open>local_reduce_buf\<close>,
  \<open>work_requested_rank\<close>).  Its own allocations are taken to succeed, as the code does
  not test them.
\<close>

definition State_new :: "env \<Rightarrow> int \<Rightarrow> int \<Rightarrow> real \<Rightarrow> int \<Rightarrow> 'u circle \<Rightarrow> 'u state res" where
  "State_new E r n now junk c =
     bind_res (getNextProc E
       \<lparr>circ = c, rank = r, nprocs = n, ABORT_FLAG = 0,
        token_is_local = (r = 0),
        token_proc = WHITE, token_buf = BLACK,
        token_src = (r - 1 + n) smod n, token_dest = (r + 1 + n) smod n,
        token_send_req = None,
        offsets_count = to_int32 (length (strings (queue c))),
        seed = to_u32 (nat r), next_processor = None,
        work_requested = False, work_requested_rank = junk,
        tree = \<lparr>ts_rank = r, ts_nranks = n, parentRank = None, nchildren = 0, childrenRanks = [], maxChildren = 0\<rparr>,
        reduce_enabled = False, reduce_time_last = now,
        reduce_time_interval = real_of_int (getReducePeriod c),
        reduce_outstanding = False, reduce_replies = junk, local_reduce_buf = (junk, junk, junk),
        barrier_started = False, barrier_up = False, barrier_replies = 0,
        term_tree_enabled = has_flag (getRuntimeFlags c) TermTree,
        work_outstanding = 0, term_flag = 1, term_up = False, term_replies = 0,
        abort_state = 0, abort_outstanding = False, abort_req = [],
        local_objects_processed = 0, local_work_requested = 0, local_no_work_received = 0\<rparr>) (\<lambda>s.
     bind_res (TreeState_new (malloc_ok E) r n (getTreeWidth c)) (\<lambda>t.
       Inr (s\<lparr>tree := t, reduce_enabled := (getReducePeriod c > 0)\<rparr>)))"

section \<open>Facts\<close>

lemma pick_other_range:
  assumes ret: "pick_other rand r n sd = Some x"
  shows "(\<forall>sd. 0 \<le> fst (rand sd)) \<longrightarrow> 0 < n \<longrightarrow> fst x \<noteq> r \<and> 0 \<le> fst x \<and> fst x < n"
proof (rule pick_other.raw_induct
    [where P = "\<lambda>rand r n sd x. (\<forall>sd. 0 \<le> fst (rand sd)) \<longrightarrow> 0 < n \<longrightarrow> fst x \<noteq> r \<and> 0 \<le> fst x \<and> fst x < n",
     OF _ ret])
  fix f and rand :: "nat \<Rightarrow> int \<times> nat" and r n sd x
  assume IH: "\<And>rand r n sd x. f rand r n sd = Some x \<Longrightarrow>
      (\<forall>sd. 0 \<le> fst (rand sd)) \<longrightarrow> 0 < n \<longrightarrow> fst x \<noteq> r \<and> 0 \<le> fst x \<and> fst x < n"
    and eq: "(let x = rand sd; p = fst x smod n in if p = r then f rand r n (snd x) else Some (p, snd x)) = Some x"
  show "(\<forall>sd. 0 \<le> fst (rand sd)) \<longrightarrow> 0 < n \<longrightarrow> fst x \<noteq> r \<and> 0 \<le> fst x \<and> fst x < n"
  proof (cases "fst (rand sd) smod n = r")
    case True
    with eq have "f rand r n (snd (rand sd)) = Some x" by (simp add: Let_def)
    then show ?thesis by (rule IH)
  next
    case False
    with eq have "x = (fst (rand sd) smod n, snd (rand sd))" by (simp add: Let_def)
    with False show ?thesis using smod_nonneg [of "fst (rand sd)" n] by auto
  qed
qed

lemma pick_other_sound:
  assumes "pick_other rand r n sd = Some (p, sd')" "\<And>sd. 0 \<le> fst (rand sd)" "0 < n"
  shows "p \<noteq> r \<and> 0 \<le> p \<and> p < n"
  using pick_other_range [OF assms(1)] assms(2,3) by simp

text \<open>The loop ends when the generator, iterated from the seed, gives another rank.\<close>

definition seed_after :: "(nat \<Rightarrow> int \<times> nat) \<Rightarrow> nat \<Rightarrow> nat \<Rightarrow> nat" where
  "seed_after rand m sd = ((\<lambda>sd. snd (rand sd)) ^^ m) sd"

lemma pick_other_returns:
  "fst (rand (seed_after rand m sd)) smod n \<noteq> r \<Longrightarrow> \<exists>x. pick_other rand r n sd = Some x"
proof (induction m arbitrary: sd)
  case 0
  then show ?case by (simp add: pick_other.simps [of rand r n sd] seed_after_def Let_def)
next
  case (Suc m)
  show ?case
  proof (cases "fst (rand sd) smod n = r")
    case True
    have "seed_after rand (Suc m) sd = seed_after rand m (snd (rand sd))"
      by (simp add: seed_after_def funpow_Suc_right del: funpow.simps)
    with Suc True show ?thesis by (simp add: pick_other.simps [of rand r n sd] Let_def)
  next
    case False
    then show ?thesis by (simp add: pick_other.simps [of rand r n sd] Let_def)
  qed
qed

lemma getNextProc_frame:
  assumes "getNextProc E s = Inr s'"
  shows "\<exists>p sd. s' = s\<lparr>next_processor := p, seed := sd\<rparr>"
proof (cases "nprocs s > 1")
  case True
  with assms show ?thesis by (auto simp: getNextProc_def elim!: bind_res_InrE)
next
  case False
  with assms have "s' = s\<lparr>next_processor := None\<rparr>" by (simp add: getNextProc_def)
  then have "s' = s\<lparr>next_processor := None, seed := seed s\<rparr>" by simp
  then show ?thesis by blast
qed

lemma set_queue_simps [simp, frame_simps]:
  "qp (set_queue q s) = q" "rank (set_queue q s) = rank s" "nprocs (set_queue q s) = nprocs s"
  "ABORT_FLAG (set_queue q s) = ABORT_FLAG s"
  "token_is_local (set_queue q s) = token_is_local s" "token_proc (set_queue q s) = token_proc s"
  "token_buf (set_queue q s) = token_buf s" "token_src (set_queue q s) = token_src s"
  "token_dest (set_queue q s) = token_dest s" "token_send_req (set_queue q s) = token_send_req s"
  "offsets_count (set_queue q s) = offsets_count s" "tree (set_queue q s) = tree s"
  "work_outstanding (set_queue q s) = work_outstanding s" "work_requested (set_queue q s) = work_requested s"
  "work_requested_rank (set_queue q s) = work_requested_rank s" "seed (set_queue q s) = seed s"
  "next_processor (set_queue q s) = next_processor s"
  by (simp_all add: set_queue_def)

text \<open>The loop ends exactly when the generator ever gives another rank.\<close>

lemma pick_other_all_same:
  assumes "\<And>m. fst (rand (seed_after rand m sd)) smod n = r"
  shows "pick_other rand r n sd = None"
proof (rule ccontr)
  assume "pick_other rand r n sd \<noteq> None"
  then obtain x where "pick_other rand r n sd = Some x" by auto
  moreover have "\<exists>m. fst (rand (seed_after rand m sd)) smod n \<noteq> r" if "pick_other rand r n sd = Some x" for rand r n sd x
  proof (rule pick_other.raw_induct [where P = "\<lambda>rand r n sd x. \<exists>m. fst (rand (seed_after rand m sd)) smod n \<noteq> r", OF _ that])
    fix f and rand :: "nat \<Rightarrow> int \<times> nat" and r n sd x
    assume IH: "\<And>rand r n sd x. f rand r n sd = Some x \<Longrightarrow> \<exists>m. fst (rand (seed_after rand m sd)) smod n \<noteq> r"
      and eq: "(let x = rand sd; p = fst x smod n in if p = r then f rand r n (snd x) else Some (p, snd x)) = Some x"
    show "\<exists>m. fst (rand (seed_after rand m sd)) smod n \<noteq> r"
    proof (cases "fst (rand sd) smod n = r")
      case True
      with eq have "f rand r n (snd (rand sd)) = Some x" by (simp add: Let_def)
      from IH [OF this] obtain m where "fst (rand (seed_after rand m (snd (rand sd)))) smod n \<noteq> r" by blast
      then have "fst (rand (seed_after rand (Suc m) sd)) smod n \<noteq> r"
        by (simp add: seed_after_def funpow_Suc_right del: funpow.simps)
      then show ?thesis by blast
    next
      case False
      then have "fst (rand (seed_after rand 0 sd)) smod n \<noteq> r" by (simp add: seed_after_def)
      then show ?thesis by blast
    qed
  qed
  ultimately show False using assms by blast
qed

lemma pick_other_ends:
  "pick_other rand r n sd \<noteq> None \<longleftrightarrow> (\<exists>m. fst (rand (seed_after rand m sd)) smod n \<noteq> r)"
proof
  show "pick_other rand r n sd \<noteq> None \<Longrightarrow> \<exists>m. fst (rand (seed_after rand m sd)) smod n \<noteq> r"
    by (metis pick_other_all_same)
  show "\<exists>m. fst (rand (seed_after rand m sd)) smod n \<noteq> r \<Longrightarrow> pick_other rand r n sd \<noteq> None"
    using pick_other_returns by fastforce
qed

lemma getNextProc_range:
  assumes "getNextProc E s = Inr s'" "\<And>sd. 0 \<le> fst (rand_r E sd)"
  shows "if nprocs s > 1 then \<exists>p. next_processor s' = Some p \<and> p \<noteq> rank s \<and> 0 \<le> p \<and> p < nprocs s
    else next_processor s' = None"
proof (cases "nprocs s > 1")
  case True
  with assms(1) obtain p sd where pk: "pick_other (rand_r E) (rank s) (nprocs s) (seed s) = Some (p, sd)"
    and s': "s' = s\<lparr>next_processor := Some p, seed := sd\<rparr>"
    by (auto simp: getNextProc_def elim!: bind_res_InrE)
  from pick_other_sound [OF pk assms(2)] True s' show ?thesis by simp
next
  case False
  with assms(1) show ?thesis by (auto simp: getNextProc_def)
qed

end
