(* ===== verification/Circle_Work.thy ===== *)
theory Circle_Work
  imports Circle_State
begin

text \<open>
  Distribution of work between processes, of \<open>src/state.cpp\<close>: serving requests
  (\<open>workreqCheck\<close>, \<open>sendNoWork\<close>, \<open>sendWork\<close>, \<open>sendWorkToMany\<close>, \<open>spread_counts\<close>),
  asking for work (\<open>requestWork\<close>, \<open>workReceive\<close>), receipts (\<open>workreceiptCheck\<close>) and the
  offset buffers (\<open>extendOffsets\<close>).
\<close>

section \<open>Offset buffers\<close>

function offsets_loop :: "int \<Rightarrow> int \<Rightarrow> int res" where
  "offsets_loop count need =
     (if count < need then bind_res (ck_int (count + 4096)) (\<lambda>count. offsets_loop count need)
      else Inr count)"
  by pat_completeness auto
termination
  by (relation "measure (\<lambda>(count, need). nat (need - count))") (auto simp: ck_int_eq_Inr)

declare offsets_loop.simps [simp del]

definition extendOffsets :: "env \<Rightarrow> int \<Rightarrow> 'u state \<Rightarrow> (int \<times> 'u state) res" where
  "extendOffsets E need s =
     (let count = offsets_count s in
      if need \<le> count then Inr (0, s)
      else bind_res (offsets_loop count need)
        (\<lambda>count.
          let s = s\<lparr>offsets_count := count\<rparr> in
          if \<not> malloc_ok E (nat count * 4) then Inr (-1, s) else Inr (0, s)))"

section \<open>Splitting a count\<close>

text \<open>\<open>while (i < n) sizes[i++] = v\<close>\<close>

function set_range :: "nat \<Rightarrow> nat \<Rightarrow> int \<Rightarrow> int list \<Rightarrow> int list" where
  "set_range i n v sizes = (if i < n then set_range (i + 1) n v (sizes[i := v]) else sizes)"
  by pat_completeness auto
termination
  by (relation "measure (\<lambda>(i, n, v, sizes). n - i)") auto

declare set_range.simps [simp del]

definition spread_counts :: "int list \<Rightarrow> int \<Rightarrow> int \<Rightarrow> int list" where
  "spread_counts sizes ranks count =
     (let base = count sdiv ranks;
          extra = count - base * ranks;
          sizes = set_range 0 (nat extra) (base + 1) sizes
      in set_range (nat extra) (nat ranks) base sizes)"

section \<open>Serving requests\<close>

definition sendNoWork :: "'w mpi \<Rightarrow> int \<Rightarrow> 'u state \<Rightarrow> 'w \<Rightarrow> 'w res" where
  "sendNoWork M dest s w =
     (let no_work = (if ABORT_FLAG s \<noteq> 0 then PAYLOAD_ABORT else 0) in
      case MPI_Isend M (rank s) dest TAG_WORK_REPLY (Ints [no_work]) w of
        (r, w) \<Rightarrow> opt_res Blocks (MPI_Wait M (rank s) r w))"

definition sendWork :: "env \<Rightarrow> 'w mpi \<Rightarrow> int \<Rightarrow> int \<Rightarrow> 'u state \<Rightarrow> 'w \<Rightarrow> (int \<times> 'u state \<times> 'w) res" where
  "sendWork E M dest count s w =
     (if count \<le> 0 then bind_res (sendNoWork M dest s w) (\<lambda>w. Inr (0, s, w))
      else
        let s = (if dest < rank s \<or> dest = token_src s then s\<lparr>token_proc := BLACK\<rparr> else s);
            q = qp s in
        guard_res (nat count \<le> qcount q \<and> qcount q \<le> length (strings q)) Undefined
        (let start_elem = qcount q - nat count;
             start_offset = strings q ! start_elem in
        guard_res (start_offset \<le> head q \<and> head q \<le> length (base q)) Undefined
        (let len = head q - start_offset;
             bytes = to_int32 len in
        bind_res (ck_int (2 + count)) (\<lambda>numoffsets.
        bind_res (extendOffsets E numoffsets s) (\<lambda>(rc, s).
          if rc < 0 then Inr (-1, s, w)
          else
            let offsets = count # bytes #
              map (\<lambda>i. to_int32 (strings q ! i - start_offset)) [start_elem..<start_elem + nat count] in
            bind_res (send M (rank s) dest TAG_WORK_REPLY (Ints offsets) w) (\<lambda>w.
            guard_res (0 \<le> bytes) Mpi_error
            (bind_res (send M (rank s) dest TAG_WORK_REPLY
                (Chars (take (nat bytes) (drop start_offset (base q)))) w) (\<lambda>w.
              Inr (0, (set_queue (q\<lparr>qcount := qcount q - nat count, head := start_offset\<rparr>) s)
                        \<lparr>work_outstanding := work_outstanding s + 1\<rparr>, w)))))))))"

fun send_works :: "env \<Rightarrow> 'w mpi \<Rightarrow> (int \<times> int) list \<Rightarrow> 'u state \<Rightarrow> 'w \<Rightarrow> ('u state \<times> 'w) res" where
  "send_works E M [] s w = Inr (s, w)"
| "send_works E M ((dest, count) # ds) s w =
     bind_res (sendWork E M dest count s w) (\<lambda>(rc, s, w). send_works E M ds s w)"

text \<open>How many items each requestor gets, after the number the process keeps, with the
  seed after the draw.\<close>

definition split_sizes :: "env \<Rightarrow> int \<Rightarrow> 'u state \<Rightarrow> (int list \<times> nat) res" where
  "split_sizes E rcount s =
     (if has_flag (getRuntimeFlags (circ s)) SplitEqual then
        Inr (spread_counts (replicate (nat (rcount + 1)) 0) (rcount + 1) (int (qcount (qp s))), seed s)
      else guard_res (qcount (qp s) \<noteq> 0) Undefined
        (let (x, sd) = rand_r E (seed s);
             n = int (qcount (qp s));
             send_count = x smod n + 1;
             send_count = (if send_count = n then send_count - 1 else send_count)
         in Inr ((n - send_count) # spread_counts (replicate (nat rcount) 0) rcount send_count, sd)))"

definition sendWorkToMany ::
  "env \<Rightarrow> 'w mpi \<Rightarrow> int list \<Rightarrow> 'u state \<Rightarrow> 'w \<Rightarrow> ('u state \<times> 'w) res" where
  "sendWorkToMany E M requestors s w =
     (let rcount = int (length requestors) in
      if rcount \<le> 0 then Inl (Exit_process 1)
      else guard_res (malloc_ok E (nat (rcount + 1) * 4)) (Mpi_Abort CIRCLE_MPI_ERROR)
        (bind_res (split_sizes E rcount s) (\<lambda>(sizes, sd).
          send_works E M (zip requestors (tl sizes)) (s\<lparr>seed := sd\<rparr>) w)))"

text \<open>The ranks that ask for work, in the array \<open>requestors\<close> of \<open>n\<close> entries.\<close>

function collect_requests :: "'w mpi \<Rightarrow> int \<Rightarrow> int \<Rightarrow> int list \<Rightarrow> 'w \<Rightarrow> (int list \<times> 'w) res" where
  "collect_requests M me n requestors w =
     (case MPI_Iprobe M me None TAG_WORK_REQUEST w of
       (None, w) \<Rightarrow> Inr (requestors, w)
     | (Some st, w) \<Rightarrow>
         bind_res (recv M me (MPI_SOURCE st) TAG_WORK_REQUEST w) (\<lambda>(_, w).
           if length requestors < nat n
           then collect_requests M me n (requestors @ [MPI_SOURCE st]) w
           else Inl Undefined))"
  by pat_completeness auto
termination
  by (relation "measure (\<lambda>(M, me, n, requestors, w). nat n - length requestors)") auto

declare collect_requests.simps [simp del]

fun send_no_works :: "'w mpi \<Rightarrow> int list \<Rightarrow> 'u state \<Rightarrow> 'w \<Rightarrow> 'w res" where
  "send_no_works M [] s w = Inr w"
| "send_no_works M (d # ds) s w = bind_res (sendNoWork M d s w) (\<lambda>w. send_no_works M ds s w)"

definition workreqCheck ::
  "env \<Rightarrow> 'w mpi \<Rightarrow> bool \<Rightarrow> 'u state \<Rightarrow> 'w \<Rightarrow> ('u state \<times> 'w) res" where
  "workreqCheck E M cleanup s w =
     bind_res (collect_requests M (rank s) (nprocs s) [] w) (\<lambda>(requestors, w).
       if requestors = [] then Inr (s, w)
       else if qcount (qp s) = 0 \<or> cleanup \<or> ABORT_FLAG s \<noteq> 0 then
         bind_res (send_no_works M requestors s w) (\<lambda>w. Inr (s, w))
       else sendWorkToMany E M requestors s w)"

function workreceiptCheck :: "'w mpi \<Rightarrow> 'u state \<Rightarrow> 'w \<Rightarrow> ('u state \<times> 'w) res" where
  "workreceiptCheck M s w =
     (if work_outstanding s > 0 then
        (case MPI_Iprobe M (rank s) None TAG_WORK_RECEIPT w of
          (None, w) \<Rightarrow> Inr (s, w)
        | (Some st, w) \<Rightarrow>
            bind_res (recv M (rank s) (MPI_SOURCE st) TAG_WORK_RECEIPT w) (\<lambda>(_, w).
              workreceiptCheck M (s\<lparr>work_outstanding := work_outstanding s - 1, term_flag := 0\<rparr>) w))
      else Inr (s, w))"
  by pat_completeness auto
termination
  by (relation "measure (\<lambda>(M, s, w). nat (work_outstanding s))") auto

declare workreceiptCheck.simps [simp del]

section \<open>Asking for work\<close>

text \<open>The part of \<open>workReceive\<close> that fills the queue, once the first message (\<open>buf\<close>) says
  how many items and bytes follow.\<close>

definition receive_items ::
  "env \<Rightarrow> 'w mpi \<Rightarrow> int \<Rightarrow> int list \<Rightarrow> 'u state \<Rightarrow> 'w \<Rightarrow> (int \<times> 'u state \<times> 'w) res" where
  "receive_items E M source buf s w =
     guard_res (1 < length buf \<and> 0 \<le> buf ! 1) Undefined
     (let count = nat (buf ! 0);
          chars = buf ! 1;
          new_bytes = head (qp s) + nat chars in
      bind_res (if new_bytes > length (base (qp s)) then Queue_extend (pagesize E) new_bytes (qp s)
                else Inr (0, qp s)) (\<lambda>(rc, q).
      if rc < 0 then Inl (Mpi_Abort CIRCLE_MPI_ERROR)
      else
      bind_res (recv M (rank s) source TAG_WORK_REPLY w) (\<lambda>(p, w).
      bind_res (as_chars p) (\<lambda>data.
      guard_res (int (length data) \<le> chars) Mpi_error
      (case (let q = q\<lparr>base := memcpy (base q) 0 data\<rparr> in
             if count > length (strings q) then extendStr count q else (0, q)) of (rc, q) \<Rightarrow>
       if rc < 0 then Inl (Mpi_Abort CIRCLE_MPI_ERROR)
       else guard_res (count + 2 \<le> length buf) Undefined
       (let q = q\<lparr>strings := map to_size (take count (drop 2 buf)) @ drop count (strings q)\<rparr> in
        if strings q ! 0 \<noteq> 0 then Inl (Mpi_Abort CIRCLE_MPI_ERROR)
        else
          let q = q\<lparr>qcount := count, head := head q + nat chars\<rparr> in
          bind_res (send M (rank s) source TAG_WORK_RECEIPT Empty w) (\<lambda>w.
            Inr (0, set_queue q s, w))))))))"

definition workReceive ::
  "env \<Rightarrow> 'w mpi \<Rightarrow> int \<Rightarrow> int \<Rightarrow> 'u state \<Rightarrow> 'w \<Rightarrow> (int \<times> 'u state \<times> 'w) res" where
  "workReceive E M source need s w =
     (if need \<le> 0 then Inl (Mpi_Abort CIRCLE_MPI_ERROR)
      else bind_res (extendOffsets E need s) (\<lambda>(rc, s).
        if rc < 0 then Inl (Mpi_Abort CIRCLE_MPI_ERROR)
        else bind_res (recv M (rank s) source TAG_WORK_REPLY w) (\<lambda>(p, w).
          bind_res (as_ints p) (\<lambda>buf.
          guard_res (int (length buf) \<le> need) Mpi_error
          (guard_res (buf \<noteq> []) Undefined
          (let items = buf ! 0 in
           if items = 0 then
             Inr (0, s\<lparr>local_no_work_received := to_u32 (local_no_work_received s + 1)\<rparr>, w)
           else if items = PAYLOAD_ABORT then Inr (PAYLOAD_ABORT, s\<lparr>ABORT_FLAG := 1\<rparr>, w)
           else if items < 0 then Inr (-1, s, w)
           else receive_items E M source buf s w))))))"

definition requestWork ::
  "env \<Rightarrow> 'w mpi \<Rightarrow> bool \<Rightarrow> 'u state \<Rightarrow> 'w \<Rightarrow> (int \<times> 'u state \<times> 'w) res" where
  "requestWork E M cleanup s w =
     (if work_requested s then
        (let source = work_requested_rank s in
         case MPI_Iprobe M (rank s) (Some source) TAG_WORK_REPLY w of
           (None, w) \<Rightarrow> Inr (0, s, w)
         | (Some st, w) \<Rightarrow>
             bind_res (workReceive E M source (msg_ints st) s w) (\<lambda>(rc, s, w).
               Inr (rc, s\<lparr>work_requested := False\<rparr>, w)))
      else if \<not> cleanup \<and> ABORT_FLAG s = 0 then
        (case next_processor s of
           None \<Rightarrow> Inr (0, s, w)
         | Some source \<Rightarrow>
             (let s = s\<lparr>local_work_requested := to_u32 (local_work_requested s + 1)\<rparr> in
              bind_res (send M (rank s) source TAG_WORK_REQUEST Empty w) (\<lambda>w.
              bind_res (getNextProc E (s\<lparr>work_requested := True, work_requested_rank := source\<rparr>)) (\<lambda>s.
                Inr (0, s, w)))))
      else Inr (0, s, w))"

end
