(* ===== verification/Circle_Exchange.thy ===== *)
theory Circle_Exchange
  imports Circle_Work
begin

text \<open>
  Facts about work distribution: how a count is spread, what a work reply looks like on
  the wire, what \<open>sendWork\<close> takes off the queue and \<open>workReceive\<close> puts on it, and
  receipts.  The facts on messages hold for every MPI with the laws of \<open>mpi_laws\<close>.
\<close>

section \<open>Offset buffers\<close>

lemma offsets_loop_ok:
  assumes "- INT_MAX - 1 \<le> c" "need \<le> INT_MAX - 4096"
  shows "\<exists>c'. offsets_loop c need = Inr c' \<and> need \<le> c' \<and> c \<le> c'"
  using assms
proof (induction c need rule: offsets_loop.induct)
  case (1 c need)
  show ?case
  proof (cases "c < need")
    case True
    then have ck: "ck_int (c + 4096) = Inr (c + 4096)"
      using 1(2,3) by (auto simp: ck_int_def in_int_def)
    with True 1 obtain c' where "offsets_loop (c + 4096) need = Inr c'" "need \<le> c'" "c + 4096 \<le> c'"
      by (auto simp: INT_MAX_def)
    with True ck show ?thesis by (auto simp: offsets_loop.simps [of c need])
  next
    case False
    then show ?thesis by (simp add: offsets_loop.simps [of c need])
  qed
qed

lemma extendOffsets_frame:
  "extendOffsets E need s = Inr (rc, s') \<Longrightarrow> \<exists>c. s' = s\<lparr>offsets_count := c\<rparr>"
proof -
  assume "extendOffsets E need s = Inr (rc, s')"
  then have "s' = s \<or> (\<exists>c. s' = s\<lparr>offsets_count := c\<rparr>)"
    by (auto simp: extendOffsets_def Let_def elim!: bind_res_InrE split: if_splits)
  moreover have "s = s\<lparr>offsets_count := offsets_count s\<rparr>" by simp
  ultimately show ?thesis by metis
qed

lemma extendOffsets_ok:
  assumes "- INT_MAX - 1 \<le> offsets_count s" "need \<le> INT_MAX - 4096" "\<And>k. malloc_ok E k"
  shows "\<exists>c. extendOffsets E need s = Inr (0, s\<lparr>offsets_count := c\<rparr>) \<and> need \<le> c \<and> offsets_count s \<le> c"
proof (cases "need \<le> offsets_count s")
  case True
  then have "extendOffsets E need s = Inr (0, s\<lparr>offsets_count := offsets_count s\<rparr>)"
    by (simp add: extendOffsets_def)
  with True show ?thesis by blast
next
  case False
  with offsets_loop_ok [OF assms(1,2)] assms(3) show ?thesis
    by (auto simp: extendOffsets_def)
qed

section \<open>Spreading a count\<close>

lemma set_range_eq:
  "i \<le> n \<Longrightarrow> n \<le> length xs \<Longrightarrow> set_range i n v xs = take i xs @ replicate (n - i) v @ drop n xs"
proof (induction i n v xs rule: set_range.induct)
  case (1 i n v xs)
  show ?case
  proof (cases "i < n")
    case True
    then have "take (i + 1) (xs[i := v]) = take i xs @ [v]" "n - i = Suc (n - (i + 1))"
      using "1.prems" by (simp_all add: take_list_update_append)
    with True 1 show ?thesis by (simp add: set_range.simps [of i n v xs])
  next
    case False
    with "1.prems" show ?thesis by (subst set_range.simps) simp
  qed
qed

lemma spread_counts_eq:
  assumes "1 \<le> ranks" "0 \<le> k" "length sizes = nat ranks"
  shows "spread_counts sizes ranks k
    = replicate (nat (k mod ranks)) (k div ranks + 1) @ replicate (nat ranks - nat (k mod ranks)) (k div ranks)"
proof -
  have ex: "k - k div ranks * ranks = k mod ranks" by (simp add: minus_div_mult_eq_mod)
  have le: "nat (k mod ranks) \<le> nat ranks" using assms(1) pos_mod_bound [of ranks k] by linarith
  have "set_range 0 (nat (k mod ranks)) (k div ranks + 1) sizes
      = replicate (nat (k mod ranks)) (k div ranks + 1) @ drop (nat (k mod ranks)) sizes"
    using set_range_eq [of 0 "nat (k mod ranks)" sizes] le assms(3) by simp
  then show ?thesis
    using assms le ex set_range_eq [of "nat (k mod ranks)" "nat ranks"]
    by (simp add: spread_counts_def Let_def)
qed

lemma spread_counts_sum:
  assumes "1 \<le> ranks" "0 \<le> k" "length sizes = nat ranks"
  shows "sum_list (spread_counts sizes ranks k) = k"
proof -
  have le: "nat (k mod ranks) \<le> nat ranks" using assms(1) pos_mod_bound [of ranks k] by linarith
  have "sum_list (spread_counts sizes ranks k)
      = (k mod ranks) * (k div ranks + 1) + (ranks - k mod ranks) * (k div ranks)"
    using assms le by (simp add: spread_counts_eq sum_list_replicate of_nat_diff)
  also have "\<dots> = ranks * (k div ranks) + k mod ranks" by (simp add: algebra_simps)
  finally show ?thesis by simp
qed

lemma spread_counts_length:
  assumes "1 \<le> ranks" "0 \<le> k" "length sizes = nat ranks"
  shows "length (spread_counts sizes ranks k) = nat ranks"
proof -
  have "nat (k mod ranks) \<le> nat ranks" using assms(1) pos_mod_bound [of ranks k] by linarith
  then show ?thesis by (simp add: spread_counts_eq [OF assms])
qed

lemma spread_counts_elem:
  assumes "1 \<le> ranks" "0 \<le> k" "length sizes = nat ranks" "x \<in> set (spread_counts sizes ranks k)"
  shows "k div ranks \<le> x \<and> x \<le> k div ranks + 1"
  using assms(4) by (auto simp: spread_counts_eq [OF assms(1-3)] split: if_splits)

lemma spread_counts_hd:
  assumes "1 \<le> ranks" "0 < k" "length sizes = nat ranks"
  shows "1 \<le> spread_counts sizes ranks k ! 0"
proof (cases "k mod ranks = 0")
  case True
  have "0 < nat ranks" using assms(1) by simp
  have "ranks * (k div ranks) = k" using True by (metis mult_div_mod_eq add.right_neutral)
  then have "0 < k div ranks" using assms by (metis zero_less_mult_pos less_le_trans zero_less_one)
  with True \<open>0 < nat ranks\<close> show ?thesis using assms by (simp add: spread_counts_eq)
next
  case False
  have "0 < nat (k mod ranks)" using False assms(1) pos_mod_sign [of ranks k] by linarith
  moreover have "0 \<le> k div ranks" using assms by (simp add: pos_imp_zdiv_nonneg_iff)
  ultimately show ?thesis using assms by (simp add: spread_counts_eq nth_append)
qed

text \<open>The split keeps at least one item, hands out the rest, and hands out nothing negative.\<close>

lemma split_sizes_ok:
  assumes "0 < qcount (qp s)" "1 \<le> rcount" "\<And>sd. 0 \<le> fst (rand_r E sd)"
  obtains sizes sd where "split_sizes E rcount s = Inr (sizes, sd)" "length sizes = nat rcount + 1"
    "sum_list sizes = int (qcount (qp s))" "1 \<le> hd sizes" "\<forall>x \<in> set sizes. 0 \<le> x"
proof (cases "has_flag (getRuntimeFlags (circ s)) SplitEqual")
  case True
  let ?n = "int (qcount (qp s))"
  let ?sizes = "spread_counts (replicate (nat (rcount + 1)) 0) (rcount + 1) ?n"
  have len: "length ?sizes = nat rcount + 1"
    using assms spread_counts_length [of "rcount + 1" ?n "replicate (nat (rcount + 1)) 0"] by simp
  have "hd ?sizes = ?sizes ! 0" using len by (intro hd_conv_nth) auto
  moreover have "0 \<le> ?n div (rcount + 1)" using assms by (simp add: pos_imp_zdiv_nonneg_iff)
  then have "\<forall>x \<in> set ?sizes. 0 \<le> x"
    using assms spread_counts_elem [of "rcount + 1" ?n "replicate (nat (rcount + 1)) 0"] by force
  ultimately show thesis
    using True assms len spread_counts_sum [of "rcount + 1" ?n "replicate (nat (rcount + 1)) 0"]
      spread_counts_hd [of "rcount + 1" ?n "replicate (nat (rcount + 1)) 0"]
    by (intro that [of ?sizes "seed s"]) (auto simp: split_sizes_def)
next
  case False
  let ?n = "int (qcount (qp s))"
  obtain x sd where r: "rand_r E (seed s) = (x, sd)" by fastforce
  define c where "c = (if x smod ?n + 1 = ?n then x smod ?n + 1 - 1 else x smod ?n + 1)"
  have x: "0 \<le> x" using assms(3) [of "seed s"] r by simp
  have m: "x smod ?n = x mod ?n" "0 \<le> x mod ?n" "x mod ?n < ?n" using assms x by auto
  have c: "0 \<le> c" "c < ?n"
    using m(2,3) unfolding c_def m(1) by (simp_all only: split: if_split) linarith+
  let ?sp = "spread_counts (replicate (nat rcount) 0) rcount c"
  have len: "length ?sp = nat rcount"
    using assms c spread_counts_length [of rcount c "replicate (nat rcount) 0"] by simp
  have "0 \<le> c div rcount" using assms c by (simp add: pos_imp_zdiv_nonneg_iff)
  then have "\<forall>x \<in> set ?sp. 0 \<le> x"
    using assms c spread_counts_elem [of rcount c "replicate (nat rcount) 0"] by force
  moreover have "sum_list ?sp = c"
    using assms c spread_counts_sum [of rcount c "replicate (nat rcount) 0"] by simp
  moreover have "split_sizes E rcount s = Inr ((?n - c) # ?sp, sd)"
    using False assms r by (simp add: split_sizes_def c_def Let_def)
  ultimately show thesis using c len by (intro that [of "(?n - c) # ?sp" sd]) auto
qed

section \<open>A work reply on the wire\<close>

text \<open>The header (number of items, number of bytes, offset of each item) and the bytes.\<close>

definition reply_header :: "byte list list \<Rightarrow> int list" where
  "reply_header ys = int (length ys) # int (length (concat ys)) # map int (starts 0 ys)"

definition reply_msgs :: "byte list list \<Rightarrow> payload list" where
  "reply_msgs ys = [Ints (reply_header ys), Chars (concat ys)]"

definition refusal :: "'u state \<Rightarrow> payload" where
  "refusal s = Ints [if ABORT_FLAG s \<noteq> 0 then PAYLOAD_ABORT else 0]"

definition reply_to :: "'u state \<Rightarrow> int \<Rightarrow> channel" where
  "reply_to s dest = (rank s, dest, TAG_WORK_REPLY)"

definition blacken :: "int \<Rightarrow> 'u state \<Rightarrow> int" where
  "blacken dest s = (if dest < rank s \<or> dest = token_src s then BLACK else token_proc s)"

lemma map_nth_range: "a + n \<le> length xs \<Longrightarrow> map (\<lambda>i. f (xs ! i)) [a..<a + n] = map f (take n (drop a xs))"
  by (rule nth_equalityI) auto

text \<open>The offsets \<open>sendWork\<close> computes and the bytes it sends for the last items.\<close>

lemma queue_rep_last:
  assumes "queue_rep q (xs @ ys)" "ys \<noteq> []" "int (length (concat (xs @ ys))) \<le> INT_MAX"
  shows "strings q ! length xs = length (concat xs)"
    "head q - length (concat xs) = length (concat ys)" "length (concat xs) \<le> head q"
    "map (\<lambda>i. to_int32 (strings q ! i - length (concat xs))) [length xs..<length xs + length ys]
      = map int (starts 0 ys)"
    "take (length (concat ys)) (drop (length (concat xs)) (base q)) = concat ys"
    "queue_rep (q\<lparr>qcount := length xs, head := length (concat xs)\<rparr>) xs"
proof -
  have st: "take (length xs + length ys) (strings q) = starts 0 xs @ starts (length (concat xs)) ys"
    and len: "length xs + length ys \<le> length (strings q)"
    and hd: "head q = length (concat xs) + length (concat ys)" "head q \<le> length (base q)"
    and bs: "take (length (concat xs) + length (concat ys)) (base q) = concat xs @ concat ys"
    and ne: "[] \<notin> set xs"
    using assms(1) by (auto simp: queue_rep_def starts_append)
  have dr: "take (length ys) (drop (length xs) (strings q)) = starts (length (concat xs)) ys"
    using arg_cong [OF st, of "drop (length xs)"] by (simp add: drop_take)
  have tk: "take (length xs) (strings q) = starts 0 xs"
    using arg_cong [OF st, of "take (length xs)"] by simp
  have "take (length ys) (drop (length xs) (strings q)) ! 0 = length (concat xs)"
    using dr assms(2) by simp
  then show "strings q ! length xs = length (concat xs)"
    using assms(2) len by (cases ys) auto
  show "head q - length (concat xs) = length (concat ys)" "length (concat xs) \<le> head q"
    using hd by auto
  have small: "to_int32 (o' - length (concat xs)) = int (o' - length (concat xs))"
    if "o' \<in> set (starts (length (concat xs)) ys)" for o'
    using starts_bound [OF that] assms(3) by (intro to_int32_id) auto
  have "map (\<lambda>i. to_int32 (strings q ! i - length (concat xs))) [length xs..<length xs + length ys]
      = map (\<lambda>o'. to_int32 (o' - length (concat xs))) (starts (length (concat xs)) ys)"
    using map_nth_range [OF len, of "\<lambda>o'. to_int32 (o' - length (concat xs))"] dr by simp
  also have "\<dots> = map int (map (\<lambda>o'. o' - length (concat xs)) (starts (length (concat xs)) ys))"
    using small by simp
  finally show "map (\<lambda>i. to_int32 (strings q ! i - length (concat xs))) [length xs..<length xs + length ys]
      = map int (starts 0 ys)" unfolding starts_sub .
  show "take (length (concat ys)) (drop (length (concat xs)) (base q)) = concat ys"
    using arg_cong [OF bs, of "drop (length (concat xs))"] by (simp add: drop_take)
  show "queue_rep (q\<lparr>qcount := length xs, head := length (concat xs)\<rparr>) xs"
    using tk len hd ne arg_cong [OF bs, of "take (length (concat xs))"] by (simp add: queue_rep_def)
qed

section \<open>Sending work\<close>

context mpi_laws
begin

lemma sendNoWork_pend:
  assumes "sendNoWork M dest s w = Inr w'"
  shows "pend w' = (pend w)(reply_to s dest := pend w (reply_to s dest) @ [refusal s])"
proof -
  obtain h w1 where i: "MPI_Isend M (rank s) dest TAG_WORK_REPLY (refusal s) w = (h, w1)" by fastforce
  with assms have "MPI_Wait M (rank s) h w1 = Some w'"
    by (simp add: sendNoWork_def refusal_def)
  from wait_law [OF this] isend_law [OF i] show ?thesis by (simp add: reply_to_def)
qed

text \<open>The last \<open>cnt\<close> items go out; a process that asked in vain gets a refusal.\<close>

lemma sendWork_yields:
  assumes rep: "queue_rep (qp s) (xs @ ys)" and small: "int (length (concat (xs @ ys))) \<le> INT_MAX"
    and cnt: "int (length ys) + 2 \<le> INT_MAX - 4096" and oc: "0 \<le> offsets_count s" and mal: "\<And>k. malloc_ok E k"
    and ys: "ys \<noteq> []"
  shows "yields (sendWork E M dest (int (length ys)) s w) (\<lambda>(rc, s', w'). rc = 0
    \<and> (\<exists>q oc. queue_rep q xs \<and> 0 \<le> oc \<and>
        s' = (set_queue q s)\<lparr>token_proc := blacken dest s, offsets_count := oc,
              work_outstanding := work_outstanding s + 1\<rparr>)
    \<and> pend w' = (pend w)(reply_to s dest := pend w (reply_to s dest) @ reply_msgs ys))"
proof -
  let ?q = "qp s" and ?s1 = "s\<lparr>token_proc := blacken dest s\<rparr>"
  have s1: "(if dest < rank s \<or> dest = token_src s then s\<lparr>token_proc := BLACK\<rparr> else s) = ?s1"
    by (cases s) (simp add: blacken_def)
  have q1: "qp ?s1 = ?q" by simp
  have pos: "\<not> int (length ys) \<le> 0" using ys by simp
  have start: "qcount ?q - length ys = length xs" "length ys \<le> qcount ?q"
    using queue_rep_count [OF rep] by simp_all
  have room: "qcount ?q \<le> length (strings ?q)" "head ?q \<le> length (base ?q)"
    using rep by (auto simp: queue_rep_def)
  note last = queue_rep_last [OF rep ys small]
  have bytes: "to_int32 (length (concat ys)) = int (length (concat ys))"
    using small by simp
  have "- INT_MAX - 1 \<le> offsets_count ?s1" "2 + int (length ys) \<le> INT_MAX - 4096"
    using oc cnt by (simp_all add: INT_MAX_def)
  from extendOffsets_ok [OF this mal] obtain c where
    c: "extendOffsets E (2 + int (length ys)) ?s1 = Inr (0, ?s1\<lparr>offsets_count := c\<rparr>)" "0 \<le> c"
    using oc by auto
  let ?q' = "?q\<lparr>qcount := length xs, head := length (concat xs)\<rparr>" and ?s2 = "?s1\<lparr>offsets_count := c\<rparr>"
  have ck: "ck_int (2 + int (length ys)) = Inr (2 + int (length ys))"
    using cnt by (simp add: in_int_def INT_MAX_def)
  have run: "sendWork E M dest (int (length ys)) s w =
      bind_res (send M (rank s) dest TAG_WORK_REPLY (Ints (reply_header ys)) w) (\<lambda>w.
      bind_res (send M (rank s) dest TAG_WORK_REPLY (Chars (concat ys)) w) (\<lambda>w.
        Inr (0, (set_queue ?q' ?s2)\<lparr>work_outstanding := work_outstanding ?s2 + 1\<rparr>, w)))"
    unfolding sendWork_def Let_def s1 if_not_P [OF pos] q1 nat_int start(1) last(1) last(2) last(4)
    using c(1) ck start(2) room last(3,5) bytes by (simp add: reply_header_def)
  have s': "(set_queue ?q' ?s2)\<lparr>work_outstanding := work_outstanding ?s2 + 1\<rparr> =
      (set_queue ?q' s)\<lparr>token_proc := blacken dest s, offsets_count := c,
        work_outstanding := work_outstanding s + 1\<rparr>"
    by (simp add: set_queue_def)
  show ?thesis
    unfolding run s'
    by (rule yields_seq [OF send_yields], rule yields_seq [OF send_yields])
      (use last(6) c(2) in \<open>auto simp: reply_to_def reply_msgs_def\<close>)
qed

lemma sendNoWork_yields:
  "yields (sendNoWork M dest s w)
    (\<lambda>w'. pend w' = (pend w)(reply_to s dest := pend w (reply_to s dest) @ [refusal s]))"
proof (cases "sendNoWork M dest s w")
  case (Inl e)
  then show ?thesis by (auto simp: sendNoWork_def Let_def opt_res_def split: prod.splits option.splits)
next
  case (Inr w')
  then show ?thesis using sendNoWork_pend [OF Inr] by simp
qed

end

section \<open>Receiving work\<close>

lemma map_to_size_starts:
  assumes "int (length (concat ys)) \<le> INT_MAX"
  shows "map to_size (map int (starts 0 ys)) = starts 0 ys"
proof -
  have "to_size (int o') = o'" if "o' \<in> set (starts 0 ys)" for o'
    using starts_bound [OF that] assms by (intro to_size_of_nat) simp
  then show ?thesis by (simp add: map_idI)
qed

text \<open>What the arrays hold once a reply has been stored in an empty queue.\<close>

lemma store_reply:
  assumes "queue_rep q []" "[] \<notin> set ys" "int (length (concat ys)) \<le> INT_MAX"
    "length (concat ys) \<le> length (base q)" "length ys \<le> length (strings q)"
    "st = map to_size (take (length ys) (drop 2 (reply_header ys))) @ drop (length ys) (strings q)"
  shows "queue_rep (q\<lparr>base := memcpy (base q) 0 (concat ys), strings := st,
           qcount := length ys, head := head q + length (concat ys)\<rparr>) ys"
    "ys \<noteq> [] \<Longrightarrow> st ! 0 = 0"
proof -
  have st: "st = starts 0 ys @ drop (length ys) (strings q)"
    using assms(6) map_to_size_starts [OF assms(3)] by (simp add: reply_header_def)
  then show "queue_rep (q\<lparr>base := memcpy (base q) 0 (concat ys), strings := st,
           qcount := length ys, head := head q + length (concat ys)\<rparr>) ys"
    using assms(1-5) by (simp add: queue_rep_def memcpy_def)
  show "ys \<noteq> [] \<Longrightarrow> st ! 0 = 0" using st by (cases ys) auto
qed

lemma reply_header_nth [simp]:
  "reply_header ys ! 0 = int (length ys)" "reply_header ys ! Suc 0 = int (length (concat ys))"
  "length (reply_header ys) = length ys + 2"
  by (simp_all add: reply_header_def)

context mpi_laws
begin

lemma receive_items_reply:
  assumes q: "queue_rep (qp s) []" and ys: "ys \<noteq> []" "[] \<notin> set ys"
    and small: "int (length (concat ys)) \<le> INT_MAX" and pg: "0 < pagesize E"
    and p: "pend w (source, rank s, TAG_WORK_REPLY) = Chars (concat ys) # ps"
  obtains q' w1 where "queue_rep q' ys" "pend w1 = (pend w)((source, rank s, TAG_WORK_REPLY) := ps)"
    "receive_items E M source (reply_header ys) s w
      = bind_res (send M (rank s) source TAG_WORK_RECEIPT Empty w1) (\<lambda>w. Inr (0, set_queue q' s, w))"
proof -
  let ?c = "length (concat ys)" and ?n = "length ys"
  obtain q1 where q1: "queue_rep q1 []" "?c \<le> length (base q1)"
    "(if head (qp s) + ?c > length (base (qp s)) then Queue_extend (pagesize E) (head (qp s) + ?c) (qp s)
      else Inr (0, qp s)) = Inr (0, q1)"
  proof (cases "head (qp s) + ?c > length (base (qp s))")
    case True
    obtain q' where "Queue_extend (pagesize E) (head (qp s) + ?c) (qp s) = Inr (0, q')" "queue_rep q' []"
      "head (qp s) + ?c \<le> length (base q')"
      using extend_rep [OF q pg] by metis
    with True that show thesis by (metis add_leD2)
  next
    case False
    with that [of "qp s"] q show thesis by simp
  qed
  obtain w1 where w1: "recv M (rank s) source TAG_WORK_REPLY w = Inr (Chars (concat ys), w1)"
    "pend w1 = (pend w)((source, rank s, TAG_WORK_REPLY) := ps)"
    using recv_pend [OF p] by metis
  let ?q1 = "q1\<lparr>base := memcpy (base q1) 0 (concat ys)\<rparr>"
  have r1: "queue_rep ?q1 []" using q1(1) by (simp add: queue_rep_def)
  obtain q2 where q2: "queue_rep q2 []" "?n \<le> length (strings q2)" "base q2 = base ?q1"
    "(if ?n > length (strings ?q1) then extendStr ?n ?q1 else (0, ?q1)) = (0, q2)"
  proof (cases "?n > length (strings ?q1)")
    case True
    with that extendStr_rep [OF r1, of ?n] show thesis by (metis (no_types, lifting))
  next
    case False
    with that [of ?q1] r1 show thesis by simp
  qed
  let ?st = "map to_size (take ?n (drop 2 (reply_header ys))) @ drop ?n (strings q2)"
  let ?q = "q2\<lparr>strings := ?st, qcount := ?n, head := head q2 + ?c\<rparr>"
  have same: "?q = q2\<lparr>base := memcpy (base q2) 0 (concat ys), strings := ?st, qcount := ?n, head := head q2 + ?c\<rparr>"
    using q2(3) q1(2) by (cases q2) (simp add: memcpy_def)
  have lb: "?c \<le> length (base q2)" using q2(3) q1(2) by (simp add: memcpy_def)
  note stored = store_reply [OF q2(1) ys(2) small lb q2(2) refl]
  have h: "head q2 = 0" using q2(1) by (simp add: queue_rep_def)
  have "receive_items E M source (reply_header ys) s w
      = bind_res (send M (rank s) source TAG_WORK_RECEIPT Empty w1) (\<lambda>w. Inr (0, set_queue ?q s, w))"
    unfolding receive_items_def Let_def One_nat_def reply_header_nth nat_int q1(3)
    using w1(1) q2(4) stored(2) [OF ys(1)] h by (simp split del: if_split)
  with stored(1) same w1(2) that [of ?q w1] show thesis by simp
qed

text \<open>A reply with work: the queue holds the items and a receipt is sent.\<close>

lemma workReceive_reply:
  assumes q: "queue_rep (qp s) []" and ys: "ys \<noteq> []" "[] \<notin> set ys"
    and small: "int (length (concat ys)) \<le> INT_MAX" and pg: "0 < pagesize E"
    and mal: "\<And>k. malloc_ok E k"
    and oc: "0 \<le> offsets_count s" "int (length ys) + 2 \<le> INT_MAX - 4096"
    and p: "pend w (source, rank s, TAG_WORK_REPLY) = reply_msgs ys @ ps"
  obtains q' w1 c where "queue_rep q' ys" "pend w1 = (pend w)((source, rank s, TAG_WORK_REPLY) := ps)"
    "0 \<le> c"
    "workReceive E M source (int (length ys) + 2) s w
      = bind_res (send M (rank s) source TAG_WORK_RECEIPT Empty w1)
          (\<lambda>w. Inr (0, (set_queue q' s)\<lparr>offsets_count := c\<rparr>, w))"
proof -
  have "- INT_MAX - 1 \<le> offsets_count s" using oc(1) by (simp add: INT_MAX_def)
  from extendOffsets_ok [OF this oc(2) mal] obtain c where
    c: "extendOffsets E (int (length ys) + 2) s = Inr (0, s\<lparr>offsets_count := c\<rparr>)" "offsets_count s \<le> c"
    by blast
  let ?s1 = "s\<lparr>offsets_count := c\<rparr>"
  have p1: "pend w (source, rank s, TAG_WORK_REPLY) = Ints (reply_header ys) # Chars (concat ys) # ps"
    using p by (simp add: reply_msgs_def)
  from recv_pend [OF p1] obtain w2 where
    w2: "recv M (rank s) source TAG_WORK_REPLY w = Inr (Ints (reply_header ys), w2)"
    "pend w2 = (pend w)((source, rank s, TAG_WORK_REPLY) := Chars (concat ys) # ps)" .
  have p2: "pend w2 (source, rank ?s1, TAG_WORK_REPLY) = Chars (concat ys) # ps" using w2(2) by simp
  have q1: "queue_rep (qp ?s1) []" using q by simp
  from receive_items_reply [OF q1 ys small pg p2] obtain q' w1 where
    r: "queue_rep q' ys" "pend w1 = (pend w2)((source, rank s, TAG_WORK_REPLY) := ps)"
    "receive_items E M source (reply_header ys) ?s1 w2
      = bind_res (send M (rank s) source TAG_WORK_RECEIPT Empty w1) (\<lambda>w. Inr (0, set_queue q' ?s1, w))"
    by auto
  have hd: "reply_header ys \<noteq> []" by (simp add: reply_header_def)
  have "workReceive E M source (int (length ys) + 2) s w
      = receive_items E M source (reply_header ys) ?s1 w2"
    using c(1) w2(1) hd ys(1) by (simp add: workReceive_def split del: if_split)
  moreover have "set_queue q' ?s1 = (set_queue q' s)\<lparr>offsets_count := c\<rparr>"
    by (simp add: set_queue_def)
  ultimately show thesis using r w2(2) c(2) oc(1) by (intro that [of q' w1 c]) auto
qed

lemma workReceive_refused:
  assumes mal: "\<And>k. malloc_ok E k" and oc: "0 \<le> offsets_count s"
    and p: "pend w (source, rank s, TAG_WORK_REPLY) = Ints [x] # ps" and x: "x = 0 \<or> x = PAYLOAD_ABORT"
  obtains w1 c where "pend w1 = (pend w)((source, rank s, TAG_WORK_REPLY) := ps)" "0 \<le> c"
    "workReceive E M source 1 s w =
       Inr (x, if x = 0 then s\<lparr>offsets_count := c, local_no_work_received := to_u32 (local_no_work_received s + 1)\<rparr>
               else s\<lparr>offsets_count := c, ABORT_FLAG := 1\<rparr>, w1)"
proof -
  have "- INT_MAX - 1 \<le> offsets_count s" using oc(1) by (simp add: INT_MAX_def)
  from extendOffsets_ok [OF this, of 1] mal obtain c where
    c: "extendOffsets E 1 s = Inr (0, s\<lparr>offsets_count := c\<rparr>)" "offsets_count s \<le> c"
    by (auto simp: INT_MAX_def)
  from recv_pend [OF p] obtain w1 where w1: "recv M (rank s) source TAG_WORK_REPLY w = Inr (Ints [x], w1)"
    "pend w1 = (pend w)((source, rank s, TAG_WORK_REPLY) := ps)" .
  have "0 \<le> c" using c(2) oc by simp
  moreover from c w1(1) x have "workReceive E M source 1 s w =
       Inr (x, if x = 0 then s\<lparr>offsets_count := c, local_no_work_received := to_u32 (local_no_work_received s + 1)\<rparr>
               else s\<lparr>offsets_count := c, ABORT_FLAG := 1\<rparr>, w1)"
    by (auto simp: workReceive_def)
  ultimately show thesis by (rule that [OF w1(2)])
qed

end

section \<open>Both ends of a transfer\<close>

text \<open>The loops of \<open>spread_counts\<close> compute the usual even division: the first \<open>k mod ranks\<close>
  ranks get one more.\<close>

definition even_share :: "int \<Rightarrow> int \<Rightarrow> int list" where
  "even_share ranks k = map (\<lambda>i. k div ranks + (if int i < k mod ranks then 1 else 0)) [0..<nat ranks]"

lemma spread_counts_even:
  assumes "1 \<le> ranks" "0 \<le> k" "length sizes = nat ranks"
  shows "spread_counts sizes ranks k = even_share ranks k"
proof -
  have le: "nat (k mod ranks) \<le> nat ranks" "0 \<le> k mod ranks"
    using assms(1) pos_mod_bound [of ranks k] pos_mod_sign [of ranks k] by linarith+
  show ?thesis
    unfolding spread_counts_eq [OF assms] even_share_def
    by (rule nth_equalityI) (use le in \<open>auto simp: nth_append\<close>)
qed

lemma split_sizes_balanced:
  assumes "split_sizes E rcount s = Inr (sizes, sd)" "1 \<le> rcount" "\<And>sd. 0 \<le> fst (rand_r E sd)"
    "x \<in> set (tl sizes)" "y \<in> set (tl sizes)"
  shows "x \<le> y + 1"
proof -
  have sp: "u \<le> v + 1" if "u \<in> set (spread_counts (replicate (nat m) 0) m k)" "v \<in> set (spread_counts (replicate (nat m) 0) m k)"
    "1 \<le> m" "0 \<le> k" for u v m k
    using spread_counts_elem [OF that(3,4) _ that(1)] spread_counts_elem [OF that(3,4) _ that(2)] by simp
  show ?thesis
  proof (cases "has_flag (getRuntimeFlags (circ s)) SplitEqual")
    case True
    have tls: "set (tl zs) \<subseteq> set zs" for zs :: "int list" by (cases zs) auto
    from True assms tls sp [of x "rcount + 1" "int (qcount (qp s))" y] show ?thesis
      by (auto simp: split_sizes_def)
  next
    case False
    let ?n = "int (qcount (qp s))" and ?x = "fst (rand_r E (seed s))"
    let ?c = "if ?x smod ?n + 1 = ?n then ?x smod ?n + 1 - 1 else ?x smod ?n + 1"
    have n: "0 < ?n" using assms(1) False by (cases "qcount (qp s) \<noteq> 0") (auto simp: split_sizes_def)
    then have "0 \<le> ?x smod ?n" using assms(3) [of "seed s"] by simp
    then have "0 \<le> ?c" by simp
    moreover have "tl sizes = spread_counts (replicate (nat rcount) 0) rcount ?c"
      using assms(1) False n by (auto simp: split_sizes_def Let_def case_prod_beta)
    ultimately show ?thesis using assms(2,4,5) sp [of x rcount ?c y] by simp
  qed
qed

text \<open>What one process sends as its last items, the process it is for receives as its queue.\<close>

definition hand_over :: "env \<Rightarrow> 'w mpi \<Rightarrow> int \<Rightarrow> 'u state \<Rightarrow> 'u state \<Rightarrow> 'w
    \<Rightarrow> ((int \<times> 'u state) \<times> (int \<times> 'u state) \<times> 'w) res" where
  "hand_over E M cnt s r w =
     bind_res (sendWork E M (rank r) cnt s w) (\<lambda>(rc, s, w).
     bind_res (workReceive E M (rank s) (cnt + 2) r w) (\<lambda>(rc', r, w).
       Inr ((rc, s), (rc', r), w)))"

context mpi_laws
begin

lemma hand_over_yields:
  assumes rep: "queue_rep (qp s) (xs @ ys)" "ys \<noteq> []" "queue_rep (qp r) []"
    and small: "int (length (concat (xs @ ys))) \<le> INT_MAX" "int (length ys) + 2 \<le> INT_MAX - 4096"
    and env: "0 \<le> offsets_count s" "0 \<le> offsets_count r" "\<And>k. malloc_ok E k" "0 < pagesize E"
    and idle: "pend w (rank s, rank r, TAG_WORK_REPLY) = []"
  shows "yields (hand_over E M (int (length ys)) s r w) (\<lambda>((rc, s'), (rc', r'), w').
    rc = 0 \<and> rc' = 0 \<and> queue_rep (qp s') xs \<and> queue_rep (qp r') ys
    \<and> work_outstanding s' = work_outstanding s + 1 \<and> work_outstanding r' = work_outstanding r
    \<and> pend w' (rank s, rank r, TAG_WORK_REPLY) = []
    \<and> pend w' (rank r, rank s, TAG_WORK_RECEIPT) = pend w (rank r, rank s, TAG_WORK_RECEIPT) @ [Empty])"
  unfolding hand_over_def
proof (rule yields_seq [OF sendWork_yields [OF rep(1) small env(1,3) rep(2)]], clarify)
  fix rc s' w1 q oc
  assume q: "queue_rep q xs" and w1: "pend w1 = (pend w)(reply_to s (rank r) := pend w (reply_to s (rank r)) @ reply_msgs ys)"
  let ?s = "(set_queue q s)\<lparr>token_proc := blacken (rank r) s, offsets_count := oc, work_outstanding := work_outstanding s + 1\<rparr>"
  have ne: "[] \<notin> set ys" and cs: "int (length (concat ys)) \<le> INT_MAX"
    using rep(1) small(1) by (auto simp: queue_rep_def)
  have p: "pend w1 (rank s, rank r, TAG_WORK_REPLY) = reply_msgs ys @ []"
    using w1 idle by (simp add: reply_to_def)
  from workReceive_reply [where s = r, OF rep(3,2) ne cs env(4,3,2) small(2) p] obtain q' w2 c where
    r: "queue_rep q' ys" "pend w2 = (pend w1)((rank s, rank r, TAG_WORK_REPLY) := [])"
    "workReceive E M (rank s) (int (length ys) + 2) r w1
      = bind_res (send M (rank r) (rank s) TAG_WORK_RECEIPT Empty w2)
          (\<lambda>w. Inr (0, (set_queue q' r)\<lparr>offsets_count := c\<rparr>, w))" by metis
  have rk: "rank ?s = rank s" by simp
  show "yields (bind_res (workReceive E M (rank ?s) (int (length ys) + 2) r w1) (\<lambda>(rc', r, w). Inr ((0, ?s), (rc', r), w)))
    (\<lambda>((rc, s'), (rc', r'), w').
      rc = 0 \<and> rc' = 0 \<and> queue_rep (qp s') xs \<and> queue_rep (qp r') ys
      \<and> work_outstanding s' = work_outstanding s + 1 \<and> work_outstanding r' = work_outstanding r
      \<and> pend w' (rank s, rank r, TAG_WORK_REPLY) = []
      \<and> pend w' (rank r, rank s, TAG_WORK_RECEIPT) = pend w (rank r, rank s, TAG_WORK_RECEIPT) @ [Empty])"
    unfolding rk r(3) bind_res_assoc
    by (rule yields_seq [OF send_yields]) (use q r(1,2) w1 idle in \<open>auto simp: reply_to_def\<close>)
qed

end

end
