(* ===== verification/Circle_Serve.thy ===== *)
theory Circle_Serve
  imports Circle_Exchange "HOL-Library.Multiset"
begin

text \<open>
  What serving requests does as a whole: \<open>sendWorkToMany\<close> and \<open>workreqCheck\<close> take the
  items they hand out off the queue and put exactly these on the reply channels.
\<close>

section \<open>Sizes that fit\<close>

text \<open>The bounds under which an item count and a byte count fit an \<open>int\<close>, with the room
  \<open>extendOffsets\<close> adds.\<close>

definition fits :: "byte list list \<Rightarrow> bool" where
  "fits xs \<longleftrightarrow> int (length (concat xs)) \<le> INT_MAX \<and> int (length xs) + 2 \<le> INT_MAX - 4096"

lemma fits_append: "fits (xs @ ys) \<Longrightarrow> fits xs \<and> fits ys"
  by (simp add: fits_def)

lemma fits_Nil [simp]: "fits []"
  by (simp add: fits_def INT_MAX_def)

definition env_ok :: "env \<Rightarrow> int \<Rightarrow> bool" where
  "env_ok E n \<longleftrightarrow> 0 < pagesize E \<and> (\<forall>k. malloc_ok E k) \<and> (\<forall>sd. 0 \<le> fst (rand_r E sd))
     \<and> (\<forall>sd. \<forall>r \<in> {0..<n}. pick_other (rand_r E) r n sd \<noteq> None)"

section \<open>Sending to several processes\<close>

definition serve_update :: "queue \<Rightarrow> int \<Rightarrow> int \<Rightarrow> int \<Rightarrow> nat \<Rightarrow> 'u state \<Rightarrow> 'u state" where
  "serve_update q tp oc wo sd s =
     (set_queue q s)\<lparr>token_proc := tp, offsets_count := oc, work_outstanding := wo, seed := sd\<rparr>"

lemma serve_update_update [simp]:
  "serve_update q tp oc wo sd (serve_update q' tp' oc' wo' sd' s) = serve_update q tp oc wo sd s"
  by (simp add: serve_update_def set_queue_def)

lemma serve_update_sel [simp]:
  "qp (serve_update q tp oc wo sd s) = q" "token_proc (serve_update q tp oc wo sd s) = tp"
  "offsets_count (serve_update q tp oc wo sd s) = oc" "work_outstanding (serve_update q tp oc wo sd s) = wo"
  "seed (serve_update q tp oc wo sd s) = sd" "rank (serve_update q tp oc wo sd s) = rank s"
  "nprocs (serve_update q tp oc wo sd s) = nprocs s" "token_src (serve_update q tp oc wo sd s) = token_src s"
  "ABORT_FLAG (serve_update q tp oc wo sd s) = ABORT_FLAG s"
  "work_requested (serve_update q tp oc wo sd s) = work_requested s"
  "work_requested_rank (serve_update q tp oc wo sd s) = work_requested_rank s"
  "next_processor (serve_update q tp oc wo sd s) = next_processor s"
  "token_is_local (serve_update q tp oc wo sd s) = token_is_local s"
  "token_buf (serve_update q tp oc wo sd s) = token_buf s"
  "token_dest (serve_update q tp oc wo sd s) = token_dest s"
  "token_send_req (serve_update q tp oc wo sd s) = token_send_req s"
  by (simp_all add: serve_update_def)

lemma serve_update_id: "serve_update (qp s) (token_proc s) (offsets_count s) (work_outstanding s) (seed s) s = s"
  by (simp add: serve_update_def set_queue_def)

text \<open>The messages of one reply, and the network after replies to the ranks in \<open>D\<close>.\<close>

definition reply_of :: "'u state \<Rightarrow> byte list list \<Rightarrow> payload list" where
  "reply_of s ys = (if ys = [] then [refusal s] else reply_msgs ys)"

definition after_replies ::
  "'u state \<Rightarrow> int set \<Rightarrow> (int \<Rightarrow> byte list list) \<Rightarrow> (channel \<Rightarrow> payload list) \<Rightarrow> channel \<Rightarrow> payload list" where
  "after_replies s D g p =
     (\<lambda>(i, d, t). if i = rank s \<and> t = TAG_WORK_REPLY \<and> d \<in> D then p (i, d, t) @ reply_of s (g d) else p (i, d, t))"

text \<open>The colour after work went to the ranks in \<open>D\<close> to which \<open>g\<close> gives something.\<close>

definition colour_after :: "'u state \<Rightarrow> int set \<Rightarrow> (int \<Rightarrow> byte list list) \<Rightarrow> int" where
  "colour_after s D g =
     (if \<exists>d \<in> D. g d \<noteq> [] \<and> (d < rank s \<or> d = token_src s) then BLACK else token_proc s)"

text \<open>\<open>handed D zs xs g\<close>: of the items \<open>zs\<close> the process keeps \<open>xs\<close> and the rank \<open>d\<close> gets
  \<open>g d\<close>.\<close>

definition handed :: "int set \<Rightarrow> byte list list \<Rightarrow> byte list list \<Rightarrow> (int \<Rightarrow> byte list list) \<Rightarrow> bool" where
  "handed D zs xs g \<longleftrightarrow>
     (\<exists>rest. zs = xs @ rest \<and> mset rest = (\<Sum>d\<in>D. mset (g d)))
     \<and> (\<forall>d. fits (g d) \<and> [] \<notin> set (g d))"

lemma handed_mset: "handed D zs xs g \<Longrightarrow> mset zs = mset xs + (\<Sum>d\<in>D. mset (g d))"
  by (auto simp: handed_def)

lemma handed_work:
  assumes "handed D zs xs g" "finite D" "d \<in> D" "g d \<noteq> []"
  shows "zs \<noteq> []"
proof
  assume "zs = []"
  with handed_mset [OF assms(1)] have "(\<Sum>d\<in>D. mset (g d)) = {#}" by simp
  with sum.remove [OF assms(2,3), of "\<lambda>d. mset (g d)"] assms(4) show False by simp
qed

lemma handed_empty: "handed {} zs zs (\<lambda>d. [])"
  by (simp add: handed_def)

lemma handed_insert:
  assumes "finite D" "d \<notin> D" "handed D xs1 xs g" "[] \<notin> set (xs1 @ ys)" "fits (xs1 @ ys)"
  shows "handed (insert d D) (xs1 @ ys) xs (g(d := ys))"
proof -
  obtain rest where r: "xs1 = xs @ rest" "mset rest = (\<Sum>d\<in>D. mset (g d))"
    using assms(3) by (auto simp: handed_def)
  have "(\<Sum>d'\<in>D. mset ((g(d := ys)) d')) = (\<Sum>d'\<in>D. mset (g d'))"
    using assms(2) by (intro sum.cong) auto
  then have "mset (rest @ ys) = (\<Sum>d'\<in>insert d D. mset ((g(d := ys)) d'))"
    using assms(1,2) r(2) by (simp add: add.commute)
  moreover have "\<forall>d'. fits ((g(d := ys)) d') \<and> [] \<notin> set ((g(d := ys)) d')"
    using assms(3,4,5) fits_append [OF assms(5)] by (auto simp: handed_def)
  moreover have "xs1 @ ys = xs @ (rest @ ys)" using r(1) by simp
  ultimately show ?thesis unfolding handed_def by blast
qed

definition busy :: "int set \<Rightarrow> (int \<Rightarrow> byte list list) \<Rightarrow> int" where
  "busy D g = int (card {d \<in> D. g d \<noteq> []})"

lemma busy_insert:
  assumes "finite D" "d \<notin> D"
  shows "busy (insert d D) (g(d := ys)) = busy D g + (if ys = [] then 0 else 1)"
proof -
  have "{d' \<in> insert d D. (g(d := ys)) d' \<noteq> []} = {d' \<in> D. g d' \<noteq> []} \<union> (if ys = [] then {} else {d})"
    using assms(2) by auto
  with assms show ?thesis by (simp add: busy_def)
qed

lemma busy_sum:
  assumes "finite D"
  shows "(\<Sum>j\<in>D. if g j = [] then 0 else 1) = busy D g"
proof -
  have "(\<Sum>j\<in>D. if g j = [] then 0 else 1 :: int) = (\<Sum>j\<in>D. if g j \<noteq> [] then 1 else 0)"
    by (rule sum.cong) auto
  also have "\<dots> = (\<Sum>j\<in>{j \<in> D. g j \<noteq> []}. 1)" by (rule sum.inter_filter [OF assms, symmetric])
  finally show ?thesis by (simp add: busy_def)
qed

text \<open>The network once the requests of the ranks in \<open>D\<close> have been received.\<close>

definition requests_taken :: "int \<Rightarrow> int set \<Rightarrow> (channel \<Rightarrow> payload list) \<Rightarrow> channel \<Rightarrow> payload list" where
  "requests_taken me D p = (\<lambda>(i, j, t). if i \<in> D \<and> j = me \<and> t = TAG_WORK_REQUEST then [] else p (i, j, t))"

context mpi_laws
begin

text \<open>One process is served: with work or with a refusal.\<close>

lemma sendWork_step:
  assumes rep: "queue_rep (qp s) (xs @ ys)" and fits: "fits (xs @ ys)" and oc: "0 \<le> offsets_count s"
    and mal: "\<And>k. malloc_ok E k"
  shows "yields (sendWork E M d (int (length ys)) s w) (\<lambda>(rc, s', w').
    (\<exists>q oc'. queue_rep q xs \<and> 0 \<le> oc' \<and>
       s' = serve_update q (if ys = [] then token_proc s else blacken d s) oc'
              (work_outstanding s + (if ys = [] then 0 else 1)) (seed s) s)
    \<and> pend w' = (pend w)(reply_to s d := pend w (reply_to s d) @ reply_of s ys))"
proof (cases "ys = []")
  case True
  have refused: "yields (sendWork E M d (int (length ys)) s w) (\<lambda>(rc, s', w'). s' = s
      \<and> pend w' = (pend w)(reply_to s d := pend w (reply_to s d) @ [refusal s]))"
    using True by (simp add: sendWork_def yields_seq [OF sendNoWork_yields])
  have same: "\<exists>q oc'. queue_rep q xs \<and> 0 \<le> oc' \<and> s = serve_update q (token_proc s) oc' (work_outstanding s) (seed s) s"
    using rep oc True serve_update_id [of s]
    by (intro exI [of _ "qp s"] exI [of _ "offsets_count s"]) simp
  show ?thesis
    by (rule yields_mono [OF refused], clarsimp simp only: prod.case) (use same True in \<open>simp add: reply_of_def\<close>)
next
  case False
  have c: "int (length (concat (xs @ ys))) \<le> INT_MAX" "int (length ys) + 2 \<le> INT_MAX - 4096"
    using fits by (auto simp: fits_def)
  show ?thesis
    by (rule yields_mono [OF sendWork_yields [OF rep c oc mal False]])
      (use False in \<open>auto simp: reply_of_def serve_update_def set_queue_def\<close>)
qed

lemma send_works_yields:
  assumes "queue_rep (qp s) zs" "fits zs" "0 \<le> offsets_count s" "\<And>k. malloc_ok E k" "distinct ds"
    "length szs = length ds" "\<forall>x \<in> set szs. 0 \<le> x" "sum_list szs \<le> int (length zs)"
  shows "yields (send_works E M (zip ds szs) s w) (\<lambda>(s', w').
    \<exists>xs g q oc'. queue_rep q xs \<and> 0 \<le> oc' \<and> handed (set ds) zs xs g
      \<and> int (length xs) = int (length zs) - sum_list szs
      \<and> s' = serve_update q (colour_after s (set ds) g) oc' (work_outstanding s + busy (set ds) g) (seed s) s
      \<and> pend w' = after_replies s (set ds) g (pend w))"
  using assms
proof (induction ds arbitrary: szs s w zs)
  case Nil
  have "serve_update (qp s) (token_proc s) (offsets_count s) (work_outstanding s) (seed s) s = s"
    by (rule serve_update_id)
  with Nil handed_empty [of zs] show ?case
    by (auto simp: colour_after_def busy_def after_replies_def case_prod_beta intro!: exI)
next
  case (Cons d ds)
  obtain x szs' where szs: "szs = x # szs'" using Cons.prems(6) by (cases szs) auto
  have x: "0 \<le> x" "x \<le> int (length zs)" "\<forall>y \<in> set szs'. 0 \<le> y"
    using Cons.prems(7,8) sum_list_nonneg [of szs'] szs by auto
  define ys xs1 where "ys = drop (length zs - nat x) zs" and "xs1 = take (length zs - nat x) zs"
  have zs: "zs = xs1 @ ys" and ly: "int (length ys) = x" "x = int (length ys)"
    using x by (auto simp: ys_def xs1_def)
  have ne: "[] \<notin> set (xs1 @ ys)" using Cons.prems(1) zs by (simp add: queue_rep_def)
  note step = sendWork_step [OF Cons.prems(1) [unfolded zs] Cons.prems(2) [unfolded zs] Cons.prems(3,4)]
  show ?case
    unfolding szs zip_Cons_Cons send_works.simps ly(2)
  proof (rule yields_seq [OF step], safe, goal_cases)
    case (1 rc s1 w1 q1 oc1)
    let ?s1 = "serve_update q1 (if ys = [] then token_proc s else blacken d s) oc1
        (work_outstanding s + (if ys = [] then 0 else 1)) (seed s) s"
    have prems: "queue_rep (qp ?s1) xs1" "fits xs1" "0 \<le> offsets_count ?s1" "distinct ds"
      "length szs' = length ds" "sum_list szs' \<le> int (length xs1)" "d \<notin> set ds"
      using 1(1,2,3) Cons.prems(2,5,6,8) szs zs ly(1) fits_append [of xs1 ys] by simp_all
    note IH = Cons.IH [OF prems(1-3) Cons.prems(4) prems(4,5) x(3) prems(6)]
    show ?case
    proof (rule yields_mono [OF IH], safe, goal_cases)
      case (1 s2 w2 xs g q oc')
      have "handed (set (d # ds)) zs xs (g(d := ys))"
        using handed_insert [OF _ prems(7) 1(3) ne] Cons.prems(2) zs by simp
      moreover have "int (length xs) = int (length zs) - sum_list szs" using 1(4) szs zs ly(1) by simp
      moreover have "colour_after ?s1 (set ds) g = colour_after s (set (d # ds)) (g(d := ys))"
        using prems(7) by (auto simp: colour_after_def blacken_def)
      moreover have "busy (set (d # ds)) (g(d := ys)) = busy (set ds) g + (if ys = [] then 0 else 1)"
        using busy_insert [OF _ prems(7)] by simp
      moreover have "pend w2 = after_replies s (set (d # ds)) (g(d := ys)) (pend w)"
      proof (rule ext)
        fix k :: channel
        show "pend w2 k = after_replies s (set (d # ds)) (g(d := ys)) (pend w) k"
          using 1(5) \<open>pend w1 = _\<close> prems(7)
          by (cases k) (auto simp: after_replies_def reply_to_def reply_of_def refusal_def)
      qed
      ultimately show ?case using 1(1,2) szs ly(2)
        by (intro exI [of _ xs] exI [of _ "g(d := ys)"] exI [of _ q] exI [of _ oc'])
          (auto simp: algebra_simps)
    qed
  qed
qed

lemma send_no_works_yields:
  assumes "distinct ds"
  shows "yields (send_no_works M ds s w) (\<lambda>w'. pend w' = after_replies s (set ds) (\<lambda>d. []) (pend w))"
  using assms
proof (induction ds arbitrary: w)
  case Nil
  then show ?case by (simp add: after_replies_def case_prod_beta)
next
  case (Cons d ds)
  show ?case
    unfolding send_no_works.simps
  proof (rule yields_seq [OF sendNoWork_yields], rule yields_mono [OF Cons.IH])
    fix w1 w'
    assume w1: "pend w1 = (pend w)(reply_to s d := pend w (reply_to s d) @ [refusal s])"
      and w': "pend w' = after_replies s (set ds) (\<lambda>d. []) (pend w1)"
    show "pend w' = after_replies s (set (d # ds)) (\<lambda>d. []) (pend w)"
    proof (rule ext)
      fix k :: channel
      show "pend w' k = after_replies s (set (d # ds)) (\<lambda>d. []) (pend w) k"
        using w1 w' Cons.prems
        by (cases k) (auto simp: after_replies_def reply_to_def reply_of_def)
    qed
  qed (use Cons.prems in simp)
qed

text \<open>A process with work keeps at least one item and hands out the others.\<close>

lemma sendWorkToMany_yields:
  assumes rep: "queue_rep (qp s) zs" and ne: "zs \<noteq> []" and fits: "fits zs" and oc: "0 \<le> offsets_count s"
    and E: "env_ok E n" and ds: "distinct ds" "ds \<noteq> []"
  shows "yields (sendWorkToMany E M ds s w) (\<lambda>(s', w').
    \<exists>xs g q oc' sd. queue_rep q xs \<and> xs \<noteq> [] \<and> 0 \<le> oc' \<and> handed (set ds) zs xs g
      \<and> s' = serve_update q (colour_after s (set ds) g) oc' (work_outstanding s + busy (set ds) g) sd s
      \<and> pend w' = after_replies s (set ds) g (pend w))"
proof -
  let ?rc = "int (length ds)"
  have mal: "\<And>k. malloc_ok E k" and rnd: "\<And>sd. 0 \<le> fst (rand_r E sd)"
    using E by (auto simp: env_ok_def)
  have cnt: "qcount (qp s) = length zs" using queue_rep_count [OF rep] .
  have pos: "0 < qcount (qp s)" "1 \<le> ?rc" using cnt ne ds(2) by (auto simp: Suc_le_eq)
  obtain sizes sd where sz: "split_sizes E ?rc s = Inr (sizes, sd)" "length sizes = nat ?rc + 1"
    "sum_list sizes = int (qcount (qp s))" "1 \<le> hd sizes" "\<forall>x \<in> set sizes. 0 \<le> x"
    using split_sizes_ok [OF pos rnd] by metis
  obtain h tl where tl: "sizes = h # tl" using sz(2) by (cases sizes) auto
  have sum: "length tl = length ds" "\<forall>x \<in> set tl. 0 \<le> x" "sum_list tl \<le> int (length zs)"
    "int (length zs) - sum_list tl = h"
    using sz tl cnt by auto
  let ?s1 = "s\<lparr>seed := sd\<rparr>"
  have s1: "queue_rep (qp ?s1) zs" "0 \<le> offsets_count ?s1" using rep oc by auto
  have run: "sendWorkToMany E M ds s w = send_works E M (zip ds tl) ?s1 w"
    using sz(1) tl mal pos(2) ds(2) by (simp add: sendWorkToMany_def Let_def)
  note sent = send_works_yields [OF s1(1) fits s1(2) mal ds(1) sum(1-3), where w = w]
  have same: "serve_update q tp oc' wo (seed ?s1) ?s1 = serve_update q tp oc' wo sd s" for q tp oc' wo
    by (simp add: serve_update_def set_queue_def)
  have same2: "colour_after ?s1 D g = colour_after s D g" "after_replies ?s1 D g p = after_replies s D g p" for D g p
    by (auto simp: colour_after_def after_replies_def reply_of_def refusal_def)
  show ?thesis
    unfolding run
  proof (rule yields_mono [OF sent], clarsimp simp only: prod.case same same2, goal_cases)
    case (1 s' w' xs g q oc')
    have "int (length xs) = h" using 1 sum(4) by simp
    then have "xs \<noteq> []" using sz(4) tl by auto
    with 1 show ?case
      by (intro exI [of _ xs] exI [of _ g] exI [of _ q] exI [of _ oc'] exI [of _ sd] conjI) simp_all
  qed
qed

text \<open>Collecting requests: each rank has at most one request pending.\<close>

lemma collect_requests_yields:
  assumes "\<forall>j. length (pend w (j, me, TAG_WORK_REQUEST)) \<le> 1"
    "\<forall>j. pend w (j, me, TAG_WORK_REQUEST) \<noteq> [] \<longrightarrow> 0 \<le> j \<and> j < n"
    "distinct acc" "\<forall>j \<in> set acc. 0 \<le> j \<and> j < n \<and> pend w (j, me, TAG_WORK_REQUEST) = []"
  shows "yields (collect_requests M me n acc w) (\<lambda>(rs, w'). \<exists>ds. rs = acc @ ds \<and> distinct rs
    \<and> (\<forall>d \<in> set ds. 0 \<le> d \<and> d < n \<and> length (pend w (d, me, TAG_WORK_REQUEST)) = 1)
    \<and> pend w' = requests_taken me (set ds) (pend w))"
  using assms
proof (induction "nat n - length acc" arbitrary: acc w rule: less_induct)
  case less
  let ?req = "\<lambda>w j. pend w (j, me, TAG_WORK_REQUEST)"
  show ?case
  proof (cases "MPI_Iprobe M me None TAG_WORK_REQUEST w")
    case (Pair r w0)
    show ?thesis
    proof (cases r)
      case None
      with Pair iprobe_pend [of me None TAG_WORK_REQUEST w] less.prems(3) show ?thesis
        by (simp add: collect_requests.simps [of M me n acc w] requests_taken_def case_prod_beta)
    next
      case (Some st)
      let ?d = "MPI_SOURCE st"
      note probe = Pair [unfolded Some]
      obtain p ps w1 where rcv: "recv M me ?d TAG_WORK_REQUEST w0 = Inr (p, w1)" "?req w ?d = p # ps"
        "pend w1 = (pend w)((?d, me, TAG_WORK_REQUEST) := ps)"
        using probe_recv [OF probe] by metis
      have "length (?req w ?d) \<le> 1" using less.prems(1) by blast
      then have ps: "ps = []" "length (?req w ?d) = 1" using rcv(2) by auto
      have d: "0 \<le> ?d" "?d < n" "?d \<notin> set acc" using less.prems(2,4) rcv(2) by auto
      have fin: "finite {0..<n}" "set (?d # acc) \<subseteq> {0..<n}" "distinct (?d # acc)"
        using d less.prems(3,4) by auto
      have "length (?d # acc) = card (set (?d # acc))" by (rule distinct_card [OF fin(3), symmetric])
      also have "\<dots> \<le> nat n" using card_mono [OF fin(1,2)] by simp
      finally have room: "length acc < nat n" by simp
      have prems: "\<forall>j. length (?req w1 j) \<le> 1" "\<forall>j. ?req w1 j \<noteq> [] \<longrightarrow> 0 \<le> j \<and> j < n"
        "distinct (acc @ [?d])" "\<forall>j \<in> set (acc @ [?d]). 0 \<le> j \<and> j < n \<and> ?req w1 j = []"
        using less.prems d rcv(3) ps by auto
      have run: "collect_requests M me n acc w = collect_requests M me n (acc @ [?d]) w1"
        using probe rcv(1) room by (simp add: collect_requests.simps [of M me n acc w])
      have dec: "nat n - length (acc @ [?d]) < nat n - length acc" using room by simp
      show ?thesis
        unfolding run
      proof (rule yields_mono [OF less.hyps [OF dec prems]], safe, goal_cases)
        case (1 rs w' ds)
        have net: "pend w' = requests_taken me (set (?d # ds)) (pend w)"
          using 1(3) rcv(3) ps(1) by (auto simp: requests_taken_def fun_eq_iff)
        have all: "\<forall>d' \<in> set (?d # ds). 0 \<le> d' \<and> d' < n \<and> length (?req w d') = 1"
          using 1(1,2) d ps rcv(3) by (auto split: if_splits)
        show ?case using net all 1(1) by (intro exI [of _ "?d # ds"]) simp
      qed
    qed
  qed
qed

text \<open>Serving requests: each rank that asked gets one reply, the items in the replies and
  those left make up the items before, and a process that had work keeps some.\<close>

lemma workreqCheck_yields:
  assumes rep: "queue_rep (qp s) zs" and fits: "fits zs" and oc: "0 \<le> offsets_count s"
    and E: "env_ok E n" and n: "nprocs s = n"
    and req: "\<forall>j. length (pend w (j, rank s, TAG_WORK_REQUEST)) \<le> 1"
      "\<forall>j. pend w (j, rank s, TAG_WORK_REQUEST) \<noteq> [] \<longrightarrow> 0 \<le> j \<and> j < n"
  shows "yields (workreqCheck E M cleanup s w) (\<lambda>(s', w').
    \<exists>D xs g q oc' sd. finite D \<and> (\<forall>d \<in> D. 0 \<le> d \<and> d < n \<and> length (pend w (d, rank s, TAG_WORK_REQUEST)) = 1)
      \<and> queue_rep q xs \<and> (zs \<noteq> [] \<longrightarrow> xs \<noteq> []) \<and> 0 \<le> oc' \<and> handed D zs xs g
      \<and> s' = serve_update q (colour_after s D g) oc' (work_outstanding s + busy D g) sd s
      \<and> pend w' = after_replies s D g (requests_taken (rank s) D (pend w)))"
proof -
  have col: "yields (collect_requests M (rank s) (nprocs s) [] w) (\<lambda>(rs, w'). \<exists>ds. rs = [] @ ds \<and> distinct rs
    \<and> (\<forall>d \<in> set ds. 0 \<le> d \<and> d < n \<and> length (pend w (d, rank s, TAG_WORK_REQUEST)) = 1)
    \<and> pend w' = requests_taken (rank s) (set ds) (pend w))"
    unfolding n by (rule collect_requests_yields) (use req in auto)
  let ?P = "\<lambda>D w1 (s', w'). \<exists>xs g q oc' sd. queue_rep q xs \<and> (zs \<noteq> [] \<longrightarrow> xs \<noteq> []) \<and> 0 \<le> oc' \<and> handed D zs xs g
      \<and> s' = serve_update q (colour_after s D g) oc' (work_outstanding s + busy D g) sd s
      \<and> pend w' = after_replies s D g (pend w1)"
  have refuse: "?P D w1 (s, w')" if "pend w' = after_replies s D (\<lambda>d. []) (pend w1)" "finite D" for D w1 w'
  proof -
    have "handed D zs zs (\<lambda>d. [])" "colour_after s D (\<lambda>d. []) = token_proc s" "busy D (\<lambda>d. []) = 0"
      by (simp_all add: handed_def colour_after_def busy_def)
    with rep oc that serve_update_id [of s] show ?thesis
      by (simp only: prod.case) (intro exI [of _ zs] exI [of _ "\<lambda>d. []"] exI [of _ "qp s"]
        exI [of _ "offsets_count s"] exI [of _ "seed s"] conjI, simp_all)
  qed
  have answer: "yields (if ds = [] then Inr (s, w1)
       else if qcount (qp s) = 0 \<or> cleanup \<or> ABORT_FLAG s \<noteq> 0 then
         bind_res (send_no_works M ds s w1) (\<lambda>w. Inr (s, w))
       else sendWorkToMany E M ds s w1) (?P (set ds) w1)" if ds: "distinct ds" for ds w1
  proof -
    consider "ds = []" | "ds \<noteq> []" "qcount (qp s) = 0 \<or> cleanup \<or> ABORT_FLAG s \<noteq> 0"
      | "ds \<noteq> []" "\<not> (qcount (qp s) = 0 \<or> cleanup \<or> ABORT_FLAG s \<noteq> 0)" by blast
    then show ?thesis
    proof cases
      case 1
      have "after_replies s (set []) (\<lambda>d. []) (pend w1) = pend w1"
        by (simp add: after_replies_def case_prod_beta)
      with 1 refuse [of w1 "set []" w1] show ?thesis by simp
    next
      case 2
      have "yields (bind_res (send_no_works M ds s w1) (\<lambda>w. Inr (s, w))) (?P (set ds) w1)"
        by (rule yields_seq [OF send_no_works_yields [OF ds]]) (simp only: yields_Inr refuse finite_set)
      with 2 show ?thesis by simp
    next
      case 3
      have "zs \<noteq> []" using 3(2) queue_rep_count [OF rep] by auto
      have "yields (sendWorkToMany E M ds s w1) (?P (set ds) w1)"
        by (rule yields_mono [OF sendWorkToMany_yields [OF rep \<open>zs \<noteq> []\<close> fits oc E ds 3(1)]])
          (simp only: split_paired_all prod.case, blast)
      with 3 show ?thesis by simp
    qed
  qed
  show ?thesis
    unfolding workreqCheck_def
  proof (rule yields_seq [OF col], safe, goal_cases)
    case (1 rs w1 ds)
    have d: "distinct ds" using 1(1) by simp
    have "finite (set ds)" by simp
    with 1(2) show ?case
      unfolding append_Nil
      by (intro yields_mono [OF answer [OF d]])
        (simp only: split_paired_all prod.case 1(3), blast)
  qed
qed

end

end
