(* ===== verification/Circle_Ask.thy ===== *)
theory Circle_Ask
  imports Circle_Serve
begin

text \<open>
  What asking for work does: \<open>requestWork\<close> with the reply it may find, and the receipts
  \<open>workreceiptCheck\<close> takes.
\<close>

section \<open>Receipts\<close>

definition receipts :: "int set \<Rightarrow> int \<Rightarrow> (channel \<Rightarrow> payload list) \<Rightarrow> int" where
  "receipts J me p = (\<Sum>j\<in>J. int (length (p (j, me, TAG_WORK_RECEIPT))))"

lemma receipts_nonneg: "0 \<le> receipts J me p"
  by (simp add: receipts_def sum_nonneg)

lemma receipts_take:
  assumes "finite J" "j \<in> J" "p (j, me, TAG_WORK_RECEIPT) = x # ps"
  shows "receipts J me (p((j, me, TAG_WORK_RECEIPT) := ps)) = receipts J me p - 1"
proof -
  have "receipts J me (p((j, me, TAG_WORK_RECEIPT) := ps)) =
      int (length ps) + (\<Sum>i\<in>J - {j}. int (length (p (i, me, TAG_WORK_RECEIPT))))"
    unfolding receipts_def using assms(1,2) by (subst sum.remove [of J j]) (auto intro!: sum.cong)
  moreover have "receipts J me p = int (length (p (j, me, TAG_WORK_RECEIPT)))
      + (\<Sum>i\<in>J - {j}. int (length (p (i, me, TAG_WORK_RECEIPT))))"
    unfolding receipts_def using assms(1,2) by (subst sum.remove [of J j]) auto
  ultimately show ?thesis using assms(3) by simp
qed

definition only_channels :: "(channel \<Rightarrow> bool) \<Rightarrow> (channel \<Rightarrow> payload list) \<Rightarrow> (channel \<Rightarrow> payload list) \<Rightarrow> bool" where
  "only_channels P p p' \<longleftrightarrow> (\<forall>k. \<not> P k \<longrightarrow> p' k = p k)"

lemma only_channels_refl [simp]: "only_channels P p p"
  by (simp add: only_channels_def)

lemma only_channels_trans: "only_channels P p p1 \<Longrightarrow> only_channels P p1 p2 \<Longrightarrow> only_channels P p p2"
  by (simp add: only_channels_def)

lemma only_channelsD: "only_channels P p p' \<Longrightarrow> \<not> P k \<Longrightarrow> p' k = p k"
  by (cases k) (simp add: only_channels_def)

context mpi_laws
begin

lemma workreceiptCheck_yields:
  assumes "finite J" "\<forall>j. j \<notin> J \<longrightarrow> pend w (j, rank s, TAG_WORK_RECEIPT) = []"
  shows "yields (workreceiptCheck M s w) (\<lambda>(s', w'). \<exists>wo tf. s' = s\<lparr>work_outstanding := wo, term_flag := tf\<rparr>
    \<and> wo - receipts J (rank s) (pend w') = work_outstanding s - receipts J (rank s) (pend w)
    \<and> only_channels (\<lambda>(i, j, t). j = rank s \<and> t = TAG_WORK_RECEIPT) (pend w) (pend w')
    \<and> (\<forall>j. j \<notin> J \<longrightarrow> pend w' (j, rank s, TAG_WORK_RECEIPT) = []))"
  using assms(2)
proof (induction "nat (work_outstanding s)" arbitrary: s w rule: less_induct)
  case less
  let ?Q = "\<lambda>s w (s', w'). \<exists>wo tf. s' = s\<lparr>work_outstanding := wo, term_flag := tf\<rparr>
    \<and> wo - receipts J (rank s) (pend w') = work_outstanding s - receipts J (rank s) (pend w)
    \<and> only_channels (\<lambda>(i, j, t). j = rank s \<and> t = TAG_WORK_RECEIPT) (pend w) (pend w')
    \<and> (\<forall>j. j \<notin> J \<longrightarrow> pend w' (j, rank s, TAG_WORK_RECEIPT) = [])"
  have stay: "?Q s w (s, w')" if "pend w' = pend w" for w'
  proof -
    have "s = s\<lparr>work_outstanding := work_outstanding s, term_flag := term_flag s\<rparr>" by simp
    with that less.prems show ?thesis by (simp only: prod.case only_channels_refl) blast
  qed
  show ?case
  proof (cases "work_outstanding s > 0")
    case False
    with stay [of w] show ?thesis by (simp only: workreceiptCheck.simps [of M s w] if_False yields_Inr)
  next
    case True
    obtain r w0 where probe: "MPI_Iprobe M (rank s) None TAG_WORK_RECEIPT w = (r, w0)" by fastforce
    show ?thesis
    proof (cases r)
      case None
      with probe True stay [of w0] iprobe_pend [OF probe] show ?thesis
        by (simp only: workreceiptCheck.simps [of M s w] if_True yields_Inr prod.case option.case)
    next
      case (Some st)
      let ?j = "MPI_SOURCE st" and ?s1 = "s\<lparr>work_outstanding := work_outstanding s - 1, term_flag := 0\<rparr>"
      obtain p ps w1 where rcv: "recv M (rank s) ?j TAG_WORK_RECEIPT w0 = Inr (p, w1)"
        "pend w (?j, rank s, TAG_WORK_RECEIPT) = p # ps"
        "pend w1 = (pend w)((?j, rank s, TAG_WORK_RECEIPT) := ps)"
        using probe_recv [OF probe [unfolded Some]] by metis
      have j: "?j \<in> J" using less.prems rcv(2) by auto
      have run: "workreceiptCheck M s w = workreceiptCheck M ?s1 w1"
        using probe Some True rcv(1) by (simp add: workreceiptCheck.simps [of M s w])
      have prems: "nat (work_outstanding ?s1) < nat (work_outstanding s)"
        "\<forall>j. j \<notin> J \<longrightarrow> pend w1 (j, rank ?s1, TAG_WORK_RECEIPT) = []"
        using True less.prems rcv(3) j by auto
      have only: "only_channels (\<lambda>(i, j, t). j = rank s \<and> t = TAG_WORK_RECEIPT) (pend w) (pend w1)"
        using rcv(3) by (auto simp: only_channels_def)
      have one: "receipts J (rank s) (pend w1) = receipts J (rank s) (pend w) - 1"
        unfolding rcv(3) by (rule receipts_take [where p = "pend w", OF assms(1) j rcv(2)])
      show ?thesis
        unfolding run
      proof (rule yields_mono [OF less.hyps [OF prems]], clarify, goal_cases)
        case (1 s' w' wo tf)
        then show ?case using one only_channels_trans [OF only] by (intro exI [of _ wo] exI [of _ tf]) auto
      qed
    qed
  qed
qed

end

section \<open>Requests\<close>

text \<open>What \<open>requestWork\<close> can do, on the state and the pending messages: nothing, take a
  refusal, take work and acknowledge it, or ask the next rank.\<close>

definition reply_from :: "'u state \<Rightarrow> channel" where
  "reply_from s = (work_requested_rank s, rank s, TAG_WORK_REPLY)"

definition next_ok :: "int \<Rightarrow> 'u state \<Rightarrow> bool" where
  "next_ok n s \<longleftrightarrow> (case next_processor s of None \<Rightarrow> True | Some p \<Rightarrow> 0 \<le> p \<and> p < n \<and> p \<noteq> rank s)"

inductive asked ::
  "int \<Rightarrow> 'u state \<Rightarrow> (channel \<Rightarrow> payload list) \<Rightarrow> 'u state \<Rightarrow> (channel \<Rightarrow> payload list) \<Rightarrow> bool"
  for n s p where
  refused: "work_requested s \<Longrightarrow> p (reply_from s) = [Ints [0]] \<Longrightarrow> 0 \<le> c \<Longrightarrow>
    asked n s p (s\<lparr>offsets_count := c, local_no_work_received := to_u32 (local_no_work_received s + 1),
      work_requested := False\<rparr>) (p(reply_from s := []))"
| given: "work_requested s \<Longrightarrow> p (reply_from s) = reply_msgs ys \<Longrightarrow> ys \<noteq> [] \<Longrightarrow> queue_rep q ys \<Longrightarrow> 0 \<le> c \<Longrightarrow>
    asked n s p ((set_queue q s)\<lparr>offsets_count := c, work_requested := False\<rparr>)
      (p(reply_from s := [], (rank s, work_requested_rank s, TAG_WORK_RECEIPT) :=
           p (rank s, work_requested_rank s, TAG_WORK_RECEIPT) @ [Empty]))"
| ask: "\<not> work_requested s \<Longrightarrow> next_processor s = Some d \<Longrightarrow>
    (case np of None \<Rightarrow> True | Some e \<Rightarrow> 0 \<le> e \<and> e < n \<and> e \<noteq> rank s) \<Longrightarrow>
    asked n s p (s\<lparr>local_work_requested := x, work_requested := True, work_requested_rank := d,
        next_processor := np, seed := sd\<rparr>)
      (p((rank s, d, TAG_WORK_REQUEST) := p (rank s, d, TAG_WORK_REQUEST) @ [Empty]))"

lemma getNextProc_ok:
  assumes "env_ok E n" "nprocs s = n" "0 \<le> rank s" "rank s < n"
  obtains np sd where "getNextProc E s = Inr (s\<lparr>next_processor := np, seed := sd\<rparr>)"
    "case np of None \<Rightarrow> True | Some e \<Rightarrow> 0 \<le> e \<and> e < n \<and> e \<noteq> rank s"
proof (cases "1 < n")
  case True
  have rnd: "\<And>sd. 0 \<le> fst (rand_r E sd)" and "pick_other (rand_r E) (rank s) n (seed s) \<noteq> None"
    using assms by (auto simp: env_ok_def)
  then obtain p sd where p: "pick_other (rand_r E) (rank s) n (seed s) = Some (p, sd)" by auto
  have "p \<noteq> rank s \<and> 0 \<le> p \<and> p < n" using pick_other_sound [OF p rnd] True by simp
  moreover have "getNextProc E s = Inr (s\<lparr>next_processor := Some p, seed := sd\<rparr>)"
    using True p assms(2) by (simp add: getNextProc_def)
  ultimately show thesis by (intro that) auto
next
  case False
  have "s\<lparr>next_processor := None\<rparr> = s\<lparr>next_processor := None, seed := seed s\<rparr>" by simp
  with False assms(2) have "getNextProc E s = Inr (s\<lparr>next_processor := None, seed := seed s\<rparr>)"
    by (simp add: getNextProc_def)
  then show thesis by (rule that) simp
qed

context mpi_laws
begin

lemma requestWork_yields:
  assumes E: "env_ok E n" and st: "nprocs s = n" "0 \<le> rank s" "rank s < n" "0 \<le> offsets_count s"
    and reply: "work_requested s \<Longrightarrow> queue_rep (qp s) [] \<and> (pend w (reply_from s) = []
      \<or> pend w (reply_from s) = [Ints [0]]
      \<or> (\<exists>ys. ys \<noteq> [] \<and> [] \<notin> set ys \<and> fits ys \<and> pend w (reply_from s) = reply_msgs ys))"
  shows "yields (requestWork E M cleanup s w) (\<lambda>(rc, s', w').
    asked n s (pend w) s' (pend w') \<or>
    s' = s \<and> pend w' = pend w \<and> (work_requested s \<longrightarrow>
      fst (MPI_Iprobe M (rank s) (Some (work_requested_rank s)) TAG_WORK_REPLY w) = None))"
proof (cases "work_requested s")
  case True
  let ?src = "work_requested_rank s"
  obtain r w0 where probe: "MPI_Iprobe M (rank s) (Some ?src) TAG_WORK_REPLY w = (r, w0)" by fastforce
  have same: "pend w0 = pend w" by (rule iprobe_pend [OF probe])
  have mal: "\<And>k. malloc_ok E k" and pg: "0 < pagesize E" using E by (auto simp: env_ok_def)
  have q: "queue_rep (qp s) []" using reply True by blast
  show ?thesis
  proof (cases r)
    case None
    with probe True same show ?thesis by (simp add: requestWork_def)
  next
    case (Some stat)
    have some: "pend w (reply_from s) \<noteq> []" "msg_ints stat = payload_ints (List.hd (pend w (reply_from s)))"
      using iprobe_some [OF probe [unfolded Some]] by (auto simp: reply_from_def)
    have run: "requestWork E M cleanup s w = bind_res (workReceive E M ?src (msg_ints stat) s w0)
        (\<lambda>(rc, s, w). Inr (rc, s\<lparr>work_requested := False\<rparr>, w))"
      using probe Some True by (simp add: requestWork_def)
    consider (none) "pend w (reply_from s) = [Ints [0]]"
      | (work) ys where "ys \<noteq> []" "[] \<notin> set ys" "fits ys" "pend w (reply_from s) = reply_msgs ys"
      using reply [OF True] some(1) by blast
    then show ?thesis
    proof cases
      case none
      have p: "pend w0 (?src, rank s, TAG_WORK_REPLY) = Ints [0] # []"
        using none same by (simp add: reply_from_def)
      have len: "msg_ints stat = 1" using some(2) none by simp
      obtain w1 c where "pend w1 = (pend w0)((?src, rank s, TAG_WORK_REPLY) := [])" "0 \<le> c"
        "workReceive E M ?src 1 s w0 =
          Inr (0, s\<lparr>offsets_count := c, local_no_work_received := to_u32 (local_no_work_received s + 1)\<rparr>, w1)"
        using workReceive_refused [where x = 0, OF mal st(4) p] by auto
      with run len same refused [where p = "pend w", OF True none, of c n] show ?thesis by (simp add: reply_from_def)
    next
      case work
      have p: "pend w0 (?src, rank s, TAG_WORK_REPLY) = reply_msgs ys @ []"
        using work same by (simp add: reply_from_def)
      have len: "msg_ints stat = int (length ys) + 2" using some(2) work(4) by (simp add: reply_msgs_def)
      have sz: "int (length (concat ys)) \<le> INT_MAX" "int (length ys) + 2 \<le> INT_MAX - 4096"
        using work(3) by (auto simp: fits_def)
      obtain q' w1 c where got: "queue_rep q' ys" "pend w1 = (pend w0)((?src, rank s, TAG_WORK_REPLY) := [])" "0 \<le> c"
        "workReceive E M ?src (int (length ys) + 2) s w0 =
          bind_res (send M (rank s) ?src TAG_WORK_RECEIPT Empty w1)
            (\<lambda>w. Inr (0, (set_queue q' s)\<lparr>offsets_count := c\<rparr>, w))"
        using workReceive_reply [OF q work(1,2) sz(1) pg mal st(4) sz(2) p] by metis
      have sent: "yields (send M (rank s) ?src TAG_WORK_RECEIPT Empty w1) (\<lambda>w'. pend w' =
          (pend w)(reply_from s := [], (rank s, ?src, TAG_WORK_RECEIPT) :=
           pend w (rank s, ?src, TAG_WORK_RECEIPT) @ [Empty]))"
        by (rule yields_mono [OF send_yields]) (simp add: got(2) same reply_from_def)
      show ?thesis
        unfolding run len got(4)
        by (rule yields_seq [OF yields_seq [OF sent, where R = "\<lambda>(rc, s', w').
              s' = (set_queue q' s)\<lparr>offsets_count := c\<rparr> \<and> pend w' =
          (pend w)(reply_from s := [], (rank s, ?src, TAG_WORK_RECEIPT) :=
           pend w (rank s, ?src, TAG_WORK_RECEIPT) @ [Empty])"]])
          (use given [where p = "pend w", OF True work(4,1) got(1,3), of n] in auto)
    qed
  qed
next
  case nr: False
  show ?thesis
  proof (cases "\<not> cleanup \<and> ABORT_FLAG s = 0 \<and> next_processor s \<noteq> None")
    case False
    with nr have "requestWork E M cleanup s w = Inr (0, s, w)" by (auto simp: requestWork_def)
    with nr show ?thesis by simp
  next
    case True
    then obtain d where d: "next_processor s = Some d" by auto
    let ?s1 = "s\<lparr>local_work_requested := to_u32 (local_work_requested s + 1), work_requested := True,
        work_requested_rank := d\<rparr>"
    have st1: "nprocs ?s1 = n" "0 \<le> rank ?s1" "rank ?s1 < n" using st by simp_all
    obtain np sd where gn: "getNextProc E ?s1 = Inr (?s1\<lparr>next_processor := np, seed := sd\<rparr>)"
      "case np of None \<Rightarrow> True | Some e \<Rightarrow> 0 \<le> e \<and> e < n \<and> e \<noteq> rank ?s1"
      by (rule getNextProc_ok [OF E st1])
    have run: "requestWork E M cleanup s w = bind_res (send M (rank s) d TAG_WORK_REQUEST Empty w)
        (\<lambda>w. Inr (0, ?s1\<lparr>next_processor := np, seed := sd\<rparr>, w))"
      using True nr d gn(1) by (simp add: requestWork_def)
    have "asked n s (pend w) (?s1\<lparr>next_processor := np, seed := sd\<rparr>)
        ((pend w)((rank s, d, TAG_WORK_REQUEST) := pend w (rank s, d, TAG_WORK_REQUEST) @ [Empty]))"
      by (rule ask [OF nr d]) (use gn(2) in \<open>cases np; simp\<close>)
    then show ?thesis
      unfolding run by (intro yields_seq [OF send_yields]) simp
  qed
qed

end

inductive_cases asked_cases: "asked n s p s' p'"

end
