(* ===== verification/Circle_Token.thy ===== *)
theory Circle_Token
  imports Circle_State
begin

text \<open>
  The token ring of \<open>src/state.cpp\<close> (\<open>tokenIsSend\<close>, \<open>tokenRecv\<close>, \<open>tokenCheck\<close>,
  \<open>checkForTerm\<close>): the operations as they act on one process and on the network, and
  what each does to the token, in terms of the messages pending on the token channels.
\<close>

section \<open>Operations\<close>

definition tokenIsSend :: "'w mpi \<Rightarrow> 'u state \<Rightarrow> 'w \<Rightarrow> 'u state \<times> 'w" where
  "tokenIsSend M s w =
     (if ABORT_FLAG s \<noteq> 0 then (s, w)
      else (case MPI_Issend M (rank s) (token_dest s) TAG_TOKEN (Ints [token_buf s]) w of
        (req, w) \<Rightarrow> (s\<lparr>token_send_req := Some req, token_is_local := False\<rparr>, w)))"

definition wait_token_send :: "'w mpi \<Rightarrow> 'u state \<Rightarrow> 'w \<Rightarrow> ('u state \<times> 'w) res" where
  "wait_token_send M s w =
     (case token_send_req s of
       None \<Rightarrow> Inr (s, w)
     | Some req \<Rightarrow> bind_res (opt_res Blocks (MPI_Wait M (rank s) req w))
         (\<lambda>w. Inr (s\<lparr>token_send_req := None\<rparr>, w)))"

text \<open>What \<open>tokenRecv\<close> does once the previous send is complete.\<close>

definition token_react :: "'w mpi \<Rightarrow> int \<Rightarrow> 'u state \<Rightarrow> 'w \<Rightarrow> 'u state \<times> 'w" where
  "token_react M token s w =
     (let s = s\<lparr>token_buf := token\<rparr>;
          s = (if token_proc s = BLACK \<and> token = BLACK then s\<lparr>token_proc := WHITE\<rparr> else s);
          terminate = (if rank s = 0 \<and> token = WHITE then True else token = TERMINATE)
      in if terminate then
           (let s = s\<lparr>token_buf := TERMINATE\<rparr>;
                (s, w) = (if rank s < nprocs s - 1 then tokenIsSend M s w else (s, w))
            in (s\<lparr>token_proc := TERMINATE\<rparr>, w))
         else (s, w))"

definition tokenRecv :: "'w mpi \<Rightarrow> 'u state \<Rightarrow> 'w \<Rightarrow> ('u state \<times> 'w) res" where
  "tokenRecv M s w =
     bind_res (recv M (rank s) (token_src s) TAG_TOKEN w) (\<lambda>(p, w).
     bind_res (as_int p) (\<lambda>token.
     bind_res (wait_token_send M (s\<lparr>token_is_local := True\<rparr>) w) (\<lambda>(s, w).
       Inr (token_react M token s w))))"

definition tokenCheck :: "'w mpi \<Rightarrow> 'u state \<Rightarrow> 'w \<Rightarrow> ('u state \<times> 'w) res" where
  "tokenCheck M s w =
     (case MPI_Iprobe M (rank s) (Some (token_src s)) TAG_TOKEN w of
       (None, w) \<Rightarrow> Inr (s, w)
     | (Some _, w) \<Rightarrow> tokenRecv M s w)"

definition checkForTerm :: "'w mpi \<Rightarrow> 'u state \<Rightarrow> 'w \<Rightarrow> (int \<times> 'u state \<times> 'w) res" where
  "checkForTerm M s w =
     (if token_proc s = TERMINATE then Inr (TERMINATE, s, w)
      else bind_res
        (if token_is_local s then
           (let s = (if rank s = 0 then s\<lparr>token_buf := WHITE\<rparr>
                     else if token_proc s = BLACK then s\<lparr>token_buf := BLACK\<rparr> else s);
                (s, w) = tokenIsSend M s w
            in Inr (s\<lparr>token_proc := WHITE\<rparr>, w))
         else tokenCheck M s w)
        (\<lambda>(s, w). Inr (token_proc s, s, w)))"

section \<open>What the operations do\<close>

text \<open>The channel a process sends its token on and the one it receives it on.\<close>

definition token_out :: "'u state \<Rightarrow> channel" where
  "token_out s = (rank s, token_dest s, TAG_TOKEN)"

definition token_in :: "'u state \<Rightarrow> channel" where
  "token_in s = (token_src s, rank s, TAG_TOKEN)"

text \<open>The process that has received \<open>token\<close>, before it decides on termination.\<close>

definition take_token :: "int \<Rightarrow> 'u state \<Rightarrow> 'u state" where
  "take_token token s =
     s\<lparr>token_is_local := True, token_send_req := None, token_buf := token,
       token_proc := (if token_proc s = BLACK \<and> token = BLACK then WHITE else token_proc s)\<rparr>"

definition token_ends :: "int \<Rightarrow> 'u state \<Rightarrow> bool" where
  "token_ends token s \<longleftrightarrow> (rank s = 0 \<and> token = WHITE) \<or> token = TERMINATE"

lemma wait_token_send_state:
  "wait_token_send M s w = Inr (s', w') \<Longrightarrow> s' = s\<lparr>token_send_req := None\<rparr>"
  by (cases s) (auto simp: wait_token_send_def res_Inr split: option.splits)

lemma token_react_alt:
  "token_react M token (s\<lparr>token_is_local := True, token_send_req := None\<rparr>) w =
     (if token_ends token s then
        (let s1 = (take_token token s)\<lparr>token_buf := TERMINATE\<rparr>;
             (s', w') = (if rank s < nprocs s - 1 then tokenIsSend M s1 w else (s1, w))
         in (s'\<lparr>token_proc := TERMINATE\<rparr>, w'))
      else (take_token token s, w))"
proof (cases "token_proc s = BLACK \<and> token = BLACK")
  case True
  then show ?thesis by (simp add: token_react_def take_token_def token_ends_def)
next
  case False
  then have "take_token token s = s\<lparr>token_is_local := True, token_send_req := None, token_buf := token\<rparr>"
    by (cases s) (auto simp: take_token_def)
  with False show ?thesis
    by (cases "token_ends token s") (auto simp: token_react_def token_ends_def Let_def)
qed

context mpi_laws
begin

lemma tokenIsSend_eff:
  assumes "tokenIsSend M s w = (s', w')"
  shows "(ABORT_FLAG s \<noteq> 0 \<and> s' = s \<and> w' = w)
    \<or> (ABORT_FLAG s = 0 \<and> (\<exists>h. s' = s\<lparr>token_send_req := Some h, token_is_local := False\<rparr>)
        \<and> pend w' = (pend w)(token_out s := pend w (token_out s) @ [Ints [token_buf s]]))"
proof (cases "ABORT_FLAG s = 0")
  case True
  obtain h w1 where i: "MPI_Issend M (rank s) (token_dest s) TAG_TOKEN (Ints [token_buf s]) w = (h, w1)"
    by fastforce
  with True assms have "s' = s\<lparr>token_send_req := Some h, token_is_local := False\<rparr>" "w' = w1"
    by (simp_all add: tokenIsSend_def)
  with issend_law [OF i] True show ?thesis unfolding token_out_def by blast
next
  case False
  with assms show ?thesis by (simp add: tokenIsSend_def)
qed

lemma wait_token_send_pend:
  "wait_token_send M s w = Inr (s', w') \<Longrightarrow> pend w' = pend w"
  by (auto simp: wait_token_send_def res_Inr split: option.splits dest: wait_law)

lemma tokenRecv_eff:
  assumes "tokenRecv M s w = Inr (s', w')"
  shows "\<exists>token ps. pend w (token_in s) = Ints [token] # ps \<and>
    (let s1 = take_token token s; pend1 = (pend w)(token_in s := ps) in
     if \<not> token_ends token s then s' = s1 \<and> pend w' = pend1
     else if rank s < nprocs s - 1 \<and> ABORT_FLAG s = 0 then
       (\<exists>h. s' = s1\<lparr>token_buf := TERMINATE, token_send_req := Some h, token_is_local := False,
                    token_proc := TERMINATE\<rparr>)
       \<and> pend w' = pend1(token_out s := pend1 (token_out s) @ [Ints [TERMINATE]])
     else s' = s1\<lparr>token_buf := TERMINATE, token_proc := TERMINATE\<rparr> \<and> pend w' = pend1)"
proof -
  from assms obtain p w1 token s2 w2 where r: "recv M (rank s) (token_src s) TAG_TOKEN w = Inr (p, w1)"
    and p: "as_int p = Inr token"
    and wt: "wait_token_send M (s\<lparr>token_is_local := True\<rparr>) w1 = Inr (s2, w2)"
    and fin: "token_react M token s2 w2 = (s', w')"
    unfolding tokenRecv_def by (auto elim!: bind_res_InrE)
  obtain ps where ps: "pend w (token_in s) = p # ps" "pend w1 = (pend w)(token_in s := ps)"
    using recv_Inr [OF r] by (metis token_in_def)
  have p': "p = Ints [token]" using p by (auto elim: as_int_InrE)
  have s2: "s2 = s\<lparr>token_is_local := True, token_send_req := None\<rparr>"
    using wait_token_send_state [OF wt] by simp
  have w2: "pend w2 = (pend w)(token_in s := ps)"
    using wait_token_send_pend [OF wt] ps(2) by simp
  let ?s1 = "take_token token s"
  note fin' = fin [unfolded s2 token_react_alt]
  show ?thesis
  proof (cases "token_ends token s")
    case False
    with fin' w2 ps(1) p' show ?thesis by (auto simp: Let_def)
  next
    case ends: True
    show ?thesis
    proof (cases "rank s < nprocs s - 1")
      case True
      obtain s3 w3 where ts: "tokenIsSend M (?s1\<lparr>token_buf := TERMINATE\<rparr>) w2 = (s3, w3)" by fastforce
      have "rank ?s1 = rank s" "nprocs ?s1 = nprocs s" "token_out (?s1\<lparr>token_buf := TERMINATE\<rparr>) = token_out s"
        "ABORT_FLAG ?s1 = ABORT_FLAG s"
        by (simp_all add: take_token_def token_out_def)
      with fin' ends True ts tokenIsSend_eff [OF ts] w2 ps(1) p' show ?thesis
        by (auto simp: Let_def)
    next
      case False
      with fin' ends w2 ps(1) p' show ?thesis by (auto simp: Let_def take_token_def)
    qed
  qed
qed

lemma tokenRecv_cases:
  assumes "tokenRecv M s w = Inr (s', w')"
  obtains token ps where "pend w (token_in s) = Ints [token] # ps" "\<not> token_ends token s"
      "s' = take_token token s" "pend w' = (pend w)(token_in s := ps)"
  | token ps where "pend w (token_in s) = Ints [token] # ps" "token_ends token s" "token_proc s' = TERMINATE"
proof -
  obtain token ps where r: "pend w (token_in s) = Ints [token] # ps" and
    eff: "let s1 = take_token token s; pend1 = (pend w)(token_in s := ps) in
     if \<not> token_ends token s then s' = s1 \<and> pend w' = pend1
     else if rank s < nprocs s - 1 \<and> ABORT_FLAG s = 0 then
       (\<exists>h. s' = s1\<lparr>token_buf := TERMINATE, token_send_req := Some h, token_is_local := False,
                    token_proc := TERMINATE\<rparr>)
       \<and> pend w' = pend1(token_out s := pend1 (token_out s) @ [Ints [TERMINATE]])
     else s' = s1\<lparr>token_buf := TERMINATE, token_proc := TERMINATE\<rparr> \<and> pend w' = pend1"
    using tokenRecv_eff [OF assms] by blast
  show thesis
  proof (cases "token_ends token s")
    case True
    then have "token_proc s' = TERMINATE" using eff by (auto simp: Let_def split: if_splits)
    from that(2) [OF r True this] show thesis .
  next
    case False
    then have "s' = take_token token s" "pend w' = (pend w)(token_in s := ps)" using eff by (simp_all add: Let_def)
    from that(1) [OF r False this] show thesis .
  qed
qed

lemma tokenCheck_eff:
  assumes "tokenCheck M s w = Inr (s', w')"
  shows "(s' = s \<and> pend w' = pend w)
    \<or> (\<exists>w1. pend w1 = pend w \<and> tokenRecv M s w1 = Inr (s', w'))"
  using assms iprobe_pend by (fastforce simp: tokenCheck_def split: prod.splits option.splits)

text \<open>What \<open>checkForTerm\<close> does in a process that has not terminated and not aborted: it
  passes the token it holds on, or it looks for the token.\<close>

lemma checkForTerm_local:
  assumes "checkForTerm M s w = Inr (st, s', w')" "token_proc s \<noteq> TERMINATE" "ABORT_FLAG s = 0" "token_is_local s"
  shows "\<exists>b h. s' = s\<lparr>token_is_local := False, token_buf := b, token_proc := WHITE, token_send_req := Some h\<rparr>
    \<and> b = (if rank s = 0 then WHITE else if token_proc s = BLACK then BLACK else token_buf s)
    \<and> pend w' = (pend w)(token_out s := pend w (token_out s) @ [Ints [b]])"
proof -
  let ?b = "if rank s = 0 then WHITE else if token_proc s = BLACK then BLACK else token_buf s"
  let ?s1 = "s\<lparr>token_buf := ?b\<rparr>"
  have s1: "(if rank s = 0 then s\<lparr>token_buf := WHITE\<rparr> else if token_proc s = BLACK then s\<lparr>token_buf := BLACK\<rparr> else s) = ?s1"
    by (cases s) simp
  obtain s2 w2 where ts: "tokenIsSend M ?s1 w = (s2, w2)" by fastforce
  have fin: "s' = s2\<lparr>token_proc := WHITE\<rparr>" "w' = w2"
    using assms ts by (auto simp: checkForTerm_def s1 Let_def)
  obtain h where h: "s2 = ?s1\<lparr>token_send_req := Some h, token_is_local := False\<rparr>"
      "pend w2 = (pend w)(token_out s := pend w (token_out s) @ [Ints [?b]])"
    using tokenIsSend_eff [OF ts] assms(3) by (auto simp: token_out_def)
  show ?thesis
    by (intro exI [of _ ?b] exI [of _ h] conjI) (simp_all only: fin h, simp)
qed

lemma checkForTerm_remote:
  assumes "checkForTerm M s w = Inr (st, s', w')" "token_proc s \<noteq> TERMINATE" "\<not> token_is_local s"
  shows "(s' = s \<and> pend w' = pend w) \<or> (\<exists>w1. pend w1 = pend w \<and> tokenRecv M s w1 = Inr (s', w'))"
proof -
  have "tokenCheck M s w = Inr (s', w')"
    using assms by (auto simp: checkForTerm_def elim!: bind_res_InrE)
  then show ?thesis by (rule tokenCheck_eff)
qed

lemma checkForTerm_done: "token_proc s = TERMINATE \<Longrightarrow> checkForTerm M s w = Inr (TERMINATE, s, w)"
  by (simp add: checkForTerm_def)

end

text \<open>Nothing here touches the queue or any field but the token's.\<close>

definition token_update :: "bool \<Rightarrow> int \<Rightarrow> int \<Rightarrow> nat option \<Rightarrow> 'u state \<Rightarrow> 'u state" where
  "token_update lc tb tp tr s =
     s\<lparr>token_is_local := lc, token_buf := tb, token_proc := tp, token_send_req := tr\<rparr>"

lemma token_update_sel [simp, frame_simps]:
  "qp (token_update lc tb tp tr s) = qp s" "rank (token_update lc tb tp tr s) = rank s"
  "nprocs (token_update lc tb tp tr s) = nprocs s" "ABORT_FLAG (token_update lc tb tp tr s) = ABORT_FLAG s"
  "offsets_count (token_update lc tb tp tr s) = offsets_count s"
  "next_processor (token_update lc tb tp tr s) = next_processor s"
  "work_requested (token_update lc tb tp tr s) = work_requested s"
  "work_requested_rank (token_update lc tb tp tr s) = work_requested_rank s"
  "work_outstanding (token_update lc tb tp tr s) = work_outstanding s"
  "token_src (token_update lc tb tp tr s) = token_src s" "token_dest (token_update lc tb tp tr s) = token_dest s"
  "token_is_local (token_update lc tb tp tr s) = lc" "token_buf (token_update lc tb tp tr s) = tb"
  "token_proc (token_update lc tb tp tr s) = tp"
  by (simp_all add: token_update_def)

lemma token_update_id: "token_update (token_is_local s) (token_buf s) (token_proc s) (token_send_req s) s = s"
  by (simp add: token_update_def)

context mpi_laws
begin

lemma tokenRecv_frame:
  assumes "tokenRecv M s w = Inr (s', w')" "token_dest s = d"
  shows "\<exists>lc tb tp tr. s' = token_update lc tb tp tr s \<and> (token_proc s = TERMINATE \<longrightarrow> tp = TERMINATE)"
    "\<And>a b t. t \<noteq> TAG_TOKEN \<Longrightarrow> pend w' (a, b, t) = pend w (a, b, t)"
proof -
  obtain token ps where r: "pend w (token_in s) = Ints [token] # ps" and
    eff: "let s1 = take_token token s; pend1 = (pend w)(token_in s := ps) in
     if \<not> token_ends token s then s' = s1 \<and> pend w' = pend1
     else if rank s < nprocs s - 1 \<and> ABORT_FLAG s = 0 then
       (\<exists>h. s' = s1\<lparr>token_buf := TERMINATE, token_send_req := Some h, token_is_local := False,
                    token_proc := TERMINATE\<rparr>)
       \<and> pend w' = pend1(token_out s := pend1 (token_out s) @ [Ints [TERMINATE]])
     else s' = s1\<lparr>token_buf := TERMINATE, token_proc := TERMINATE\<rparr> \<and> pend w' = pend1"
    using tokenRecv_eff [OF assms(1)] by blast
  have t1: "take_token token s = token_update True token
      (if token_proc s = BLACK \<and> token = BLACK then WHITE else token_proc s) None s"
    by (cases s) (simp add: take_token_def token_update_def)
  show "\<exists>lc tb tp tr. s' = token_update lc tb tp tr s \<and> (token_proc s = TERMINATE \<longrightarrow> tp = TERMINATE)"
  proof (cases "token_ends token s")
    case False
    with eff show ?thesis unfolding t1 Let_def by auto
  next
    case True
    show ?thesis
    proof (cases "rank s < nprocs s - 1 \<and> ABORT_FLAG s = 0")
      case yes: True
      with eff True obtain h where "s' = (take_token token s)\<lparr>token_buf := TERMINATE, token_send_req := Some h,
          token_is_local := False, token_proc := TERMINATE\<rparr>" by (auto simp: Let_def)
      then have "s' = token_update False TERMINATE TERMINATE (Some h) s" unfolding t1 by (simp add: token_update_def)
      then show ?thesis by blast
    next
      case no: False
      with eff True have "s' = (take_token token s)\<lparr>token_buf := TERMINATE, token_proc := TERMINATE\<rparr>"
        by (auto simp: Let_def)
      then have "s' = token_update True TERMINATE TERMINATE None s" unfolding t1 by (simp add: token_update_def)
      then show ?thesis by blast
    qed
  qed
  show "pend w' (a, b, t) = pend w (a, b, t)" if "t \<noteq> TAG_TOKEN" for a b t
    using eff that by (auto simp: Let_def token_in_def token_out_def split: if_splits)
qed

lemma checkForTerm_frame:
  assumes "checkForTerm M s w = Inr (st, s', w')"
  shows "\<exists>lc tb tp tr. s' = token_update lc tb tp tr s \<and> (token_proc s = TERMINATE \<longrightarrow> tp = TERMINATE)"
    "\<And>a b t. t \<noteq> TAG_TOKEN \<Longrightarrow> pend w' (a, b, t) = pend w (a, b, t)"
proof -
  have same: "\<exists>lc tb tp tr. s = token_update lc tb tp tr s \<and> (token_proc s = TERMINATE \<longrightarrow> tp = TERMINATE)"
    using token_update_id [of s] by metis
  consider "token_proc s = TERMINATE" | "token_proc s \<noteq> TERMINATE" "token_is_local s"
    | "token_proc s \<noteq> TERMINATE" "\<not> token_is_local s" by blast
  then have "(\<exists>lc tb tp tr. s' = token_update lc tb tp tr s \<and> (token_proc s = TERMINATE \<longrightarrow> tp = TERMINATE))
    \<and> (\<forall>a b t. t \<noteq> TAG_TOKEN \<longrightarrow> pend w' (a, b, t) = pend w (a, b, t))"
  proof cases
    case 1
    with assms same show ?thesis by (simp add: checkForTerm_def)
  next
    case 2
    obtain s1 s2 w2 where s1: "\<exists>tb. s1 = s\<lparr>token_buf := tb\<rparr>" and ts: "tokenIsSend M s1 w = (s2, w2)"
      and fin: "s' = s2\<lparr>token_proc := WHITE\<rparr>" "w' = w2"
    proof -
      let ?s1 = "if rank s = 0 then s\<lparr>token_buf := WHITE\<rparr> else if token_proc s = BLACK then s\<lparr>token_buf := BLACK\<rparr> else s"
      have "?s1 = s\<lparr>token_buf := if rank s = 0 then WHITE else if token_proc s = BLACK then BLACK else token_buf s\<rparr>"
        by simp
      then have "\<exists>tb. ?s1 = s\<lparr>token_buf := tb\<rparr>" by blast
      moreover obtain s2 w2 where "tokenIsSend M ?s1 w = (s2, w2)" by fastforce
      moreover from this have "s' = s2\<lparr>token_proc := WHITE\<rparr>" "w' = w2"
        using assms 2 by (auto simp: checkForTerm_def Let_def)
      ultimately show thesis by (rule that)
    qed
    have "(\<exists>lc tr. s2 = s1\<lparr>token_send_req := tr, token_is_local := lc\<rparr>)
      \<and> (\<forall>a b t. t \<noteq> TAG_TOKEN \<longrightarrow> pend w2 (a, b, t) = pend w (a, b, t))"
    proof -
      have e: "s1 = s1\<lparr>token_send_req := token_send_req s1, token_is_local := token_is_local s1\<rparr>" by simp
      have "(\<exists>lc tr. s2 = s1\<lparr>token_send_req := tr, token_is_local := lc\<rparr>)"
        using tokenIsSend_eff [OF ts] e by metis
      moreover have "\<forall>a b t. t \<noteq> TAG_TOKEN \<longrightarrow> pend w2 (a, b, t) = pend w (a, b, t)"
        using tokenIsSend_eff [OF ts] by (auto simp: token_out_def)
      ultimately show ?thesis by blast
    qed
    then obtain lc tr tb where "s2 = s\<lparr>token_buf := tb, token_send_req := tr, token_is_local := lc\<rparr>"
      and p: "\<forall>a b t. t \<noteq> TAG_TOKEN \<longrightarrow> pend w2 (a, b, t) = pend w (a, b, t)"
      using s1 by auto
    then have "s' = token_update lc tb WHITE tr s" using fin by (simp add: token_update_def)
    then show ?thesis using p fin(2) 2(1) by blast
  next
    case 3
    from checkForTerm_remote [OF assms this] show ?thesis
    proof (elim disjE exE conjE)
      assume "s' = s" "pend w' = pend w"
      with same show ?thesis by simp
    next
      fix w1 assume w1: "pend w1 = pend w" "tokenRecv M s w1 = Inr (s', w')"
      from tokenRecv_frame [OF w1(2) refl] w1(1) show ?thesis by simp
    qed
  qed
  then show "\<exists>lc tb tp tr. s' = token_update lc tb tp tr s \<and> (token_proc s = TERMINATE \<longrightarrow> tp = TERMINATE)"
    "\<And>a b t. t \<noteq> TAG_TOKEN \<Longrightarrow> pend w' (a, b, t) = pend w (a, b, t)" by blast+
qed

end

end
