(* ===== verification/Circle_Collective.thy ===== *)
theory Circle_Collective
  imports Circle_State
begin

unbundle bit_operations_syntax

text \<open>
  The operations of \<open>src/state.cpp\<close> that run over the spawn tree, apart from the
  reduction of user data: the barrier of the cleanup phase (\<open>barrierStart\<close>,
  \<open>barrierTest\<close>), the termination allreduce (\<open>checkForTermAllReduce\<close>) and the abort
  messages (\<open>abortStart\<close>, \<open>abortCheck\<close>, \<open>abortReduce\<close>).
\<close>

section \<open>Barrier\<close>

definition barrierStart :: "'u state \<Rightarrow> 'u state" where
  "barrierStart s = s\<lparr>barrier_started := True\<rparr>"

text \<open>One message of a child, if there is one.\<close>

definition barrier_collect :: "'w mpi \<Rightarrow> 'u state \<Rightarrow> 'w \<Rightarrow> ('u state \<times> 'w) res" where
  "barrier_collect M s w =
     (if barrier_replies s < getChildrenCount (tree s) then
        (case MPI_Iprobe M (rank s) None TAG_BARRIER w of
          (None, w) \<Rightarrow> Inr (s, w)
        | (Some st, w) \<Rightarrow>
            bind_res (recv M (rank s) (MPI_SOURCE st) TAG_BARRIER w) (\<lambda>(_, w).
              Inr (s\<lparr>barrier_replies := barrier_replies s + 1\<rparr>, w)))
      else Inr (s, w))"

definition barrier_send_up :: "'w mpi \<Rightarrow> 'u state \<Rightarrow> 'w \<Rightarrow> ('u state \<times> 'w) res" where
  "barrier_send_up M s w =
     (if \<not> barrier_up s \<and> barrier_replies s = getChildrenCount (tree s) then
        bind_res (case getParentRank (tree s) of
            Some p \<Rightarrow> send M (rank s) p TAG_BARRIER Empty w
          | None \<Rightarrow> Inr w)
          (\<lambda>w. Inr (s\<lparr>barrier_up := True\<rparr>, w))
      else Inr (s, w))"

definition barrier_from_parent :: "'w mpi \<Rightarrow> 'u state \<Rightarrow> 'w \<Rightarrow> (bool \<times> 'w) res" where
  "barrier_from_parent M s w =
     (if barrier_up s then
        (case getParentRank (tree s) of
          None \<Rightarrow> Inr (True, w)
        | Some p \<Rightarrow>
            (case MPI_Iprobe M (rank s) (Some p) TAG_BARRIER w of
              (None, w) \<Rightarrow> Inr (False, w)
            | (Some _, w) \<Rightarrow> bind_res (recv M (rank s) p TAG_BARRIER w) (\<lambda>(_, w). Inr (True, w))))
      else Inr (False, w))"

definition barrierTest :: "'w mpi \<Rightarrow> 'u state \<Rightarrow> 'w \<Rightarrow> (bool \<times> 'u state \<times> 'w) res" where
  "barrierTest M s w =
     (if \<not> barrier_started s then Inr (False, s, w)
      else
        bind_res (barrier_collect M s w) (\<lambda>(s, w).
        bind_res (barrier_send_up M s w) (\<lambda>(s, w).
        bind_res (barrier_from_parent M s w) (\<lambda>(complete, w).
          if complete then
            bind_res (send_each M (rank s) TAG_BARRIER Empty (child_list (tree s)) w) (\<lambda>w.
              Inr (True, s\<lparr>barrier_started := False, barrier_up := False, barrier_replies := 0\<rparr>, w))
          else Inr (False, s, w)))))"

section \<open>Termination allreduce\<close>

text \<open>The loop that receives the flags of the children.\<close>

function term_collect :: "'w mpi \<Rightarrow> 'u state \<Rightarrow> 'w \<Rightarrow> ('u state \<times> 'w) res" where
  "term_collect M s w =
     (if term_replies s < getChildrenCount (tree s) then
        (case MPI_Iprobe M (rank s) None TAG_TERM w of
          (None, w) \<Rightarrow> Inr (s, w)
        | (Some st, w) \<Rightarrow>
            bind_res (recv M (rank s) (MPI_SOURCE st) TAG_TERM w) (\<lambda>(p, w).
            bind_res (as_int p) (\<lambda>child_flag.
              term_collect M (s\<lparr>term_flag := term_flag s AND child_flag,
                               term_replies := term_replies s + 1\<rparr>) w)))
      else Inr (s, w))"
  by pat_completeness auto
termination
  by (relation "measure (\<lambda>(M, s, w). nat (getChildrenCount (tree s) - term_replies s))") auto

declare term_collect.simps [simp del]

text \<open>
  From here on \<open>checkForTermAllReduce\<close> declares a local variable \<open>term_flag\<close> that hides
  the field: it is 0 when it is sent to the parent, and 1 afterwards.  The model has it
  as the argument and the result \<open>flag\<close>.
\<close>

definition term_send_up :: "'w mpi \<Rightarrow> int \<Rightarrow> 'u state \<Rightarrow> 'w \<Rightarrow> (int \<times> 'u state \<times> 'w) res" where
  "term_send_up M flag s w =
     (if \<not> term_up s \<and> term_replies s = getChildrenCount (tree s) then
        bind_res (case getParentRank (tree s) of
            Some p \<Rightarrow> send M (rank s) p TAG_TERM (Ints [flag]) w
          | None \<Rightarrow> Inr w)
          (\<lambda>w. Inr (1, s\<lparr>term_up := True\<rparr>, w))
      else Inr (flag, s, w))"

definition term_from_parent :: "'w mpi \<Rightarrow> int \<Rightarrow> 'u state \<Rightarrow> 'w \<Rightarrow> (bool \<times> int \<times> 'w) res" where
  "term_from_parent M flag s w =
     (if term_up s then
        (case getParentRank (tree s) of
          None \<Rightarrow> Inr (True, flag, w)
        | Some p \<Rightarrow>
            (case MPI_Iprobe M (rank s) (Some p) TAG_TERM w of
              (None, w) \<Rightarrow> Inr (False, flag, w)
            | (Some _, w) \<Rightarrow>
                bind_res (recv M (rank s) p TAG_TERM w) (\<lambda>(pl, w).
                bind_res (as_int pl) (\<lambda>flag. Inr (True, flag, w)))))
      else Inr (False, flag, w))"

definition checkForTermAllReduce :: "'w mpi \<Rightarrow> 'u state \<Rightarrow> 'w \<Rightarrow> (int \<times> 'u state \<times> 'w) res" where
  "checkForTermAllReduce M s w =
     bind_res (term_collect M s w) (\<lambda>(s, w).
       if work_outstanding s > 0 then Inr (WHITE, s, w)
       else
         bind_res (term_send_up M 0 s w) (\<lambda>(flag, s, w).
         bind_res (term_from_parent M flag s w) (\<lambda>(complete, flag, w).
         bind_res (if complete then
             bind_res (send_each M (rank s) TAG_TERM (Ints [flag]) (child_list (tree s)) w)
               (\<lambda>w. Inr (s\<lparr>term_up := False, term_replies := 0\<rparr>, w))
           else Inr (s, w)) (\<lambda>(s, w).
           Inr (if complete \<and> flag \<noteq> 0 then TERMINATE else WHITE, s, w)))))"

section \<open>Abort\<close>

text \<open>Post the receive of the reply and send the request, for each neighbour in the tree.\<close>

fun abort_neighbours :: "'w mpi \<Rightarrow> int \<Rightarrow> int list \<Rightarrow> 'w \<Rightarrow> MPI_Request list \<times> 'w" where
  "abort_neighbours M me [] w = ([], w)"
| "abort_neighbours M me (d # ds) w =
     (case MPI_Irecv M me d TAG_ABORT_REPLY w of (h, w) \<Rightarrow>
      case MPI_Isend M me d TAG_ABORT_REQUEST Empty w of (h', w) \<Rightarrow>
      case abort_neighbours M me ds w of (rs, w) \<Rightarrow>
        (Recv_req h (d, me, TAG_ABORT_REPLY) # Send_req h' # rs, w))"

definition tree_neighbours :: "tree_state \<Rightarrow> int list" where
  "tree_neighbours t = (case getParentRank t of Some p \<Rightarrow> [p] | None \<Rightarrow> []) @ child_list t"

definition abortStart :: "'w mpi \<Rightarrow> bool \<Rightarrow> 'u state \<Rightarrow> 'w \<Rightarrow> 'u state \<times> 'w" where
  "abortStart M cleanup s w =
     (let s = s\<lparr>ABORT_FLAG := 1\<rparr> in
      if abort_state s \<noteq> 0 then (s, w)
      else
        let s = s\<lparr>abort_state := 1\<rparr> in
        if cleanup then (s, w)
        else (case abort_neighbours M (rank s) (tree_neighbours (tree s)) w of (rs, w) \<Rightarrow>
          let s = s\<lparr>abort_req := rs\<rparr> in
          (if rs \<noteq> [] then s\<lparr>abort_outstanding := True\<rparr> else s, w)))"

definition abort_request :: "'w mpi \<Rightarrow> bool \<Rightarrow> 'u state \<Rightarrow> 'w \<Rightarrow> ('u state \<times> 'w) res" where
  "abort_request M cleanup s w =
     (case MPI_Iprobe M (rank s) None TAG_ABORT_REQUEST w of
       (None, w) \<Rightarrow> Inr (s, w)
     | (Some st, w) \<Rightarrow>
         bind_res (recv M (rank s) (MPI_SOURCE st) TAG_ABORT_REQUEST w) (\<lambda>(_, w).
         bind_res (send M (rank s) (MPI_SOURCE st) TAG_ABORT_REPLY Empty w) (\<lambda>w.
           Inr (abortStart M cleanup s w))))"

definition abortCheck :: "'w mpi \<Rightarrow> bool \<Rightarrow> 'u state \<Rightarrow> 'w \<Rightarrow> ('u state \<times> 'w) res" where
  "abortCheck M cleanup s w =
     (case (if ABORT_FLAG s \<noteq> 0 then abortStart M cleanup s w else (s, w)) of (s, w) \<Rightarrow>
      bind_res (abort_request M cleanup s w) (\<lambda>(s, w).
        if abort_outstanding s then
          (case MPI_Testall M (rank s) (abort_req s) w of (flag, w) \<Rightarrow>
            Inr (if flag then s\<lparr>abort_outstanding := False\<rparr> else s, w))
        else Inr (s, w)))"

text \<open>The loop over the children of \<open>abortReduce\<close>, with blocking receives.\<close>

fun or_children :: "'w mpi \<Rightarrow> int \<Rightarrow> int list \<Rightarrow> int \<Rightarrow> 'w \<Rightarrow> (int \<times> 'w) res" where
  "or_children M me [] flag w = Inr (flag, w)"
| "or_children M me (c # cs) flag w =
     bind_res (recv M me c TAG_ABORT_REDUCE w) (\<lambda>(p, w).
     bind_res (as_int p) (\<lambda>child_flag. or_children M me cs (flag OR child_flag) w))"

definition to_int8 :: "int \<Rightarrow> int" where
  "to_int8 x = (x + 128) mod 256 - 128"

definition abortReduce :: "'w mpi \<Rightarrow> 'u state \<Rightarrow> 'w \<Rightarrow> ('u state \<times> 'w) res" where
  "abortReduce M s w =
     bind_res (or_children M (rank s) (child_list (tree s)) (ABORT_FLAG s) w) (\<lambda>(flag, w).
     bind_res (case getParentRank (tree s) of
         Some p \<Rightarrow>
           bind_res (send M (rank s) p TAG_ABORT_REDUCE (Ints [flag]) w) (\<lambda>w.
           bind_res (recv M (rank s) p TAG_ABORT_REDUCE w) (\<lambda>(pl, w).
           bind_res (as_int pl) (\<lambda>flag. Inr (flag, w))))
       | None \<Rightarrow> Inr (flag, w)) (\<lambda>(flag, w).
     bind_res (send_each M (rank s) TAG_ABORT_REDUCE (Ints [flag]) (child_list (tree s)) w) (\<lambda>w.
       Inr (s\<lparr>ABORT_FLAG := to_int8 flag, abort_state := flag\<rparr>, w))))"

end
