(* ===== verification/Circle_Reduce.thy ===== *)
theory Circle_Reduce
  imports Circle_State
begin

text \<open>
  Reductions of user data over the spawn tree, of \<open>src/state.cpp\<close>: \<open>reduceCheck\<close>, which
  progresses one in the background of the work loop, and \<open>reduceSync\<close>, the final one.
  The three numbers of \<open>local_reduce_buf\<close> are the validity, the number of objects
  processed and the number of bytes of user data; the sums are taken in 64 bits, which
  sums of 32-bit counters cannot leave, so the model has them as \<open>int\<close>.
\<close>

section \<open>Pieces shared by both\<close>

text \<open>User data of a child: \<open>sz\<close> is the third number of its header.  The result of
  \<open>malloc\<close> is not tested; receiving into a null pointer is an MPI error.\<close>

definition recv_user_data ::
  "env \<Rightarrow> 'w mpi \<Rightarrow> int \<Rightarrow> int \<Rightarrow> int \<Rightarrow> 'w \<Rightarrow> (byte list option \<times> 'w) res" where
  "recv_user_data E M me child sz w =
     (let insize = to_size sz in
      if insize > 0 then
        (let bytes = to_int32 insize in
         guard_res (malloc_ok E insize) Mpi_error
         (bind_res (recv M me child TAG_REDUCE w) (\<lambda>(p, w).
          bind_res (as_bytes p) (\<lambda>data.
          guard_res (int (length data) \<le> bytes) Mpi_error (Inr (Some data, w))))))
      else Inr (None, w))"

definition reduce_operation ::
  "'u callbacks \<Rightarrow> byte list option \<Rightarrow> nat \<Rightarrow> 'u state \<Rightarrow> 'u state res" where
  "reduce_operation cb inbuf insize s =
     (case reduceOperationCallback cb of
       None \<Rightarrow> Inr s
     | Some f \<Rightarrow> bind_res (f (circ s) (reduce_buf (circ s)) (reduce_buf_size (circ s)) inbuf insize)
         (\<lambda>c. Inr (s\<lparr>circ := c\<rparr>)))"

definition reduce_init :: "'u callbacks \<Rightarrow> 'u state \<Rightarrow> 'u state res" where
  "reduce_init cb s =
     (case reduceInitCallback cb of
       None \<Rightarrow> Inr s
     | Some f \<Rightarrow> bind_res (f (circ s)) (\<lambda>c. Inr (s\<lparr>circ := c\<rparr>)))"

definition reduce_finalize :: "'u callbacks \<Rightarrow> 'u state \<Rightarrow> 'u state res" where
  "reduce_finalize cb s =
     (case reduceFinalizeCallback cb of
       None \<Rightarrow> Inr s
     | Some f \<Rightarrow> bind_res (f (circ s) (reduce_buf (circ s)) (reduce_buf_size (circ s)))
         (\<lambda>c. Inr (s\<lparr>circ := c\<rparr>)))"

text \<open>The partial result goes to the parent, and the user data when \<open>with_data\<close> holds.\<close>

definition send_user_data :: "'w mpi \<Rightarrow> int \<Rightarrow> int \<Rightarrow> 'u state \<Rightarrow> 'w \<Rightarrow> 'w res" where
  "send_user_data M p bytes s w =
     (case reduce_buf (circ s) of
       None \<Rightarrow> Inl Mpi_error
     | Some b \<Rightarrow> guard_res (nat bytes \<le> length b) Undefined
         (send M (rank s) p TAG_REDUCE (Bytes (take (nat bytes) b)) w))"

definition send_partial ::
  "'w mpi \<Rightarrow> (int \<Rightarrow> bool) \<Rightarrow> int \<Rightarrow> 'u state \<Rightarrow> 'w \<Rightarrow> ('u state \<times> 'w) res" where
  "send_partial M data_if p s w =
     (let bytes = to_int32 (reduce_buf_size (circ s)) in
      case local_reduce_buf s of (valid, tot, _) \<Rightarrow>
        let s = s\<lparr>local_reduce_buf := (valid, tot, bytes)\<rparr> in
        bind_res (send M (rank s) p TAG_REDUCE (Longs [valid, tot, bytes]) w) (\<lambda>w.
          if bytes > 0 \<and> data_if valid
          then bind_res (send_user_data M p bytes s w) (\<lambda>w. Inr (s, w))
          else Inr (s, w)))"

section \<open>Background reduction\<close>

definition reduce_child ::
  "env \<Rightarrow> 'w mpi \<Rightarrow> 'u callbacks \<Rightarrow> int \<Rightarrow> 'u state \<Rightarrow> 'w \<Rightarrow> ('u state \<times> 'w) res" where
  "reduce_child E M cb child s w =
     (case MPI_Iprobe M (rank s) (Some child) TAG_REDUCE w of
       (None, w) \<Rightarrow> Inr (s, w)
     | (Some _, w) \<Rightarrow>
         bind_res (recv M (rank s) child TAG_REDUCE w) (\<lambda>(p, w).
         bind_res (as_longs3 p) (\<lambda>(valid, cnt, sz).
           let s = s\<lparr>reduce_replies := reduce_replies s + 1\<rparr> in
           case local_reduce_buf s of (v, tot, b) \<Rightarrow>
             if valid = MSG_INVALID then Inr (s\<lparr>local_reduce_buf := (MSG_INVALID, tot, b)\<rparr>, w)
             else
               let s = s\<lparr>local_reduce_buf := (v, tot + cnt, b)\<rparr> in
               bind_res (recv_user_data E M (rank s) child sz w) (\<lambda>(inbuf, w).
               bind_res (if v = MSG_VALID then reduce_operation cb inbuf (to_size sz) s else Inr s)
                 (\<lambda>s. Inr (s, w))))))"

fun reduce_children ::
  "env \<Rightarrow> 'w mpi \<Rightarrow> 'u callbacks \<Rightarrow> int list \<Rightarrow> 'u state \<Rightarrow> 'w \<Rightarrow> ('u state \<times> 'w) res" where
  "reduce_children E M cb [] s w = Inr (s, w)"
| "reduce_children E M cb (c # cs) s w =
     bind_res (reduce_child E M cb c s w) (\<lambda>(s, w). reduce_children E M cb cs s w)"

definition reduce_complete ::
  "'w mpi \<Rightarrow> 'u callbacks \<Rightarrow> int \<Rightarrow> 'u state \<Rightarrow> 'w \<Rightarrow> ('u state \<times> 'w) res" where
  "reduce_complete M cb count s w =
     (case local_reduce_buf s of (valid, tot, b) \<Rightarrow>
        let s = s\<lparr>local_reduce_buf := (valid, tot + count, b)\<rparr> in
        bind_res (case getParentRank (tree s) of
            Some p \<Rightarrow> send_partial M (\<lambda>valid. valid = MSG_VALID) p s w
          | None \<Rightarrow>
              bind_res (if valid = MSG_VALID then reduce_finalize cb s else Inr s) (\<lambda>s. Inr (s, w)))
          (\<lambda>(s, w). Inr (s\<lparr>reduce_outstanding := False\<rparr>, w)))"

text \<open>Whether a process starts a reduction: the root when it is time, another process when
  its parent has sent it a message.\<close>

definition reduce_start :: "'w mpi \<Rightarrow> bool \<Rightarrow> real \<Rightarrow> 'u state \<Rightarrow> 'w \<Rightarrow> (bool \<times> 'w) res" where
  "reduce_start M cleanup time_now s w =
     (let time_next = reduce_time_last s + reduce_time_interval s in
      if time_now \<ge> time_next \<or> cleanup then
        (case getParentRank (tree s) of
          None \<Rightarrow> Inr (True, w)
        | Some p \<Rightarrow>
            (case MPI_Iprobe M (rank s) (Some p) TAG_REDUCE w of
              (None, w) \<Rightarrow> Inr (False, w)
            | (Some _, w) \<Rightarrow> bind_res (recv M (rank s) p TAG_REDUCE w) (\<lambda>(_, w). Inr (True, w))))
      else Inr (False, w))"

definition reduceCheck ::
  "env \<Rightarrow> 'w mpi \<Rightarrow> 'u callbacks \<Rightarrow> int \<Rightarrow> bool \<Rightarrow> 'u state \<Rightarrow> 'w \<Rightarrow> ('u state \<times> 'w) res" where
  "reduceCheck E M cb count cleanup s w =
     (if reduce_outstanding s then
        bind_res (reduce_children E M cb (child_list (tree s)) s w) (\<lambda>(s, w).
          if reduce_replies s = getChildrenCount (tree s) then reduce_complete M cb count s w
          else Inr (s, w))
      else
        (case MPI_Wtime M (rank s) w of (time_now, w) \<Rightarrow>
         bind_res (reduce_start M cleanup time_now s w) (\<lambda>(start_reduce, w).
           if start_reduce \<and> cleanup then
             (case getParentRank (tree s) of
               None \<Rightarrow> Inr (s, w)
             | Some p \<Rightarrow>
                 (case local_reduce_buf s of (_, tot, b) \<Rightarrow>
                   bind_res (send M (rank s) p TAG_REDUCE (Longs [MSG_INVALID, tot, b]) w) (\<lambda>w.
                     Inr (s\<lparr>local_reduce_buf := (MSG_INVALID, tot, b)\<rparr>, w))))
           else if start_reduce then
             bind_res (reduce_init cb (s\<lparr>reduce_time_last := time_now, reduce_outstanding := True,
                 reduce_replies := 0, local_reduce_buf := (MSG_VALID, 0, 0)\<rparr>)) (\<lambda>s.
             bind_res (send_each M (rank s) TAG_REDUCE Empty (child_list (tree s)) w) (\<lambda>w.
               Inr (s, w)))
           else Inr (s, w))))"

section \<open>Final reduction\<close>

definition sync_child ::
  "env \<Rightarrow> 'w mpi \<Rightarrow> 'u callbacks \<Rightarrow> int \<Rightarrow> 'u state \<Rightarrow> 'w \<Rightarrow> ('u state \<times> 'w) res" where
  "sync_child E M cb child s w =
     bind_res (recv M (rank s) child TAG_REDUCE w) (\<lambda>(p, w).
     bind_res (as_longs3 p) (\<lambda>(_, cnt, sz).
       case local_reduce_buf s of (v, tot, b) \<Rightarrow>
         let s = s\<lparr>local_reduce_buf := (v, tot + cnt, b)\<rparr> in
         bind_res (recv_user_data E M (rank s) child sz w) (\<lambda>(inbuf, w).
         bind_res (reduce_operation cb inbuf (to_size sz) s) (\<lambda>s. Inr (s, w)))))"

fun sync_children ::
  "env \<Rightarrow> 'w mpi \<Rightarrow> 'u callbacks \<Rightarrow> int list \<Rightarrow> 'u state \<Rightarrow> 'w \<Rightarrow> ('u state \<times> 'w) res" where
  "sync_children E M cb [] s w = Inr (s, w)"
| "sync_children E M cb (c # cs) s w =
     bind_res (sync_child E M cb c s w) (\<lambda>(s, w). sync_children E M cb cs s w)"

definition reduceSync ::
  "env \<Rightarrow> 'w mpi \<Rightarrow> 'u callbacks \<Rightarrow> int \<Rightarrow> 'u state \<Rightarrow> 'w \<Rightarrow> ('u state \<times> 'w) res" where
  "reduceSync E M cb count s w =
     bind_res (reduce_init cb (s\<lparr>local_reduce_buf := (MSG_VALID, count, 0)\<rparr>)) (\<lambda>s.
     bind_res (sync_children E M cb (child_list (tree s)) s w) (\<lambda>(s, w).
       case getParentRank (tree s) of
         Some p \<Rightarrow> send_partial M (\<lambda>_. True) p s w
       | None \<Rightarrow> bind_res (reduce_finalize cb s) (\<lambda>s. Inr (s, w))))"

section \<open>A missing buffer\<close>

text \<open>The size of the user's buffer is not tied to the buffer: without a buffer, and with a size
  above zero, a process other than the root cannot deliver its partial result.\<close>

lemma send_partial_no_buffer:
  assumes "reduce_buf (circ s) = None" "0 < to_int32 (reduce_buf_size (circ s))"
    "data_if (fst (local_reduce_buf s))"
  shows "isl (send_partial M data_if p s w)"
  using assms
  by (cases "local_reduce_buf s")
    (auto simp: send_partial_def send_user_data_def Let_def send_def opt_res_def split: option.splits)

text \<open>\<open>Circle::reduce\<close> with an empty buffer forgets the buffer and keeps the size.\<close>

lemma reduce_nothing: "reduce E [] c = c\<lparr>reduce_buf := None\<rparr>"
  by (simp add: reduce_def)

lemma reduce_something: "malloc_ok E (length b) \<Longrightarrow> b \<noteq> [] \<Longrightarrow>
    reduce E b c = c\<lparr>reduce_buf := Some b, reduce_buf_size := length b\<rparr>"
  by (simp add: reduce_def Let_def)

end
