(* ===== verification/Circle_MainLoop.thy ===== *)
theory Circle_MainLoop
  imports Circle_Token Circle_Work Circle_Collective Circle_Reduce
begin

text \<open>
  The work loop, the cleanup loop and what follows them (\<open>State::mainLoop\<close> of
  \<open>src/state.cpp\<close>), and \<open>CircleImpl::execute\<close> of \<open>src/circle.cpp\<close>.  The bodies of the
  loops are functions; the loops themselves may run for ever, so they are partial
  functions into \<open>option\<close>: \<open>None\<close> is that the loop does not end.
\<close>

section \<open>The work loop\<close>

definition process_one :: "'u callbacks \<Rightarrow> 'u state \<Rightarrow> 'u state res" where
  "process_one cb s =
     bind_res (processCallback cb (circ s)) (\<lambda>c.
     bind_res (ck_int (local_objects_processed s + 1)) (\<lambda>n.
       Inr (s\<lparr>circ := c, local_objects_processed := n\<rparr>)))"

text \<open>One iteration; the first component of the result is that the loop is left.\<close>

definition work_step :: "env \<Rightarrow> 'w mpi \<Rightarrow> 'u callbacks \<Rightarrow> 'u state \<Rightarrow> 'w \<Rightarrow> (bool \<times> 'u state \<times> 'w) res" where
  "work_step E M cb s w =
     bind_res (workreqCheck E M False s w) (\<lambda>(s, w).
     bind_res (workreceiptCheck M s w) (\<lambda>(s, w).
     bind_res (abortCheck M False s w) (\<lambda>(s, w).
     bind_res (if reduce_enabled s then reduceCheck E M cb (local_objects_processed s) False s w
               else Inr (s, w)) (\<lambda>(s, w).
     bind_res (if qcount (qp s) = 0
               then bind_res (requestWork E M False s w) (\<lambda>(_, s, w). Inr (s, w))
               else Inr (s, w)) (\<lambda>(s, w).
       if qcount (qp s) > 0 \<and> ABORT_FLAG s = 0 then
         bind_res (process_one cb s) (\<lambda>s. Inr (False, s, w))
       else
         bind_res (if term_tree_enabled s then checkForTermAllReduce M s w else checkForTerm M s w)
           (\<lambda>(term_status, s, w). Inr (term_status = TERMINATE, s, w)))))))"

partial_function (option) work_loop ::
  "env \<Rightarrow> 'w mpi \<Rightarrow> 'u callbacks \<Rightarrow> 'u state \<Rightarrow> 'w \<Rightarrow> ('u state \<times> 'w) res option" where
  "work_loop E M cb s w =
     (case work_step E M cb s w of
       Inl e \<Rightarrow> Some (Inl e)
     | Inr (leave, s, w) \<Rightarrow> if leave then Some (Inr (s, w)) else work_loop E M cb s w)"

declare work_loop.simps [code]

section \<open>The cleanup loop\<close>

definition ready_for_barrier :: "'u state \<Rightarrow> bool" where
  "ready_for_barrier s \<longleftrightarrow>
     \<not> work_requested s \<and> \<not> reduce_outstanding s \<and> \<not> abort_outstanding s \<and> token_send_req s = None"

text \<open>Testing the outstanding send of the token clears the request when it is complete.\<close>

definition drain_token :: "'w mpi \<Rightarrow> 'u state \<Rightarrow> 'w \<Rightarrow> ('u state \<times> 'w) res" where
  "drain_token M s w =
     bind_res (tokenCheck M s w) (\<lambda>(s, w).
       case token_send_req s of
         None \<Rightarrow> Inr (s, w)
       | Some req \<Rightarrow>
           (case MPI_Test M (rank s) req w of (flag, w) \<Rightarrow>
             Inr (if flag then s\<lparr>token_send_req := None\<rparr> else s, w)))"

definition cleanup_step :: "env \<Rightarrow> 'w mpi \<Rightarrow> 'u callbacks \<Rightarrow> 'u state \<Rightarrow> 'w \<Rightarrow> (bool \<times> 'u state \<times> 'w) res" where
  "cleanup_step E M cb s w =
     (let s = (if ready_for_barrier s then barrierStart s else s) in
      bind_res (barrierTest M s w) (\<lambda>(complete, s, w).
        if complete then Inr (True, s, w)
        else
          bind_res (workreqCheck E M True s w) (\<lambda>(s, w).
          bind_res (if reduce_enabled s then reduceCheck E M cb (local_objects_processed s) True s w
                    else Inr (s, w)) (\<lambda>(s, w).
          bind_res (requestWork E M True s w) (\<lambda>(_, s, w).
          bind_res (abortCheck M True s w) (\<lambda>(s, w).
          bind_res (if \<not> term_tree_enabled s then drain_token M s w else Inr (s, w)) (\<lambda>(s, w).
            Inr (False, s, w))))))))"

partial_function (option) cleanup_loop ::
  "env \<Rightarrow> 'w mpi \<Rightarrow> 'u callbacks \<Rightarrow> 'u state \<Rightarrow> 'w \<Rightarrow> ('u state \<times> 'w) res option" where
  "cleanup_loop E M cb s w =
     (case cleanup_step E M cb s w of
       Inl e \<Rightarrow> Some (Inl e)
     | Inr (leave, s, w) \<Rightarrow> if leave then Some (Inr (s, w)) else cleanup_loop E M cb s w)"

declare cleanup_loop.simps [code]

section \<open>The whole run\<close>

definition final_step ::
  "env \<Rightarrow> 'w mpi \<Rightarrow> 'u callbacks \<Rightarrow> files \<Rightarrow> 'u state \<Rightarrow> 'w \<Rightarrow> (files \<times> 'u state \<times> 'w) res" where
  "final_step E M cb fs s w =
     bind_res (if reduce_enabled s then reduceSync E M cb (local_objects_processed s) s w
               else Inr (s, w)) (\<lambda>(s, w).
     bind_res (abortReduce M s w) (\<lambda>(s, w).
       if ABORT_FLAG s \<noteq> 0 then
         bind_res (checkpoint E fs (circ s)) (\<lambda>(_, fs, c). Inr (fs, s\<lparr>circ := c\<rparr>, w))
       else Inr (fs, s, w)))"

definition mainLoop ::
  "env \<Rightarrow> 'w mpi \<Rightarrow> 'u callbacks \<Rightarrow> files \<Rightarrow> 'u state \<Rightarrow> 'w \<Rightarrow> (files \<times> 'u state \<times> 'w) res" where
  "mainLoop E M cb fs s w =
     bind_res (case work_loop E M cb s w of None \<Rightarrow> Inl Diverges | Some r \<Rightarrow> r) (\<lambda>(s, w).
     bind_res (case cleanup_loop E M cb s w of None \<Rightarrow> Inl Diverges | Some r \<Rightarrow> r) (\<lambda>(s, w).
       final_step E M cb fs s w))"

text \<open>\<open>CircleImpl::execute\<close>: the state is built first, from the queue as it is, and the
  create callback then fills the queue they share.  The rank of the object is the rank of
  the process; \<open>n\<close> is the number of processes.\<close>

definition execute ::
  "env \<Rightarrow> 'w mpi \<Rightarrow> 'u callbacks \<Rightarrow> int \<Rightarrow> int \<Rightarrow> files \<Rightarrow> 'u circle \<Rightarrow> 'w \<Rightarrow> (files \<times> 'u circle \<times> 'w) res" where
  "execute E M cb n junk fs c w =
     (case MPI_Wtime M (c_rank c) w of (now, w) \<Rightarrow>
      bind_res (State_new E (c_rank c) n now junk c) (\<lambda>s.
      bind_res (if c_rank c = 0 \<or> has_flag (runtimeFlags c) CreateGlobal
                then createCallback cb (circ s) else Inr (circ s)) (\<lambda>c.
      bind_res (mainLoop E M cb fs (s\<lparr>circ := c\<rparr>) w) (\<lambda>(fs, s, w).
        Inr (fs, circ s, w)))))"

end
