(* ===== verification/Circle_Protocol.thy ===== *)
theory Circle_Protocol
  imports Circle_Ask Circle_MainLoop
begin

text \<open>
  The processes together: a configuration is the state of every process and of the
  network, and each step is one operation of \<open>mainLoop\<close> that moves work, run by one
  process.  The theory states the protocol of requests, replies and receipts as an
  invariant, shows that every step keeps it, that no operation fails in a reachable
  configuration, and that work is neither lost nor duplicated.
\<close>

section \<open>Steps\<close>

type_synonym ('u, 'w) config = "(int \<Rightarrow> 'u state) \<times> 'w"

inductive exchange_step :: "env \<Rightarrow> 'w mpi \<Rightarrow> int \<Rightarrow> ('u, 'w) config \<Rightarrow> ('u, 'w) config \<Rightarrow> bool"
  for E M n where
  serve: "0 \<le> i \<Longrightarrow> i < n \<Longrightarrow> workreqCheck E M cleanup (\<sigma> i) w = Inr (s', w') \<Longrightarrow>
    exchange_step E M n (\<sigma>, w) (\<sigma>(i := s'), w')"
| receipt: "0 \<le> i \<Longrightarrow> i < n \<Longrightarrow> workreceiptCheck M (\<sigma> i) w = Inr (s', w') \<Longrightarrow>
    exchange_step E M n (\<sigma>, w) (\<sigma>(i := s'), w')"
| request: "0 \<le> i \<Longrightarrow> i < n \<Longrightarrow> qcount (qp (\<sigma> i)) = 0 \<or> cleanup \<Longrightarrow>
    requestWork E M cleanup (\<sigma> i) w = Inr (rc, s', w') \<Longrightarrow>
    exchange_step E M n (\<sigma>, w) (\<sigma>(i := s'), w')"

text \<open>A callback may change the queue through \<open>enqueue\<close> and \<open>dequeue\<close>, so it leaves it well
  formed; the step is for callbacks that keep its size within the bounds of \<open>int\<close>.\<close>

inductive process_step :: "'u callbacks \<Rightarrow> int \<Rightarrow> ('u, 'w) config \<Rightarrow> ('u, 'w) config \<Rightarrow> bool"
  for cb n where
  process: "0 \<le> i \<Longrightarrow> i < n \<Longrightarrow> qcount (qp (\<sigma> i)) > 0 \<Longrightarrow> ABORT_FLAG (\<sigma> i) = 0 \<Longrightarrow>
    process_one cb (\<sigma> i) = Inr s' \<Longrightarrow> wf_queue (qp s') \<Longrightarrow> fits (items (qp s')) \<Longrightarrow>
    process_step cb n (\<sigma>, w) (\<sigma>(i := s'), w)"

definition work_step_rel :: "env \<Rightarrow> 'w mpi \<Rightarrow> 'u callbacks \<Rightarrow> int \<Rightarrow> ('u, 'w) config \<Rightarrow> ('u, 'w) config \<Rightarrow> bool" where
  "work_step_rel E M cb n c c' \<longleftrightarrow> exchange_step E M n c c' \<or> process_step cb n c c'"

section \<open>The work in the system\<close>

text \<open>The items a reply carries, and all items: in the queues and on the way.\<close>

fun in_flight :: "payload list \<Rightarrow> byte list list" where
  "in_flight [Ints (c # b # ofs), Chars cs] = slices cs (map nat ofs @ [nat b])"
| "in_flight _ = []"

lemma in_flight_reply [simp]: "in_flight (reply_msgs ys) = ys"
  using slices_starts [of ys 0 "concat ys"] by (simp add: reply_msgs_def reply_header_def comp_def)

definition queued :: "int \<Rightarrow> (int \<Rightarrow> 'u state) \<Rightarrow> byte list multiset" where
  "queued n \<sigma> = (\<Sum>i\<in>{0..<n}. mset (items (qp (\<sigma> i))))"

definition travelling :: "int \<Rightarrow> (channel \<Rightarrow> payload list) \<Rightarrow> byte list multiset" where
  "travelling n p = (\<Sum>(i, j)\<in>{0..<n} \<times> {0..<n}. mset (in_flight (p (i, j, TAG_WORK_REPLY))))"

definition all_items :: "int \<Rightarrow> (int \<Rightarrow> 'u state) \<Rightarrow> (channel \<Rightarrow> payload list) \<Rightarrow> byte list multiset" where
  "all_items n \<sigma> p = queued n \<sigma> + travelling n p"

definition flights :: "int \<Rightarrow> int \<Rightarrow> (channel \<Rightarrow> payload list) \<Rightarrow> int" where
  "flights n i p = (\<Sum>j\<in>{0..<n}. if in_flight (p (i, j, TAG_WORK_REPLY)) = [] then 0 else 1)"

section \<open>The protocol\<close>

definition proc_ok :: "int \<Rightarrow> int \<Rightarrow> 'u state \<Rightarrow> bool" where
  "proc_ok n i s \<longleftrightarrow> rank s = i \<and> nprocs s = n \<and> 0 \<le> offsets_count s \<and> ABORT_FLAG s = 0 \<and> next_ok n s
     \<and> wf_queue (qp s) \<and> fits (items (qp s))
     \<and> (work_requested s \<longrightarrow> 0 \<le> work_requested_rank s \<and> work_requested_rank s < n
          \<and> work_requested_rank s \<noteq> i \<and> items (qp s) = [])"

definition waits_for :: "int \<Rightarrow> (int \<Rightarrow> 'u state) \<Rightarrow> int \<Rightarrow> int \<Rightarrow> bool" where
  "waits_for n \<sigma> j i \<longleftrightarrow> 0 \<le> j \<and> j < n \<and> work_requested (\<sigma> j) \<and> work_requested_rank (\<sigma> j) = i"

definition good_reply :: "payload list \<Rightarrow> bool" where
  "good_reply ps \<longleftrightarrow> ps = [Ints [0]] \<or> (\<exists>ys. ys \<noteq> [] \<and> [] \<notin> set ys \<and> fits ys \<and> ps = reply_msgs ys)"

definition proto :: "int \<Rightarrow> (int \<Rightarrow> 'u state) \<Rightarrow> (channel \<Rightarrow> payload list) \<Rightarrow> bool" where
  "proto n \<sigma> p \<longleftrightarrow>
     (\<forall>i. 0 \<le> i \<longrightarrow> i < n \<longrightarrow> proc_ok n i (\<sigma> i))
     \<and> (\<forall>i j. p (j, i, TAG_WORK_REQUEST) \<noteq> [] \<longrightarrow>
          waits_for n \<sigma> j i \<and> p (j, i, TAG_WORK_REQUEST) = [Empty] \<and> p (i, j, TAG_WORK_REPLY) = [])
     \<and> (\<forall>i j. p (i, j, TAG_WORK_REPLY) \<noteq> [] \<longrightarrow> waits_for n \<sigma> j i \<and> good_reply (p (i, j, TAG_WORK_REPLY)))
     \<and> (\<forall>i j. waits_for n \<sigma> j i \<longrightarrow> p (j, i, TAG_WORK_REQUEST) \<noteq> [] \<or> p (i, j, TAG_WORK_REPLY) \<noteq> [])
     \<and> (\<forall>i j. p (j, i, TAG_WORK_RECEIPT) \<noteq> [] \<longrightarrow> 0 \<le> j \<and> j < n)
     \<and> (\<forall>i. 0 \<le> i \<longrightarrow> i < n \<longrightarrow> work_outstanding (\<sigma> i) = receipts {0..<n} i p + flights n i p)"

lemma protoD:
  assumes "proto n \<sigma> p"
  shows "0 \<le> i \<Longrightarrow> i < n \<Longrightarrow> proc_ok n i (\<sigma> i)"
    "p (j, i, TAG_WORK_REQUEST) \<noteq> [] \<Longrightarrow>
      waits_for n \<sigma> j i \<and> p (j, i, TAG_WORK_REQUEST) = [Empty] \<and> p (i, j, TAG_WORK_REPLY) = []"
    "p (i, j, TAG_WORK_REPLY) \<noteq> [] \<Longrightarrow> waits_for n \<sigma> j i \<and> good_reply (p (i, j, TAG_WORK_REPLY))"
    "waits_for n \<sigma> j i \<Longrightarrow> p (j, i, TAG_WORK_REQUEST) \<noteq> [] \<or> p (i, j, TAG_WORK_REPLY) \<noteq> []"
    "p (j, i, TAG_WORK_RECEIPT) \<noteq> [] \<Longrightarrow> 0 \<le> j \<and> j < n"
    "0 \<le> i \<Longrightarrow> i < n \<Longrightarrow> work_outstanding (\<sigma> i) = receipts {0..<n} i p + flights n i p"
  using assms unfolding proto_def by blast+

lemma protoI:
  assumes "\<And>i. 0 \<le> i \<Longrightarrow> i < n \<Longrightarrow> proc_ok n i (\<sigma> i)"
    "\<And>i j. p (j, i, TAG_WORK_REQUEST) \<noteq> [] \<Longrightarrow>
      waits_for n \<sigma> j i \<and> p (j, i, TAG_WORK_REQUEST) = [Empty] \<and> p (i, j, TAG_WORK_REPLY) = []"
    "\<And>i j. p (i, j, TAG_WORK_REPLY) \<noteq> [] \<Longrightarrow> waits_for n \<sigma> j i \<and> good_reply (p (i, j, TAG_WORK_REPLY))"
    "\<And>i j. waits_for n \<sigma> j i \<Longrightarrow> p (j, i, TAG_WORK_REQUEST) \<noteq> [] \<or> p (i, j, TAG_WORK_REPLY) \<noteq> []"
    "\<And>i j. p (j, i, TAG_WORK_RECEIPT) \<noteq> [] \<Longrightarrow> 0 \<le> j \<and> j < n"
    "\<And>i. 0 \<le> i \<Longrightarrow> i < n \<Longrightarrow> work_outstanding (\<sigma> i) = receipts {0..<n} i p + flights n i p"
  shows "proto n \<sigma> p"
  using assms unfolding proto_def by blast

section \<open>Sums over processes\<close>

lemma sum_join:
  fixes f :: "'a \<Rightarrow> 'b::comm_monoid_add"
  assumes "finite A" "D \<subseteq> A" "\<And>x. x \<in> A - D \<Longrightarrow> f' x = f x" "\<And>x. x \<in> D \<Longrightarrow> f x = 0"
  shows "sum f' A = sum f A + sum f' D"
proof -
  have "sum f' A = sum f' (A - D) + sum f' D" using sum.subset_diff [OF assms(2,1)] .
  moreover have "sum f A = sum f (A - D) + sum f D" using sum.subset_diff [OF assms(2,1)] .
  moreover have "sum f D = 0" using assms(4) by (intro sum.neutral) auto
  moreover have "sum f' (A - D) = sum f (A - D)" using assms(3) by (intro sum.cong) auto
  ultimately show ?thesis by simp
qed

lemma sum_point:
  fixes f :: "'a \<Rightarrow> 'b::comm_monoid_add"
  assumes "finite A" "a \<in> A" "\<And>x. x \<in> A - {a} \<Longrightarrow> f' x = f x"
  shows "sum f' A + f a = sum f A + f' a"
proof -
  have "sum f' A = f' a + sum f' (A - {a})" "sum f A = f a + sum f (A - {a})"
    using sum.remove [OF assms(1,2)] by blast+
  moreover have "sum f' (A - {a}) = sum f (A - {a})" using assms(3) by (intro sum.cong) auto
  ultimately show ?thesis by (simp add: ac_simps)
qed

lemma queued_update:
  assumes "0 \<le> i" "i < n"
  shows "queued n (\<sigma>(i := s)) + mset (items (qp (\<sigma> i))) = queued n \<sigma> + mset (items (qp s))"
  unfolding queued_def
  using sum_point [of "{0..<n}" i "\<lambda>j. mset (items (qp ((\<sigma>(i := s)) j)))" "\<lambda>j. mset (items (qp (\<sigma> j)))"] assms
  by simp

section \<open>Serving requests\<close>

lemma proto_request:
  assumes "proto n \<sigma> p" "length (p (d, i, TAG_WORK_REQUEST)) = 1"
  shows "waits_for n \<sigma> d i" "p (d, i, TAG_WORK_REQUEST) = [Empty]" "p (i, d, TAG_WORK_REPLY) = []"
proof -
  have "p (d, i, TAG_WORK_REQUEST) \<noteq> []" using assms(2) by auto
  from protoD(2) [OF assms(1) this]
  show "waits_for n \<sigma> d i" "p (d, i, TAG_WORK_REQUEST) = [Empty]" "p (i, d, TAG_WORK_REPLY) = []" by blast+
qed

lemma next_ok_cong: "next_processor s' = next_processor s \<Longrightarrow> rank s' = rank s \<Longrightarrow> next_ok n s' = next_ok n s"
  by (cases "next_processor s") (simp_all add: next_ok_def)

lemma next_ok_serve [simp]: "next_ok n (serve_update q tp oc wo sd s) = next_ok n s"
  by (cases "next_processor s") (simp_all add: next_ok_def)

lemma waits_for_upd:
  "work_requested s = work_requested (\<sigma> i) \<Longrightarrow> work_requested_rank s = work_requested_rank (\<sigma> i) \<Longrightarrow>
   waits_for n (\<sigma>(i := s)) j k \<longleftrightarrow> waits_for n \<sigma> j k"
  by (simp add: waits_for_def)

lemma in_flight_reply_of: "ABORT_FLAG s = 0 \<Longrightarrow> in_flight (reply_of s ys) = ys"
  by (simp add: reply_of_def refusal_def)

text \<open>A step of process \<open>i\<close> that answers the ranks in \<open>D\<close>.\<close>

lemma proto_serve:
  assumes pr: "proto n \<sigma> p" and i: "0 \<le> i" "i < n"
    and D: "finite D" "\<forall>d \<in> D. 0 \<le> d \<and> d < n \<and> length (p (d, i, TAG_WORK_REQUEST)) = 1"
    and h: "handed D (items (qp (\<sigma> i))) xs g" and q: "queue_rep q xs" and oc: "0 \<le> oc"
    and s': "s' = serve_update q tp oc (work_outstanding (\<sigma> i) + busy D g) sd (\<sigma> i)"
    and p': "p' = after_replies (\<sigma> i) D g (requests_taken i D p)"
  shows "proto n (\<sigma>(i := s')) p'" "all_items n (\<sigma>(i := s')) p' = all_items n \<sigma> p"
proof -
  let ?s = "\<sigma> i"
  have ok: "proc_ok n i ?s" by (rule protoD(1) [OF pr i])
  then have rk: "rank ?s = i" and ab: "ABORT_FLAG ?s = 0" by (auto simp: proc_ok_def)
  have w: "waits_for n \<sigma> d i" "p (d, i, TAG_WORK_REQUEST) = [Empty]" "p (i, d, TAG_WORK_REPLY) = []" "d \<noteq> i"
    if "d \<in> D" for d
  proof -
    show "waits_for n \<sigma> d i" "p (d, i, TAG_WORK_REQUEST) = [Empty]" "p (i, d, TAG_WORK_REPLY) = []"
      using proto_request [OF pr, of d i] D(2) that by auto
    then show "d \<noteq> i" using protoD(1) [OF pr, of d] by (auto simp: waits_for_def proc_ok_def)
  qed
  have req: "p' (k, j, TAG_WORK_REQUEST) = (if k \<in> D \<and> j = i then [] else p (k, j, TAG_WORK_REQUEST))"
    and rep: "p' (k, j, TAG_WORK_REPLY) = (if k = i \<and> j \<in> D then reply_of ?s (g j) else p (k, j, TAG_WORK_REPLY))"
    and rct: "p' (k, j, TAG_WORK_RECEIPT) = p (k, j, TAG_WORK_RECEIPT)" for k j
    using w unfolding p' after_replies_def requests_taken_def rk by auto
  have wf: "waits_for n (\<sigma>(i := s')) j k \<longleftrightarrow> waits_for n \<sigma> j k" for j k
    by (rule waits_for_upd) (simp_all add: s')
  have good: "good_reply (reply_of ?s (g d))" "reply_of ?s (g d) \<noteq> []" "in_flight (reply_of ?s (g d)) = g d" for d
    using h ab in_flight_reply_of [OF ab] by (auto simp: handed_def good_reply_def reply_of_def refusal_def reply_msgs_def)
  have xs: "items q = xs" "wf_queue q" using queue_rep_items [OF q] queue_rep_wf [OF q] by simp_all
  obtain rest where rest: "items (qp ?s) = xs @ rest" using h by (auto simp: handed_def)
  have ok': "proc_ok n i s'"
    using ok xs rest fits_append [of xs rest] oc by (auto simp: s' proc_ok_def)
  have fl_i: "flights n i p' = flights n i p + busy D g"
  proof -
    have "flights n i p' = flights n i p + (\<Sum>j\<in>D. if in_flight (p' (i, j, TAG_WORK_REPLY)) = [] then 0 else 1)"
      unfolding flights_def using D w(3) by (intro sum_join) (auto simp: rep)
    also have "(\<Sum>j\<in>D. if in_flight (p' (i, j, TAG_WORK_REPLY)) = [] then 0 else 1) = (\<Sum>j\<in>D. if g j = [] then 0 else 1 :: int)"
      by (intro sum.cong) (auto simp: rep good(3))
    also have "\<dots> = busy D g"
      by (rule busy_sum [OF D(1)])
    finally show ?thesis .
  qed
  have fl: "flights n k p' = flights n k p" if "k \<noteq> i" for k
    using that by (simp add: flights_def rep)
  have rc: "receipts {0..<n} k p' = receipts {0..<n} k p" for k by (simp add: receipts_def rct)
  show "proto n (\<sigma>(i := s')) p'"
  proof (rule protoI)
    fix k assume "0 \<le> k" "k < n"
    then show "proc_ok n k ((\<sigma>(i := s')) k)" using ok' protoD(1) [OF pr] by simp
  next
    fix k j assume "p' (j, k, TAG_WORK_REQUEST) \<noteq> []"
    then show "waits_for n (\<sigma>(i := s')) j k \<and> p' (j, k, TAG_WORK_REQUEST) = [Empty] \<and> p' (k, j, TAG_WORK_REPLY) = []"
      using protoD(2) [OF pr, of j k] unfolding wf req rep by (auto split: if_splits)
  next
    fix k j assume "p' (k, j, TAG_WORK_REPLY) \<noteq> []"
    then show "waits_for n (\<sigma>(i := s')) j k \<and> good_reply (p' (k, j, TAG_WORK_REPLY))"
      using protoD(3) [OF pr, of k j] w(1) good(1) unfolding wf rep by (auto split: if_splits)
  next
    fix k j assume "waits_for n (\<sigma>(i := s')) j k"
    then show "p' (j, k, TAG_WORK_REQUEST) \<noteq> [] \<or> p' (k, j, TAG_WORK_REPLY) \<noteq> []"
      using protoD(4) [OF pr, of j k] good(2) unfolding wf req rep by (auto split: if_splits)
  next
    fix k j assume "p' (j, k, TAG_WORK_RECEIPT) \<noteq> []"
    then show "0 \<le> j \<and> j < n" using protoD(5) [OF pr] unfolding rct by blast
  next
    fix k assume "0 \<le> k" "k < n"
    then show "work_outstanding ((\<sigma>(i := s')) k) = receipts {0..<n} k p' + flights n k p'"
      using protoD(6) [OF pr] fl_i fl rc by (auto simp: s')
  qed
  have "travelling n p' = travelling n p + (\<Sum>(k, j)\<in>{i} \<times> D. mset (in_flight (p' (k, j, TAG_WORK_REPLY))))"
    unfolding travelling_def using D i w(3) by (intro sum_join) (auto simp: rep split: if_splits)
  also have "(\<Sum>(k, j)\<in>{i} \<times> D. mset (in_flight (p' (k, j, TAG_WORK_REPLY)))) = (\<Sum>d\<in>D. mset (g d))"
    by (simp add: sum.cartesian_product [symmetric] rep good(3))
  finally have trav: "travelling n p' = travelling n p + (\<Sum>d\<in>D. mset (g d))" .
  have "queued n (\<sigma>(i := s')) + mset (items (qp ?s)) = queued n \<sigma> + mset xs"
    using queued_update [OF i, of \<sigma> s'] xs by (simp add: s')
  then have "queued n (\<sigma>(i := s')) + (\<Sum>d\<in>D. mset (g d)) = queued n \<sigma>"
    using handed_mset [OF h] by (simp add: ac_simps)
  then show "all_items n (\<sigma>(i := s')) p' = all_items n \<sigma> p"
    using trav by (simp add: all_items_def ac_simps)
qed

section \<open>Receipts and requests\<close>

lemma proto_receipt:
  assumes pr: "proto n \<sigma> p" and i: "0 \<le> i" "i < n"
    and s': "s' = (\<sigma> i)\<lparr>work_outstanding := wo, term_flag := tf\<rparr>"
    and wo: "wo - receipts {0..<n} i p' = work_outstanding (\<sigma> i) - receipts {0..<n} i p"
    and only: "only_channels (\<lambda>(a, b, t). b = i \<and> t = TAG_WORK_RECEIPT) p p'"
    and rest: "\<forall>j. j \<notin> {0..<n} \<longrightarrow> p' (j, i, TAG_WORK_RECEIPT) = []"
  shows "proto n (\<sigma>(i := s')) p'" "all_items n (\<sigma>(i := s')) p' = all_items n \<sigma> p"
proof -
  have same: "p' (k, j, t) = p (k, j, t)" if "t \<noteq> TAG_WORK_RECEIPT \<or> j \<noteq> i" for k j t
    using only_channelsD [OF only, of "(k, j, t)"] that by auto
  have wf: "waits_for n (\<sigma>(i := s')) j k \<longleftrightarrow> waits_for n \<sigma> j k" for j k
    by (rule waits_for_upd) (simp_all add: s')
  have "next_ok n s' = next_ok n (\<sigma> i)" by (rule next_ok_cong) (simp_all add: s')
  then have ok': "proc_ok n i s'" using protoD(1) [OF pr i] by (simp add: s' proc_ok_def)
  have fl: "flights n k p' = flights n k p" for k by (simp add: flights_def same)
  have rc: "receipts {0..<n} k p' = receipts {0..<n} k p" if "k \<noteq> i" for k
    using that by (simp add: receipts_def same)
  show "proto n (\<sigma>(i := s')) p'"
  proof (rule protoI, goal_cases)
    case (1 k) then show ?case using ok' protoD(1) [OF pr] by simp
  next
    case (2 k j) then show ?case using protoD(2) [OF pr, of j k] unfolding wf by (simp add: same)
  next
    case (3 k j) then show ?case using protoD(3) [OF pr, of k j] unfolding wf by (simp add: same)
  next
    case (4 k j) then show ?case using protoD(4) [OF pr, of j k] unfolding wf by (simp add: same)
  next
    case (5 k j) then show ?case
      using protoD(5) [OF pr, of j k] rest by (cases "k = i") (auto simp: same)
  next
    case (6 k) then show ?case using protoD(6) [OF pr, of k] fl rc wo by (auto simp: s')
  qed
  have "queued n (\<sigma>(i := s')) = queued n \<sigma>" using queued_update [OF i, of \<sigma> s'] by (simp add: s')
  moreover have "travelling n p' = travelling n p" by (simp add: travelling_def same)
  ultimately show "all_items n (\<sigma>(i := s')) p' = all_items n \<sigma> p" by (simp add: all_items_def)
qed

text \<open>A process that takes the reply it waits for: \<open>ys\<close> is what the reply carries, \<open>r\<close> the
  number of receipts it sends.\<close>

lemma travelling_clear:
  assumes "0 \<le> k" "k < n" "0 \<le> i" "i < n" "p' (k, i, TAG_WORK_REPLY) = []"
    "\<And>a b. (a, b) \<noteq> (k, i) \<Longrightarrow> p' (a, b, TAG_WORK_REPLY) = p (a, b, TAG_WORK_REPLY)"
  shows "travelling n p = travelling n p' + mset (in_flight (p (k, i, TAG_WORK_REPLY)))"
    "flights n k p = flights n k p' + (if in_flight (p (k, i, TAG_WORK_REPLY)) = [] then 0 else 1)"
    "\<And>a. a \<noteq> k \<Longrightarrow> flights n a p' = flights n a p"
proof -
  show "travelling n p = travelling n p' + mset (in_flight (p (k, i, TAG_WORK_REPLY)))"
    using sum_point [of "{0..<n} \<times> {0..<n}" "(k, i)" "\<lambda>(a, b). mset (in_flight (p' (a, b, TAG_WORK_REPLY)))"
        "\<lambda>(a, b). mset (in_flight (p (a, b, TAG_WORK_REPLY)))"] assms
    by (auto simp: travelling_def)
  show "flights n k p = flights n k p' + (if in_flight (p (k, i, TAG_WORK_REPLY)) = [] then 0 else 1)"
    using sum_point [of "{0..<n}" i "\<lambda>b. if in_flight (p' (k, b, TAG_WORK_REPLY)) = [] then 0 else 1 :: int"
        "\<lambda>b. if in_flight (p (k, b, TAG_WORK_REPLY)) = [] then 0 else 1"] assms
    by (simp add: flights_def)
  show "flights n a p' = flights n a p" if "a \<noteq> k" for a
    using that assms(6) by (simp add: flights_def)
qed

lemma receipts_put:
  assumes "0 \<le> i" "i < n" "\<And>a b. (a, b) \<noteq> (i, k) \<Longrightarrow> p' (a, b, TAG_WORK_RECEIPT) = p (a, b, TAG_WORK_RECEIPT)"
    "p' (i, k, TAG_WORK_RECEIPT) = p (i, k, TAG_WORK_RECEIPT) @ ms"
  shows "receipts {0..<n} k p' = receipts {0..<n} k p + int (length ms)"
    "\<And>a. a \<noteq> k \<Longrightarrow> receipts {0..<n} a p' = receipts {0..<n} a p"
proof -
  show "receipts {0..<n} k p' = receipts {0..<n} k p + int (length ms)"
    using sum_point [of "{0..<n}" i "\<lambda>j. int (length (p' (j, k, TAG_WORK_RECEIPT)))"
        "\<lambda>j. int (length (p (j, k, TAG_WORK_RECEIPT)))"] assms
    by (simp add: receipts_def)
  show "receipts {0..<n} a p' = receipts {0..<n} a p" if "a \<noteq> k" for a
    using that assms(3) by (simp add: receipts_def)
qed

lemma proto_reply:
  assumes pr: "proto n \<sigma> p" and i: "0 \<le> i" "i < n" and wr: "work_requested (\<sigma> i)"
    and k: "k = work_requested_rank (\<sigma> i)" and ps: "p (k, i, TAG_WORK_REPLY) \<noteq> []"
    and ys: "ys = in_flight (p (k, i, TAG_WORK_REPLY))"
    and q: "items (qp s') = ys" and ok': "proc_ok n i s'" and nw: "\<not> work_requested s'"
    and wo: "work_outstanding s' = work_outstanding (\<sigma> i)"
    and p': "p' = p((k, i, TAG_WORK_REPLY) := [], (i, k, TAG_WORK_RECEIPT) := p (i, k, TAG_WORK_RECEIPT) @ ms)"
    and ms: "length ms = (if ys = [] then 0 else 1)"
  shows "proto n (\<sigma>(i := s')) p'" "all_items n (\<sigma>(i := s')) p' = all_items n \<sigma> p"
proof -
  have ki: "k \<noteq> i" "0 \<le> k" "k < n" "items (qp (\<sigma> i)) = []"
    using protoD(1) [OF pr i] wr k by (auto simp: proc_ok_def)
  have req: "p' (a, b, TAG_WORK_REQUEST) = p (a, b, TAG_WORK_REQUEST)"
    and rep: "p' (a, b, TAG_WORK_REPLY) = (if a = k \<and> b = i then [] else p (a, b, TAG_WORK_REPLY))"
    and rct: "p' (a, b, TAG_WORK_RECEIPT) =
      (if a = i \<and> b = k then p (i, k, TAG_WORK_RECEIPT) @ ms else p (a, b, TAG_WORK_RECEIPT))" for a b
    unfolding p' by auto
  have wf: "waits_for n (\<sigma>(i := s')) j l \<longleftrightarrow> j \<noteq> i \<and> waits_for n \<sigma> j l" for j l
    using nw by (auto simp: waits_for_def)
  have none: "p (i, b, TAG_WORK_REQUEST) = []" for b
    using protoD(2) [OF pr, of i b] ps k by (auto simp: waits_for_def)
  have only: "p (a, i, TAG_WORK_REPLY) = []" if "a \<noteq> k" for a
    using protoD(3) [OF pr, of a i] that k by (auto simp: waits_for_def)
  have rep1: "p' (k, i, TAG_WORK_REPLY) = []"
    and rep2: "\<And>a b. (a, b) \<noteq> (k, i) \<Longrightarrow> p' (a, b, TAG_WORK_REPLY) = p (a, b, TAG_WORK_REPLY)"
    and rct1: "p' (i, k, TAG_WORK_RECEIPT) = p (i, k, TAG_WORK_RECEIPT) @ ms"
    and rct2: "\<And>a b. (a, b) \<noteq> (i, k) \<Longrightarrow> p' (a, b, TAG_WORK_RECEIPT) = p (a, b, TAG_WORK_RECEIPT)"
    by (auto simp: rep rct)
  note trav = travelling_clear [where p' = p' and p = p, OF ki(2,3) i rep1 rep2]
  note rcpt = receipts_put [where p' = p' and p = p, OF i rct2 rct1]
  show "proto n (\<sigma>(i := s')) p'"
  proof (rule protoI, goal_cases)
    case (1 a) then show ?case using ok' protoD(1) [OF pr] by simp
  next
    case (2 a j) then show ?case using protoD(2) [OF pr, of j a] none unfolding wf req rep by auto
  next
    case (3 a j) then show ?case
      using protoD(3) [OF pr, of a j] only unfolding wf rep by (auto split: if_splits)
  next
    case (4 a j) then show ?case using protoD(4) [OF pr, of j a] unfolding wf req rep by auto
  next
    case (5 a j) then show ?case using protoD(5) [OF pr, of j a] i unfolding rct by (auto split: if_splits)
  next
    case (6 a)
    have "receipts {0..<n} a p' + flights n a p' = receipts {0..<n} a p + flights n a p"
      using trav(2,3) rcpt ms ys by (cases "a = k") auto
    then show ?case using protoD(6) [OF pr 6] wo by auto
  qed
  have "queued n (\<sigma>(i := s')) = queued n \<sigma> + mset ys"
    using queued_update [OF i, of \<sigma> s'] ki(4) q by simp
  then show "all_items n (\<sigma>(i := s')) p' = all_items n \<sigma> p"
    using trav(1) ys by (simp add: all_items_def ac_simps)
qed

lemma proto_ask:
  assumes pr: "proto n \<sigma> p" and i: "0 \<le> i" "i < n" and nw: "\<not> work_requested (\<sigma> i)"
    and d: "0 \<le> d" "d < n" "d \<noteq> i" and em: "items (qp (\<sigma> i)) = []"
    and s': "work_requested s'" "work_requested_rank s' = d" "qp s' = qp (\<sigma> i)"
      "work_outstanding s' = work_outstanding (\<sigma> i)" and ok': "proc_ok n i s'"
    and p': "p' = p((i, d, TAG_WORK_REQUEST) := p (i, d, TAG_WORK_REQUEST) @ [Empty])"
  shows "proto n (\<sigma>(i := s')) p'" "all_items n (\<sigma>(i := s')) p' = all_items n \<sigma> p"
proof -
  have wf: "waits_for n (\<sigma>(i := s')) j l \<longleftrightarrow> (if j = i then l = d else waits_for n \<sigma> j l)" for j l
    using i s' by (auto simp: waits_for_def)
  have none: "p (i, b, TAG_WORK_REQUEST) = []" "p (b, i, TAG_WORK_REPLY) = []" for b
    using protoD(2) [OF pr, of i b] protoD(3) [OF pr, of b i] nw by (auto simp: waits_for_def)
  have req: "p' (a, b, TAG_WORK_REQUEST) = (if a = i \<and> b = d then [Empty] else p (a, b, TAG_WORK_REQUEST))"
    and rep: "p' (a, b, TAG_WORK_REPLY) = p (a, b, TAG_WORK_REPLY)"
    and rct: "p' (a, b, TAG_WORK_RECEIPT) = p (a, b, TAG_WORK_RECEIPT)" for a b
    unfolding p' using none by auto
  show "proto n (\<sigma>(i := s')) p'"
  proof (rule protoI, goal_cases)
    case (1 a) then show ?case using ok' protoD(1) [OF pr] by simp
  next
    case (2 a j) then show ?case
      using protoD(2) [OF pr, of j a] none unfolding wf req rep by (auto split: if_splits)
  next
    case (3 a j) then show ?case using protoD(3) [OF pr, of a j] none unfolding wf rep by auto
  next
    case (4 a j) then show ?case using protoD(4) [OF pr, of j a] unfolding wf req rep by (auto split: if_splits)
  next
    case (5 a j) then show ?case using protoD(5) [OF pr, of j a] unfolding rct by blast
  next
    case (6 a) then show ?case
      using protoD(6) [OF pr, of a] s'(4) by (cases "a = i") (simp_all add: receipts_def flights_def rep rct)
  qed
  have "queued n (\<sigma>(i := s')) = queued n \<sigma>" using queued_update [OF i, of \<sigma> s'] s' by simp
  then show "all_items n (\<sigma>(i := s')) p' = all_items n \<sigma> p"
    by (simp add: all_items_def travelling_def rep)
qed

lemma items_empty_count: "wf_queue q \<Longrightarrow> items q = [] \<longleftrightarrow> qcount q = 0"
  using wf_queue_rep [of q] queue_rep_count [of q "items q"] by auto

lemma proto_asked:
  assumes pr: "proto n \<sigma> p" and i: "0 \<le> i" "i < n" and a: "asked n (\<sigma> i) p s' p'"
    and em: "work_requested (\<sigma> i) \<or> items (qp (\<sigma> i)) = []"
  shows "proto n (\<sigma>(i := s')) p'" "all_items n (\<sigma>(i := s')) p' = all_items n \<sigma> p"
proof -
  have ok: "proc_ok n i (\<sigma> i)" by (rule protoD(1) [OF pr i])
  then have rk: "rank (\<sigma> i) = i" by (simp add: proc_ok_def)
  let ?k = "work_requested_rank (\<sigma> i)"
  have "proto n (\<sigma>(i := s')) p' \<and> all_items n (\<sigma>(i := s')) p' = all_items n \<sigma> p"
    using a
  proof cases
    case (refused c)
    have rp: "p (?k, i, TAG_WORK_REPLY) = [Ints [0]]" using refused rk by (simp add: reply_from_def)
    have em': "items (qp (\<sigma> i)) = []" using ok refused by (simp add: proc_ok_def)
    have "next_ok n s' = next_ok n (\<sigma> i)" by (rule next_ok_cong) (simp_all add: refused)
    then have ok': "proc_ok n i s'" using ok refused by (simp add: proc_ok_def)
    have p': "p' = p((?k, i, TAG_WORK_REPLY) := [], (i, ?k, TAG_WORK_RECEIPT) := p (i, ?k, TAG_WORK_RECEIPT) @ [])"
      using refused rk by (auto simp: reply_from_def)
    show ?thesis
      using proto_reply [OF pr i refused(3) refl _ refl _ ok' _ _ p'] rp em' refused by simp
  next
    case (given ys q c)
    have rp: "p (?k, i, TAG_WORK_REPLY) = reply_msgs ys" using given rk by (simp add: reply_from_def)
    have it: "items q = ys" "wf_queue q" using given queue_rep_items queue_rep_wf by auto
    have ne: "p (?k, i, TAG_WORK_REPLY) \<noteq> []" using rp by (simp add: reply_msgs_def)
    have "good_reply (reply_msgs ys)" using protoD(3) [OF pr ne] rp by simp
    then obtain zs where "fits zs" "reply_msgs ys = reply_msgs zs"
      using given by (auto simp: good_reply_def reply_msgs_def)
    then have fy: "fits ys" using in_flight_reply by metis
    have "next_ok n s' = next_ok n (\<sigma> i)" by (rule next_ok_cong) (simp_all add: given)
    then have ok': "proc_ok n i s'" using ok it fy given by (simp add: proc_ok_def)
    have p': "p' = p((?k, i, TAG_WORK_REPLY) := [], (i, ?k, TAG_WORK_RECEIPT) := p (i, ?k, TAG_WORK_RECEIPT) @ [Empty])"
      using given rk by (simp add: reply_from_def)
    show ?thesis
      using proto_reply [OF pr i given(3) refl ne refl _ ok' _ _ p'] rp it given by simp
  next
    case (ask d np x sd)
    have d: "0 \<le> d" "d < n" "d \<noteq> i" using ok ask by (auto simp: proc_ok_def next_ok_def)
    have em': "items (qp (\<sigma> i)) = []" using em ask by simp
    have "next_ok n s'" using ask rk by (cases np) (simp_all add: next_ok_def)
    then have ok': "proc_ok n i s'" using ok ask d em' by (simp add: proc_ok_def)
    have p': "p' = p((i, d, TAG_WORK_REQUEST) := p (i, d, TAG_WORK_REQUEST) @ [Empty])"
      using ask rk by simp
    show ?thesis
      using proto_ask [OF pr i ask(3) d em' _ _ _ _ ok' p'] ask by simp
  qed
  then show "proto n (\<sigma>(i := s')) p'" "all_items n (\<sigma>(i := s')) p' = all_items n \<sigma> p" by auto
qed

section \<open>Every step keeps the protocol\<close>

text \<open>The steps again, as they act on the states and the pending messages.\<close>

inductive transfer ::
  "int \<Rightarrow> (int \<Rightarrow> 'u state) \<Rightarrow> (channel \<Rightarrow> payload list) \<Rightarrow> (int \<Rightarrow> 'u state) \<Rightarrow> (channel \<Rightarrow> payload list) \<Rightarrow> bool"
  for n \<sigma> p where
  idle: "transfer n \<sigma> p \<sigma> p"
| served: "0 \<le> i \<Longrightarrow> i < n \<Longrightarrow> finite D \<Longrightarrow>
    \<forall>d \<in> D. 0 \<le> d \<and> d < n \<and> length (p (d, i, TAG_WORK_REQUEST)) = 1 \<Longrightarrow>
    handed D (items (qp (\<sigma> i))) xs g \<Longrightarrow> queue_rep q xs \<Longrightarrow> 0 \<le> oc \<Longrightarrow>
    items (qp (\<sigma> i)) \<noteq> [] \<longrightarrow> xs \<noteq> [] \<Longrightarrow>
    transfer n \<sigma> p (\<sigma>(i := serve_update q (colour_after (\<sigma> i) D g) oc (work_outstanding (\<sigma> i) + busy D g) sd (\<sigma> i)))
      (after_replies (\<sigma> i) D g (requests_taken i D p))"
| receipted: "0 \<le> i \<Longrightarrow> i < n \<Longrightarrow>
    wo - receipts {0..<n} i p' = work_outstanding (\<sigma> i) - receipts {0..<n} i p \<Longrightarrow>
    only_channels (\<lambda>(a, b, t). b = i \<and> t = TAG_WORK_RECEIPT) p p' \<Longrightarrow>
    \<forall>j. j \<notin> {0..<n} \<longrightarrow> p' (j, i, TAG_WORK_RECEIPT) = [] \<Longrightarrow>
    transfer n \<sigma> p (\<sigma>(i := (\<sigma> i)\<lparr>work_outstanding := wo, term_flag := tf\<rparr>)) p'"
| asking: "0 \<le> i \<Longrightarrow> i < n \<Longrightarrow> work_requested (\<sigma> i) \<or> items (qp (\<sigma> i)) = [] \<Longrightarrow>
    asked n (\<sigma> i) p s' p' \<Longrightarrow> transfer n \<sigma> p (\<sigma>(i := s')) p'"

lemma transfer_kept:
  assumes "proto n \<sigma> p" "transfer n \<sigma> p \<sigma>' p'"
  shows "proto n \<sigma>' p' \<and> all_items n \<sigma>' p' = all_items n \<sigma> p"
  using assms(2)
proof cases
  case idle
  then show ?thesis using assms(1) by simp
next
  case (served i D xs g q oc sd)
  from proto_serve [OF assms(1) served(3-9) refl refl] show ?thesis unfolding served(1,2) by blast
next
  case (receipted i wo tf)
  from proto_receipt [OF assms(1) receipted(2,3) refl receipted(4-6)] show ?thesis unfolding receipted(1) by blast
next
  case (asking i s')
  from proto_asked [OF assms(1) asking(2,3,5,4)] show ?thesis unfolding asking(1) by blast
qed

context mpi_laws
begin

lemma serve_transfer:
  assumes E: "env_ok E n" and pr: "proto n \<sigma> (pend w)" and i: "0 \<le> i" "i < n"
  shows "yields (workreqCheck E M cleanup (\<sigma> i) w) (\<lambda>(s', w'). transfer n \<sigma> (pend w) (\<sigma>(i := s')) (pend w'))"
proof -
  note ok = protoD(1) [OF pr i, unfolded proc_ok_def]
  have rep: "queue_rep (qp (\<sigma> i)) (items (qp (\<sigma> i)))" using ok wf_queue_rep by blast
  have len: "length (pend w (j, i, TAG_WORK_REQUEST)) \<le> 1"
    "pend w (j, i, TAG_WORK_REQUEST) \<noteq> [] \<Longrightarrow> 0 \<le> j \<and> j < n" for j
  proof -
    show "length (pend w (j, i, TAG_WORK_REQUEST)) \<le> 1"
      using protoD(2) [OF pr, of j i] by (cases "pend w (j, i, TAG_WORK_REQUEST) = []") auto
    show "pend w (j, i, TAG_WORK_REQUEST) \<noteq> [] \<Longrightarrow> 0 \<le> j \<and> j < n"
      using protoD(2) [OF pr, of j i] by (simp add: waits_for_def)
  qed
  have oc: "0 \<le> offsets_count (\<sigma> i)" and np: "nprocs (\<sigma> i) = n" and rk: "rank (\<sigma> i) = i"
    and ft: "fits (items (qp (\<sigma> i)))" using ok by auto
  have req: "\<forall>j. length (pend w (j, rank (\<sigma> i), TAG_WORK_REQUEST)) \<le> 1"
    "\<forall>j. pend w (j, rank (\<sigma> i), TAG_WORK_REQUEST) \<noteq> [] \<longrightarrow> 0 \<le> j \<and> j < n"
    using len unfolding rk by blast+
  show ?thesis
  proof (rule yields_mono [OF workreqCheck_yields [OF rep ft oc E np req]], clarify, goal_cases)
    case (1 s' w' D xs g q oc' sd)
    have D: "\<forall>d \<in> D. 0 \<le> d \<and> d < n \<and> length (pend w (d, i, TAG_WORK_REQUEST)) = 1"
      using 1(2) unfolding rk .
    show ?case
      unfolding 1(7) rk by (rule transfer.served [where p = "pend w" and \<sigma> = \<sigma>, OF i 1(1) D 1(6,3,5,4)])
  qed
qed

lemma receipt_transfer:
  assumes pr: "proto n \<sigma> (pend w)" and i: "0 \<le> i" "i < n"
  shows "yields (workreceiptCheck M (\<sigma> i) w) (\<lambda>(s', w'). transfer n \<sigma> (pend w) (\<sigma>(i := s')) (pend w'))"
proof -
  have rk: "rank (\<sigma> i) = i" using protoD(1) [OF pr i] by (simp add: proc_ok_def)
  have rest: "\<forall>j. j \<notin> {0..<n} \<longrightarrow> pend w (j, rank (\<sigma> i), TAG_WORK_RECEIPT) = []"
    using protoD(5) [OF pr] by auto
  show ?thesis
  proof (rule yields_mono [OF workreceiptCheck_yields [OF _ rest]], simp, clarify, goal_cases)
    case (1 s' w' wo tf)
    show ?case by (rule transfer.receipted [where p = "pend w" and p' = "pend w'" and \<sigma> = \<sigma>, OF i 1(1-3) [unfolded rk]])
  qed
qed

text \<open>Asking for work, with what is known when nothing happens: a probe found no reply.\<close>

lemma request_transfer:
  assumes E: "env_ok E n" and pr: "proto n \<sigma> (pend w)" and i: "0 \<le> i" "i < n"
    and idle: "qcount (qp (\<sigma> i)) = 0 \<or> cleanup"
  shows "yields (requestWork E M cleanup (\<sigma> i) w) (\<lambda>(rc, s', w').
    asked n (\<sigma> i) (pend w) s' (pend w') \<and> (work_requested (\<sigma> i) \<or> items (qp (\<sigma> i)) = []) \<or>
    s' = \<sigma> i \<and> pend w' = pend w \<and> (work_requested (\<sigma> i) \<longrightarrow>
      fst (MPI_Iprobe M i (Some (work_requested_rank (\<sigma> i))) TAG_WORK_REPLY w) = None))"
proof (cases "work_requested (\<sigma> i) \<or> items (qp (\<sigma> i)) = []")
  case True
  note ok = protoD(1) [OF pr i, unfolded proc_ok_def]
  have rk: "rank (\<sigma> i) = i" using ok by simp
  have rf: "reply_from (\<sigma> i) = (work_requested_rank (\<sigma> i), i, TAG_WORK_REPLY)"
    using ok by (simp add: reply_from_def)
  have reply: "queue_rep (qp (\<sigma> i)) [] \<and> (pend w (reply_from (\<sigma> i)) = []
      \<or> pend w (reply_from (\<sigma> i)) = [Ints [0]]
      \<or> (\<exists>ys. ys \<noteq> [] \<and> [] \<notin> set ys \<and> fits ys \<and> pend w (reply_from (\<sigma> i)) = reply_msgs ys))"
    if "work_requested (\<sigma> i)"
    using ok that wf_queue_rep [of "qp (\<sigma> i)"] protoD(3) [OF pr, of "work_requested_rank (\<sigma> i)" i]
    unfolding rf good_reply_def by auto
  have st: "nprocs (\<sigma> i) = n" "0 \<le> rank (\<sigma> i)" "rank (\<sigma> i) < n" "0 \<le> offsets_count (\<sigma> i)"
    using ok i by auto
  show ?thesis
    by (rule yields_mono [OF requestWork_yields [OF E st reply]], assumption) (use True rk in auto)
next
  case False
  have "items (qp (\<sigma> i)) = [] \<longleftrightarrow> qcount (qp (\<sigma> i)) = 0"
    using protoD(1) [OF pr i] by (intro items_empty_count) (simp add: proc_ok_def)
  with False idle have "requestWork E M cleanup (\<sigma> i) w = Inr (0, \<sigma> i, w)"
    by (simp add: requestWork_def)
  with False show ?thesis by simp
qed

lemma exchange_transfer:
  assumes "env_ok E n" "proto n \<sigma> (pend w)" "exchange_step E M n (\<sigma>, w) (\<sigma>', w')"
  shows "transfer n \<sigma> (pend w) \<sigma>' (pend w')"
  using assms(3)
proof cases
  case (serve i cleanup s')
  then show ?thesis using serve_transfer [OF assms(1,2), of i cleanup] by simp
next
  case (receipt i s')
  then show ?thesis using receipt_transfer [OF assms(2), of i] by simp
next
  case (request i cleanup rc s')
  then show ?thesis
    using request_transfer [OF assms(1,2), of i cleanup] transfer.idle [of n \<sigma> "pend w"]
      transfer.asking [of i n \<sigma> "pend w" s' "pend w'"] by auto
qed

lemma exchange_kept:
  assumes "env_ok E n" "proto n \<sigma> (pend w)" "exchange_step E M n (\<sigma>, w) (\<sigma>', w')"
  shows "proto n \<sigma>' (pend w') \<and> all_items n \<sigma>' (pend w') = all_items n \<sigma> (pend w)"
  by (rule transfer_kept [OF assms(2) exchange_transfer [OF assms]])

lemma process_proto:
  assumes pr: "proto n \<sigma> (pend w)" and st: "process_step cb n (\<sigma>, w) (\<sigma>', w')"
  shows "proto n \<sigma>' (pend w')"
  using st
proof cases
  case (process i s')
  note ok = protoD(1) [OF pr process(3,4)]
  have "items (qp (\<sigma> i)) \<noteq> []"
    using process(5) ok items_empty_count [of "qp (\<sigma> i)"] by (auto simp: proc_ok_def)
  then have nw: "\<not> work_requested (\<sigma> i)" using ok by (auto simp: proc_ok_def)
  obtain c k where s': "s' = (\<sigma> i)\<lparr>circ := c, local_objects_processed := k\<rparr>"
    using process(7) by (auto simp: process_one_def elim!: bind_res_InrE)
  have "next_ok n s' = next_ok n (\<sigma> i)" by (rule next_ok_cong) (simp_all add: s')
  then have ok': "proc_ok n i s'" using ok nw process(8,9) by (simp add: s' proc_ok_def)
  have wf: "waits_for n (\<sigma>(i := s')) j k \<longleftrightarrow> waits_for n \<sigma> j k" for j k
    by (rule waits_for_upd) (simp_all add: s')
  show ?thesis
    unfolding process(1,2)
  proof (rule protoI, goal_cases)
    case (1 k) then show ?case using ok' protoD(1) [OF pr] by simp
  next
    case (2 k j) then show ?case using protoD(2) [OF pr, of j k] unfolding wf by blast
  next
    case (3 k j) then show ?case using protoD(3) [OF pr, of k j] unfolding wf by blast
  next
    case (4 k j) then show ?case using protoD(4) [OF pr, of j k] unfolding wf by blast
  next
    case (5 k j) then show ?case using protoD(5) [OF pr] by blast
  next
    case (6 k) then show ?case using protoD(6) [OF pr, of k] by (auto simp: s')
  qed
qed

lemma reachable_proto:
  assumes "(work_step_rel E M cb n)\<^sup>*\<^sup>* (\<sigma>, w) (\<sigma>', w')" "env_ok E n" "proto n \<sigma> (pend w)"
  shows "proto n \<sigma>' (pend w')"
  using assms(1)
proof (induction rule: rtranclp_induct2)
  case refl
  show ?case by (rule assms(3))
next
  case (step \<sigma>1 w1 \<sigma>2 w2)
  from step.hyps(2) have "exchange_step E M n (\<sigma>1, w1) (\<sigma>2, w2) \<or> process_step cb n (\<sigma>1, w1) (\<sigma>2, w2)"
    by (simp add: work_step_rel_def)
  then show ?case
    using exchange_kept [OF assms(2) step.IH] process_proto [OF step.IH] by blast
qed

end

section \<open>The start\<close>

text \<open>What the constructor of \<open>State\<close> establishes, and the create callback keeps.\<close>

lemma State_new_sel:
  assumes "State_new E i n now junk c = Inr s"
  shows "rank s = i" "nprocs s = n" "ABORT_FLAG s = 0" "\<not> work_requested s" "work_outstanding s = 0"
    "circ s = c" "offsets_count s = to_int32 (length (strings (queue c)))"
    "token_is_local s = (i = 0)" "token_proc s = WHITE" "token_buf s = BLACK" "token_send_req s = None"
    "token_src s = (i - 1 + n) smod n" "token_dest s = (i + 1 + n) smod n"
    "term_flag s = 1" "\<not> term_up s" "term_replies s = 0" "\<not> barrier_started s" "\<not> barrier_up s"
    "barrier_replies s = 0" "abort_state s = 0" "\<not> abort_outstanding s"
    "TreeState_new (malloc_ok E) i n (getTreeWidth c) = Inr (tree s)" "\<not> reduce_outstanding s"
    "local_objects_processed s = 0"
  using assms by (auto simp: State_new_def elim!: bind_res_InrE dest!: getNextProc_frame)

lemma State_new_next_ok:
  assumes "env_ok E n" "0 \<le> i" "i < n" "State_new E i n now junk c = Inr s"
  shows "next_ok n s"
proof -
  obtain s0 s1 t where s1: "getNextProc E s0 = Inr s1" "rank s0 = i" "nprocs s0 = n"
    and s: "s = s1\<lparr>tree := t, reduce_enabled := (getReducePeriod c > 0)\<rparr>"
    using assms(4) unfolding State_new_def by (auto elim!: bind_res_InrE)
  obtain np sd where np: "getNextProc E s0 = Inr (s0\<lparr>next_processor := np, seed := sd\<rparr>)"
    "case np of None \<Rightarrow> True | Some e \<Rightarrow> 0 \<le> e \<and> e < n \<and> e \<noteq> rank s0"
    using getNextProc_ok [OF assms(1) s1(3)] s1(2) assms(2,3) by metis
  have "s = s0\<lparr>next_processor := np, seed := sd, tree := t, reduce_enabled := (getReducePeriod c > 0)\<rparr>"
    using s1(1) np(1) s by simp
  then show ?thesis using np(2) by (cases np) (simp_all add: next_ok_def)
qed

definition starts_work :: "env \<Rightarrow> int \<Rightarrow> (int \<Rightarrow> 'u state) \<Rightarrow> bool" where
  "starts_work E n \<sigma> \<longleftrightarrow> (\<forall>i. 0 \<le> i \<longrightarrow> i < n \<longrightarrow>
     (\<exists>now junk c s c'. State_new E i n now junk c = Inr s \<and> int (length (strings (queue c))) \<le> INT_MAX
        \<and> \<sigma> i = s\<lparr>circ := c'\<rparr> \<and> wf_queue (queue c') \<and> fits (items (queue c'))))"

lemma starts_workD:
  assumes "starts_work E n \<sigma>" "env_ok E n" "0 \<le> i" "i < n"
  shows "proc_ok n i (\<sigma> i)" "\<not> work_requested (\<sigma> i)" "work_outstanding (\<sigma> i) = 0"
proof -
  obtain now junk c s c' where s: "State_new E i n now junk c = Inr s"
    "int (length (strings (queue c))) \<le> INT_MAX" "\<sigma> i = s\<lparr>circ := c'\<rparr>" "wf_queue (queue c')"
    "fits (items (queue c'))"
    using assms unfolding starts_work_def by blast
  note sel = State_new_sel [OF s(1)]
  have "next_ok n (\<sigma> i) = next_ok n s" by (rule next_ok_cong) (simp_all add: s)
  then show "proc_ok n i (\<sigma> i)" "\<not> work_requested (\<sigma> i)" "work_outstanding (\<sigma> i) = 0"
    using State_new_next_ok [OF assms(2-4) s(1)] s sel by (simp_all add: proc_ok_def)
qed

lemma start_proto:
  assumes "starts_work E n \<sigma>" "env_ok E n" "\<forall>k. p k = []"
  shows "proto n \<sigma> p"
  by (rule protoI)
    (use starts_workD [OF assms(1,2)] assms(3) in \<open>auto simp: waits_for_def receipts_def flights_def\<close>)

end
