(* ===== verification/Circle_Ring.thy ===== *)
theory Circle_Ring
  imports Circle_Protocol
begin

text \<open>
  Termination detection with the token ring: the system of \<open>Circle_Protocol\<close> with the
  operations on the token, the invariant that relates the position and the colour of the
  token to the work that is left, and its consequence, that a process terminates only when
  there is no work in the whole system.
\<close>

section \<open>Steps on the token\<close>

text \<open>An idle process first asks for work and, when it still has none, checks for
  termination; after it has terminated it drains the token in the cleanup loop.\<close>

inductive token_step :: "env \<Rightarrow> 'w mpi \<Rightarrow> int \<Rightarrow> ('u, 'w) config \<Rightarrow> ('u, 'w) config \<Rightarrow> bool"
  for E M n where
  check: "0 \<le> i \<Longrightarrow> i < n \<Longrightarrow> qcount (qp (\<sigma> i)) = 0 \<Longrightarrow>
    requestWork E M False (\<sigma> i) w = Inr (rc, s1, w1) \<Longrightarrow> qcount (qp s1) = 0 \<Longrightarrow>
    checkForTerm M s1 w1 = Inr (st, s', w') \<Longrightarrow> token_step E M n (\<sigma>, w) (\<sigma>(i := s'), w')"
| drain: "0 \<le> i \<Longrightarrow> i < n \<Longrightarrow> token_proc (\<sigma> i) = TERMINATE \<Longrightarrow>
    drain_token M (\<sigma> i) w = Inr (s', w') \<Longrightarrow> token_step E M n (\<sigma>, w) (\<sigma>(i := s'), w')"

definition ring_step :: "env \<Rightarrow> 'w mpi \<Rightarrow> 'u callbacks \<Rightarrow> int \<Rightarrow> ('u, 'w) config \<Rightarrow> ('u, 'w) config \<Rightarrow> bool" where
  "ring_step E M cb n c c' \<longleftrightarrow> work_step_rel E M cb n c c' \<or> token_step E M n c c'"

section \<open>The invariant\<close>

text \<open>A process is quiet when its queue is empty and no work is on the way to it.\<close>

definition quiet :: "(int \<Rightarrow> 'u state) \<Rightarrow> (channel \<Rightarrow> payload list) \<Rightarrow> int \<Rightarrow> bool" where
  "quiet \<sigma> p j \<longleftrightarrow> items (qp (\<sigma> j)) = [] \<and> (\<forall>k. in_flight (p (k, j, TAG_WORK_REPLY)) = [])"

text \<open>The token has passed the processes below \<open>m\<close> in this round: it is black, or a process
  it has yet to pass is black, or all it has passed are quiet.\<close>

definition safe_upto :: "int \<Rightarrow> int \<Rightarrow> int \<Rightarrow> (int \<Rightarrow> 'u state) \<Rightarrow> (channel \<Rightarrow> payload list) \<Rightarrow> bool" where
  "safe_upto n m c \<sigma> p \<longleftrightarrow> c = BLACK \<or> (\<exists>j. m \<le> j \<and> j < n \<and> token_proc (\<sigma> j) = BLACK)
     \<or> (\<forall>j. 0 \<le> j \<longrightarrow> j < m \<longrightarrow> quiet \<sigma> p j)"

definition token_held :: "int \<Rightarrow> (int \<Rightarrow> 'u state) \<Rightarrow> (channel \<Rightarrow> payload list) \<Rightarrow> int \<Rightarrow> bool" where
  "token_held n \<sigma> p t \<longleftrightarrow> token_is_local (\<sigma> t) \<and> (\<forall>j. 0 \<le> j \<longrightarrow> j < n \<longrightarrow> j \<noteq> t \<longrightarrow> \<not> token_is_local (\<sigma> j))
     \<and> (\<forall>a b. p (a, b, TAG_TOKEN) = [])"

definition token_flying :: "int \<Rightarrow> (int \<Rightarrow> 'u state) \<Rightarrow> (channel \<Rightarrow> payload list) \<Rightarrow> int \<Rightarrow> int \<Rightarrow> bool" where
  "token_flying n \<sigma> p t c \<longleftrightarrow> (\<forall>j. 0 \<le> j \<longrightarrow> j < n \<longrightarrow> \<not> token_is_local (\<sigma> j))
     \<and> p ((t - 1) mod n, t, TAG_TOKEN) = [Ints [c]]
     \<and> (\<forall>a b. (a, b) \<noteq> ((t - 1) mod n, t) \<longrightarrow> p (a, b, TAG_TOKEN) = [])"

definition colour :: "int \<Rightarrow> bool" where
  "colour c \<longleftrightarrow> c = WHITE \<or> c = BLACK"

definition running :: "int \<Rightarrow> (int \<Rightarrow> 'u state) \<Rightarrow> (channel \<Rightarrow> payload list) \<Rightarrow> bool" where
  "running n \<sigma> p \<longleftrightarrow> (\<forall>j. 0 \<le> j \<longrightarrow> j < n \<longrightarrow> colour (token_proc (\<sigma> j)))
     \<and> (\<exists>t c. 0 \<le> t \<and> t < n \<and> colour c \<and>
          (token_held n \<sigma> p t \<and> token_buf (\<sigma> t) = c \<and> (t \<noteq> 0 \<longrightarrow> safe_upto n t c \<sigma> p)
           \<or> token_flying n \<sigma> p t c \<and> safe_upto n (if t = 0 then n else t) c \<sigma> p))"

definition finished :: "int \<Rightarrow> (int \<Rightarrow> 'u state) \<Rightarrow> (channel \<Rightarrow> payload list) \<Rightarrow> bool" where
  "finished n \<sigma> p \<longleftrightarrow> token_proc (\<sigma> 0) = TERMINATE \<and> (\<forall>j. 0 \<le> j \<longrightarrow> j < n \<longrightarrow> quiet \<sigma> p j)"

definition ring_geometry :: "int \<Rightarrow> (int \<Rightarrow> 'u state) \<Rightarrow> bool" where
  "ring_geometry n \<sigma> \<longleftrightarrow> (\<forall>i. 0 \<le> i \<longrightarrow> i < n \<longrightarrow>
     token_dest (\<sigma> i) = (i + 1) mod n \<and> token_src (\<sigma> i) = (i - 1) mod n)"

definition ring_inv :: "int \<Rightarrow> (int \<Rightarrow> 'u state) \<Rightarrow> (channel \<Rightarrow> payload list) \<Rightarrow> bool" where
  "ring_inv n \<sigma> p \<longleftrightarrow> proto n \<sigma> p \<and> ring_geometry n \<sigma> \<and> (running n \<sigma> p \<or> finished n \<sigma> p)"

section \<open>The exchange of work\<close>

lemma transfer_token:
  assumes "transfer n \<sigma> p \<sigma>' p'"
  shows "p' (a, b, TAG_TOKEN) = p (a, b, TAG_TOKEN)" "token_is_local (\<sigma>' j) = token_is_local (\<sigma> j)"
    "token_buf (\<sigma>' j) = token_buf (\<sigma> j)" "token_src (\<sigma>' j) = token_src (\<sigma> j)"
    "token_dest (\<sigma>' j) = token_dest (\<sigma> j)"
    "token_proc (\<sigma>' j) = token_proc (\<sigma> j) \<or> token_proc (\<sigma>' j) = BLACK \<and> items (qp (\<sigma> j)) \<noteq> []"
proof -
  have "p' (a, b, TAG_TOKEN) = p (a, b, TAG_TOKEN) \<and> token_is_local (\<sigma>' j) = token_is_local (\<sigma> j)
    \<and> token_buf (\<sigma>' j) = token_buf (\<sigma> j) \<and> token_src (\<sigma>' j) = token_src (\<sigma> j)
    \<and> token_dest (\<sigma>' j) = token_dest (\<sigma> j)
    \<and> (token_proc (\<sigma>' j) = token_proc (\<sigma> j) \<or> token_proc (\<sigma>' j) = BLACK \<and> items (qp (\<sigma> j)) \<noteq> [])"
    using assms
  proof cases
    case idle
    then show ?thesis by simp
  next
    case (served i D xs g q oc sd)
    have "colour_after (\<sigma> i) D g = token_proc (\<sigma> i) \<or> colour_after (\<sigma> i) D g = BLACK \<and> items (qp (\<sigma> i)) \<noteq> []"
      using handed_work [OF served(7,5)] by (auto simp: colour_after_def)
    then show ?thesis
      unfolding served(1,2) by (simp add: after_replies_def requests_taken_def)
  next
    case (receipted i wo tf)
    have "p' (a, b, TAG_TOKEN) = p (a, b, TAG_TOKEN)"
      by (rule only_channelsD [OF receipted(5)]) simp
    then show ?thesis unfolding receipted(1) by simp
  next
    case (asking i s')
    from asking(5) show ?thesis unfolding asking(1)
      by cases (simp_all add: reply_from_def)
  qed
  then show "p' (a, b, TAG_TOKEN) = p (a, b, TAG_TOKEN)" "token_is_local (\<sigma>' j) = token_is_local (\<sigma> j)"
    "token_buf (\<sigma>' j) = token_buf (\<sigma> j)" "token_src (\<sigma>' j) = token_src (\<sigma> j)"
    "token_dest (\<sigma>' j) = token_dest (\<sigma> j)"
    "token_proc (\<sigma>' j) = token_proc (\<sigma> j) \<or> token_proc (\<sigma>' j) = BLACK \<and> items (qp (\<sigma> j)) \<noteq> []"
    by blast+
qed

text \<open>Work only reaches a process from one that has work, and then the sender is black when
  the receiver has the smaller rank.\<close>

lemma transfer_quiet:
  assumes pr: "proto n \<sigma> p" and tr: "transfer n \<sigma> p \<sigma>' p'" and q: "quiet \<sigma> p j"
  shows "quiet \<sigma>' p' j \<or> (\<exists>i. j < i \<and> i < n \<and> 0 \<le> i \<and> items (qp (\<sigma> i)) \<noteq> [] \<and> token_proc (\<sigma>' i) = BLACK)
    \<or> (\<exists>i. 0 \<le> i \<and> i < j \<and> items (qp (\<sigma> i)) \<noteq> [])"
  using tr
proof cases
  case idle
  then show ?thesis using q by simp
next
  case (served i D xs g q' oc sd)
  have ab: "ABORT_FLAG (\<sigma> i) = 0" "rank (\<sigma> i) = i" using protoD(1) [OF pr served(3,4)] by (auto simp: proc_ok_def)
  show ?thesis
  proof (cases "j \<in> D \<and> g j \<noteq> []")
    case True
    have ne: "items (qp (\<sigma> i)) \<noteq> []" using True handed_work [OF served(7,5)] by blast
    then have "i \<noteq> j" using q by (auto simp: quiet_def)
    moreover have "token_proc (\<sigma>' i) = BLACK" if "j < i"
      using True that ab unfolding served(1) by (auto simp: colour_after_def)
    ultimately show ?thesis using ne served(3,4) by (cases "j < i") auto
  next
    case False
    have "p (i, d, TAG_WORK_REPLY) = []" if "d \<in> D" for d
      using proto_request(3) [OF pr] served(6) that by blast
    then have "in_flight (p' (k, j, TAG_WORK_REPLY)) = []" for k
      using q False in_flight_reply_of [OF ab(1)] unfolding served(2)
      by (auto simp: after_replies_def requests_taken_def quiet_def ab)
    moreover have "items (qp (\<sigma>' j)) = []"
      using q served(7,8) queue_rep_items unfolding served(1) by (auto simp: quiet_def handed_def)
    ultimately show ?thesis by (simp add: quiet_def)
  qed
next
  case (receipted i wo tf)
  have "p' (k, j, TAG_WORK_REPLY) = p (k, j, TAG_WORK_REPLY)" for k
    by (rule only_channelsD [OF receipted(5)]) simp
  then have "quiet \<sigma>' p' j" using q unfolding receipted(1) by (auto simp: quiet_def)
  then show ?thesis by blast
next
  case (asking i s')
  have rk: "rank (\<sigma> i) = i" using protoD(1) [OF pr asking(2,3)] by (simp add: proc_ok_def)
  from asking(5) have "quiet \<sigma>' p' j"
  proof cases
    case (refused c)
    then show ?thesis using q rk unfolding asking(1) by (auto simp: quiet_def reply_from_def)
  next
    case (given ys q' c)
    have "in_flight (p (reply_from (\<sigma> i))) \<noteq> []" using given by simp
    then have "i \<noteq> j" using q rk by (auto simp: quiet_def reply_from_def)
    then show ?thesis using q given rk unfolding asking(1) by (auto simp: quiet_def reply_from_def)
  next
    case (ask d np x sd)
    then show ?thesis using q unfolding asking(1) by (auto simp: quiet_def)
  qed
  then show ?thesis by blast
qed

lemma transfer_safe:
  assumes pr: "proto n \<sigma> p" and tr: "transfer n \<sigma> p \<sigma>' p'" and m: "m \<le> n" and safe: "safe_upto n m c \<sigma> p"
  shows "safe_upto n m c \<sigma>' p'"
proof -
  consider "c = BLACK" | j where "m \<le> j" "j < n" "token_proc (\<sigma> j) = BLACK"
    | "\<forall>j. 0 \<le> j \<longrightarrow> j < m \<longrightarrow> quiet \<sigma> p j"
    using safe unfolding safe_upto_def by blast
  then show ?thesis
  proof cases
    case 1
    then show ?thesis by (simp add: safe_upto_def)
  next
    case 2
    then have "token_proc (\<sigma>' j) = BLACK" using transfer_token(6) [OF tr, of j] by auto
    with 2 show ?thesis unfolding safe_upto_def by blast
  next
    case 3
    show ?thesis
    proof (cases "\<forall>j. 0 \<le> j \<longrightarrow> j < m \<longrightarrow> quiet \<sigma>' p' j")
      case False
      then obtain j where j: "0 \<le> j" "j < m" "\<not> quiet \<sigma>' p' j" by blast
      have "\<not> (0 \<le> i \<and> i < m \<and> items (qp (\<sigma> i)) \<noteq> [])" for i using 3 by (auto simp: quiet_def)
      with transfer_quiet [OF pr tr, of j] 3 j obtain i where "j < i" "i < n" "0 \<le> i"
        "items (qp (\<sigma> i)) \<noteq> []" "token_proc (\<sigma>' i) = BLACK" by force
      moreover from this have "m \<le> i" using 3 by (meson not_le quiet_def)
      ultimately show ?thesis unfolding safe_upto_def by blast
    qed (simp add: safe_upto_def)
  qed
qed

lemma transfer_ring:
  assumes inv: "ring_inv n \<sigma> p" and tr: "transfer n \<sigma> p \<sigma>' p'"
  shows "ring_inv n \<sigma>' p'"
proof -
  have pr: "proto n \<sigma> p" using inv by (simp add: ring_inv_def)
  note tok = transfer_token [OF tr]
  have held: "token_held n \<sigma>' p' t \<longleftrightarrow> token_held n \<sigma> p t"
    and fly: "token_flying n \<sigma>' p' t c \<longleftrightarrow> token_flying n \<sigma> p t c" for t c
    by (simp_all add: token_held_def token_flying_def tok(1,2))
  have geo: "ring_geometry n \<sigma>'" using inv by (simp add: ring_inv_def ring_geometry_def tok(4,5))
  have "running n \<sigma>' p' \<or> finished n \<sigma>' p'"
  proof (cases "running n \<sigma> p")
    case True
    have "colour (token_proc (\<sigma>' j))" if "0 \<le> j" "j < n" for j
      using True that tok(6) [of j] by (auto simp: running_def colour_def)
    moreover have "safe_upto n m c \<sigma>' p'" if "safe_upto n m c \<sigma> p" "m \<le> n" for m c
      by (rule transfer_safe [OF pr tr that(2,1)])
    moreover obtain t c where t: "0 \<le> t" "t < n" "colour c"
      "token_held n \<sigma> p t \<and> token_buf (\<sigma> t) = c \<and> (t \<noteq> 0 \<longrightarrow> safe_upto n t c \<sigma> p)
       \<or> token_flying n \<sigma> p t c \<and> safe_upto n (if t = 0 then n else t) c \<sigma> p"
      using True unfolding running_def by blast
    ultimately have "token_held n \<sigma> p t \<and> token_buf (\<sigma> t) = c \<and> (t \<noteq> 0 \<longrightarrow> safe_upto n t c \<sigma>' p')
       \<or> token_flying n \<sigma> p t c \<and> safe_upto n (if t = 0 then n else t) c \<sigma>' p'"
      by (auto split: if_splits)
    then have "running n \<sigma>' p'"
      unfolding running_def held fly tok(3)
      using t(1-3) \<open>\<And>j. 0 \<le> j \<Longrightarrow> j < n \<Longrightarrow> colour (token_proc (\<sigma>' j))\<close> by blast
    then show ?thesis by simp
  next
    case False
    then have fin: "finished n \<sigma> p" using inv by (simp add: ring_inv_def)
    have q: "0 \<le> j \<Longrightarrow> j < n \<Longrightarrow> quiet \<sigma> p j" for j using fin by (simp add: finished_def)
    have none: "\<not> (0 \<le> i \<and> i < n \<and> items (qp (\<sigma> i)) \<noteq> [])" for i using q by (auto simp: quiet_def)
    have "quiet \<sigma>' p' j" if "0 \<le> j" "j < n" for j
      using transfer_quiet [OF pr tr q [OF that]] none that by (meson less_trans)
    moreover have "token_proc (\<sigma>' 0) = TERMINATE"
    proof (cases "0 < n")
      case True
      then show ?thesis using tok(6) [of 0] q [of 0] fin by (auto simp: finished_def quiet_def)
    next
      case False
      have "\<sigma>' = \<sigma>" using tr by cases (use False in auto)
      then show ?thesis using fin by (simp add: finished_def)
    qed
    ultimately show ?thesis by (simp add: finished_def)
  qed
  with geo transfer_kept [OF pr tr] show ?thesis by (simp add: ring_inv_def)
qed

section \<open>The token\<close>

text \<open>Operations on the token leave the exchange of work as it is.\<close>

lemma proto_token:
  assumes pr: "proto n \<sigma> p" and s': "s' = token_update lc tb tp tr (\<sigma> i)"
    and p': "\<And>a b t. t \<noteq> TAG_TOKEN \<Longrightarrow> p' (a, b, t) = p (a, b, t)"
  shows "proto n (\<sigma>(i := s')) p'"
proof -
  have req: "p' (a, b, TAG_WORK_REQUEST) = p (a, b, TAG_WORK_REQUEST)"
    and rep: "p' (a, b, TAG_WORK_REPLY) = p (a, b, TAG_WORK_REPLY)"
    and rct: "p' (a, b, TAG_WORK_RECEIPT) = p (a, b, TAG_WORK_RECEIPT)" for a b
    by (simp_all add: p')
  have wf: "waits_for n (\<sigma>(i := s')) j k \<longleftrightarrow> waits_for n \<sigma> j k" for j k
    by (rule waits_for_upd) (simp_all add: s')
  have nx: "next_ok n s' = next_ok n (\<sigma> i)" by (rule next_ok_cong) (simp_all add: s')
  show ?thesis
  proof (rule protoI, goal_cases)
    case (1 k)
    with protoD(1) [OF pr] nx show ?case by (auto simp: proc_ok_def s')
  next
    case (2 k j) then show ?case using protoD(2) [OF pr, of j k] unfolding wf req rep by blast
  next
    case (3 k j) then show ?case using protoD(3) [OF pr, of k j] unfolding wf rep by blast
  next
    case (4 k j) then show ?case using protoD(4) [OF pr, of j k] unfolding wf req rep by blast
  next
    case (5 k j) then show ?case using protoD(5) [OF pr, of j k] unfolding rct by blast
  next
    case (6 k) then show ?case
      using protoD(6) [OF pr, of k] by (cases "k = i") (simp_all add: receipts_def flights_def rep rct s')
  qed
qed

lemma quiet_token:
  assumes "s' = token_update lc tb tp tr (\<sigma> i)" "\<And>a b t. t \<noteq> TAG_TOKEN \<Longrightarrow> p' (a, b, t) = p (a, b, t)"
  shows "quiet (\<sigma>(i := s')) p' j \<longleftrightarrow> quiet \<sigma> p j"
  using assms by (simp add: quiet_def)

lemma geometry_token:
  "ring_geometry n \<sigma> \<Longrightarrow> s' = token_update lc tb tp tr (\<sigma> i) \<Longrightarrow> ring_geometry n (\<sigma>(i := s'))"
  by (simp add: ring_geometry_def)

text \<open>Once rank 0 has terminated nothing changes for the work.\<close>

lemma finished_token:
  assumes "finished n \<sigma> p" "s' = token_update lc tb tp tr (\<sigma> i)"
    "token_proc (\<sigma> i) = TERMINATE \<longrightarrow> tp = TERMINATE"
    "\<And>a b t. t \<noteq> TAG_TOKEN \<Longrightarrow> p' (a, b, t) = p (a, b, t)"
  shows "finished n (\<sigma>(i := s')) p'"
proof -
  have "quiet (\<sigma>(i := s')) p' j \<longleftrightarrow> quiet \<sigma> p j" for j
    by (rule quiet_token [where \<sigma> = \<sigma> and i = i and p = p and p' = p', OF assms(2,4)])
  with assms(1-3) show ?thesis by (auto simp: finished_def)
qed

text \<open>Passing the token on: the process is quiet, and hands its colour to the token.\<close>

lemma pass_token:
  assumes inv: "proto n \<sigma> p" "ring_geometry n \<sigma>" "running n \<sigma> p" and i: "0 \<le> i" "i < n"
    and q: "quiet \<sigma> p i" and loc: "token_is_local (\<sigma> i)"
    and b: "b = (if i = 0 then WHITE else if token_proc (\<sigma> i) = BLACK then BLACK else token_buf (\<sigma> i))"
    and s': "s' = token_update False b WHITE tr (\<sigma> i)"
    and p': "p' = p((i, (i + 1) mod n, TAG_TOKEN) := p (i, (i + 1) mod n, TAG_TOKEN) @ [Ints [b]])"
  shows "running n (\<sigma>(i := s')) p'"
proof -
  let ?d = "(i + 1) mod n"
  have p'_eq: "p' (a, c, t) = p (a, c, t)" if "t \<noteq> TAG_TOKEN" for a c t
    using that by (simp add: p')
  have qt: "quiet (\<sigma>(i := s')) p' j \<longleftrightarrow> quiet \<sigma> p j" for j by (rule quiet_token [where \<sigma> = \<sigma> and i = i and p = p and p' = p', OF s' p'_eq])
  obtain t c where t: "0 \<le> t" "t < n" "colour c"
    "token_held n \<sigma> p t \<and> token_buf (\<sigma> t) = c \<and> (t \<noteq> 0 \<longrightarrow> safe_upto n t c \<sigma> p)
     \<or> token_flying n \<sigma> p t c \<and> safe_upto n (if t = 0 then n else t) c \<sigma> p"
    and col: "\<And>j. 0 \<le> j \<Longrightarrow> j < n \<Longrightarrow> colour (token_proc (\<sigma> j))"
    using inv(3) unfolding running_def by blast
  have held: "token_held n \<sigma> p i" "token_buf (\<sigma> i) = c" "i \<noteq> 0 \<longrightarrow> safe_upto n i c \<sigma> p"
    using t i loc by (auto simp: token_held_def token_flying_def)
  have d: "0 \<le> ?d" "?d < n" "(?d - 1) mod n = i"
    using i by (auto simp: mod_diff_left_eq)
  have cb: "colour b" using t(3) held(2) by (auto simp: b colour_def)
  have fly: "token_flying n (\<sigma>(i := s')) p' ?d b"
    using held(1) by (auto simp: token_flying_def token_held_def d(3) p' s')
  have safe: "safe_upto n (i + 1) b (\<sigma>(i := s')) p'"
  proof (cases "b = BLACK")
    case True
    then show ?thesis by (simp add: safe_upto_def)
  next
    case False
    have upto: "0 \<le> j \<Longrightarrow> j < i + 1 \<Longrightarrow> quiet \<sigma> p j" if "\<And>j. 0 \<le> j \<Longrightarrow> j < i \<Longrightarrow> quiet \<sigma> p j" for j
      using that q by (cases "j = i") auto
    show ?thesis
    proof (cases "i = 0")
      case True
      have "quiet (\<sigma>(i := s')) p' j" if "0 \<le> j" "j < i + 1" for j
      proof -
        have "j = i" using that True by simp
        then show ?thesis using q qt by simp
      qed
      then show ?thesis by (simp add: safe_upto_def)
    next
      case pos: False
      then have "c \<noteq> BLACK" "token_proc (\<sigma> i) \<noteq> BLACK" using False held(2) by (auto simp: b split: if_splits)
      with held(3) pos consider j where "i \<le> j" "j < n" "token_proc (\<sigma> j) = BLACK" "j \<noteq> i"
        | "\<forall>j. 0 \<le> j \<longrightarrow> j < i \<longrightarrow> quiet \<sigma> p j" unfolding safe_upto_def by blast
      then show ?thesis
      proof cases
        case 1
        then have "i + 1 \<le> j" "token_proc ((\<sigma>(i := s')) j) = BLACK" by simp_all
        with 1 show ?thesis unfolding safe_upto_def by blast
      next
        case 2
        then show ?thesis using upto by (auto simp: safe_upto_def qt)
      qed
    qed
  qed
  have m: "(if ?d = 0 then n else ?d) = i + 1"
  proof (cases "i + 1 = n")
    case False
    then have "?d = i + 1" using i by simp
    with i show ?thesis by simp
  qed simp
  have "colour (token_proc ((\<sigma>(i := s')) j))" if "0 \<le> j" "j < n" for j
    using col that by (simp add: s' colour_def)
  with d(1,2) cb fly safe show ?thesis
    unfolding running_def using m by (intro conjI exI [of _ ?d] exI [of _ b]) auto
qed

text \<open>Receiving the token.\<close>

lemma flying_unique:
  assumes "running n \<sigma> p" "0 \<le> i" "i < n" "p ((i - 1) mod n, i, TAG_TOKEN) = Ints [c] # ps"
  shows "ps = []" "colour c" "token_flying n \<sigma> p i c" "safe_upto n (if i = 0 then n else i) c \<sigma> p"
proof -
  obtain t c' where t: "0 \<le> t" "t < n" "colour c'"
    "token_held n \<sigma> p t \<and> token_buf (\<sigma> t) = c' \<and> (t \<noteq> 0 \<longrightarrow> safe_upto n t c' \<sigma> p)
     \<or> token_flying n \<sigma> p t c' \<and> safe_upto n (if t = 0 then n else t) c' \<sigma> p"
    using assms(1) unfolding running_def by blast
  have fl: "token_flying n \<sigma> p t c'" "safe_upto n (if t = 0 then n else t) c' \<sigma> p"
    using t(4) assms(4) by (auto simp: token_held_def)
  have "t = i" using fl(1) assms(4) unfolding token_flying_def by (metis list.distinct(1) prod.inject)
  with fl assms(4) t(3) show "ps = []" "colour c" "token_flying n \<sigma> p i c"
    "safe_upto n (if i = 0 then n else i) c \<sigma> p"
    by (auto simp: token_flying_def)
qed

lemma take_token_update:
  "take_token c s = token_update True c (if token_proc s = BLACK \<and> c = BLACK then WHITE else token_proc s) None s"
  by (cases s) (simp add: take_token_def token_update_def)

lemma receive_token:
  assumes inv: "running n \<sigma> p" and i: "0 \<le> i" "i < n"
    and fl: "token_flying n \<sigma> p i c" and c: "colour c" and safe: "safe_upto n (if i = 0 then n else i) c \<sigma> p"
    and stay: "\<not> (i = 0 \<and> c = WHITE)"
    and s': "s' = take_token c (\<sigma> i)" and p': "p' = p(((i - 1) mod n, i, TAG_TOKEN) := [])"
  shows "running n (\<sigma>(i := s')) p'"
proof -
  note s'' = s' [unfolded take_token_update]
  have p'_eq: "p' (a, b, t) = p (a, b, t)" if "t \<noteq> TAG_TOKEN" for a b t using that by (simp add: p')
  have qt: "quiet (\<sigma>(i := s')) p' j \<longleftrightarrow> quiet \<sigma> p j" for j by (rule quiet_token [where \<sigma> = \<sigma> and i = i and p = p and p' = p', OF s'' p'_eq])
  have held: "token_held n (\<sigma>(i := s')) p' i" using fl by (auto simp: token_held_def token_flying_def s'' p')
  have "safe_upto n i c (\<sigma>(i := s')) p'" if "i \<noteq> 0"
  proof (cases "c = BLACK")
    case True
    then show ?thesis by (simp add: safe_upto_def)
  next
    case False
    then have "token_proc ((\<sigma>(i := s')) j) = token_proc (\<sigma> j)" for j by (simp add: s'')
    with safe that show ?thesis unfolding safe_upto_def qt by simp
  qed
  moreover have "colour (token_proc ((\<sigma>(i := s')) j))" if "0 \<le> j" "j < n" for j
    using inv that by (auto simp: running_def s'' colour_def)
  moreover have "token_buf ((\<sigma>(i := s')) i) = c" by (simp add: s'')
  ultimately show ?thesis
    unfolding running_def using held c i by (intro conjI exI [of _ i] exI [of _ c]) auto
qed

context mpi_laws
begin

lemma drain_frame:
  assumes "drain_token M s w = Inr (s', w')"
  shows "\<exists>lc tb tp tr. s' = token_update lc tb tp tr s \<and> (token_proc s = TERMINATE \<longrightarrow> tp = TERMINATE)"
    "\<And>a b t. t \<noteq> TAG_TOKEN \<Longrightarrow> pend w' (a, b, t) = pend w (a, b, t)"
proof -
  obtain s1 w1 where ck: "tokenCheck M s w = Inr (s1, w1)"
    and tst: "(case token_send_req s1 of None \<Rightarrow> Inr (s1, w1) | Some req \<Rightarrow>
        (case MPI_Test M (rank s1) req w1 of (flag, w) \<Rightarrow>
          Inr (if flag then s1\<lparr>token_send_req := None\<rparr> else s1, w))) = (Inr (s', w') :: (_ \<times> _) res)"
    using assms unfolding drain_token_def by (auto elim!: bind_res_InrE)
  have one: "(\<exists>lc tb tp tr. s1 = token_update lc tb tp tr s \<and> (token_proc s = TERMINATE \<longrightarrow> tp = TERMINATE))
    \<and> (\<forall>a b t. t \<noteq> TAG_TOKEN \<longrightarrow> pend w1 (a, b, t) = pend w (a, b, t))"
    using tokenCheck_eff [OF ck]
  proof (elim disjE exE conjE)
    assume "s1 = s" "pend w1 = pend w"
    then show ?thesis using token_update_id [of "s"] by metis
  next
    fix w2 assume w2: "pend w2 = pend w" "tokenRecv M s w2 = Inr (s1, w1)"
    from tokenRecv_frame [OF w2(2) refl] w2(1) show ?thesis by simp
  qed
  have two: "\<exists>r. s' = s1\<lparr>token_send_req := r\<rparr>" "pend w' = pend w1"
  proof -
    have "s' = s1\<lparr>token_send_req := token_send_req s'\<rparr>"
      using tst by (auto split: option.splits prod.splits if_splits)
    then show "\<exists>r. s' = s1\<lparr>token_send_req := r\<rparr>" by (rule exI)
    show "pend w' = pend w1" using tst test_law by (auto split: option.splits prod.splits)
  qed
  show "\<exists>lc tb tp tr. s' = token_update lc tb tp tr s \<and> (token_proc s = TERMINATE \<longrightarrow> tp = TERMINATE)"
  proof -
    obtain lc tb tp tr r where "s1 = token_update lc tb tp tr s" "token_proc s = TERMINATE \<longrightarrow> tp = TERMINATE"
      "s' = s1\<lparr>token_send_req := r\<rparr>"
      using one two(1) by blast
    then have "s' = token_update lc tb tp r s" "token_proc s = TERMINATE \<longrightarrow> tp = TERMINATE"
      by (simp_all add: token_update_def)
    then show ?thesis by blast
  qed
  show "\<And>a b t. t \<noteq> TAG_TOKEN \<Longrightarrow> pend w' (a, b, t) = pend w (a, b, t)" using one two(2) by simp
qed

end

section \<open>Every step keeps the invariant\<close>

lemma items_nil: "proc_ok n i s \<Longrightarrow> items (qp s) = [] \<longleftrightarrow> qcount (qp s) = 0"
  by (rule items_empty_count) (simp add: proc_ok_def)

context mpi_eager
begin

text \<open>A process that asked for work and still has none is quiet: nothing is on the way to it.\<close>

lemma asked_quiet:
  assumes E: "env_ok E n" and pr: "proto n \<sigma> (pend w)" and i: "0 \<le> i" "i < n"
    and q0: "qcount (qp (\<sigma> i)) = 0" and rq: "requestWork E M False (\<sigma> i) w = Inr (rc, s1, w1)"
    and q1: "qcount (qp s1) = 0"
  shows "transfer n \<sigma> (pend w) (\<sigma>(i := s1)) (pend w1)" "quiet (\<sigma>(i := s1)) (pend w1) i"
proof -
  have idle: "qcount (qp (\<sigma> i)) = 0 \<or> False" using q0 by simp
  have em: "items (qp (\<sigma> i)) = []" using items_nil [OF protoD(1) [OF pr i]] q0 by simp
  have rk: "rank (\<sigma> i) = i" using protoD(1) [OF pr i] by (simp add: proc_ok_def)
  have post: "asked n (\<sigma> i) (pend w) s1 (pend w1) \<or> s1 = \<sigma> i \<and> pend w1 = pend w \<and>
      (work_requested (\<sigma> i) \<longrightarrow> fst (MPI_Iprobe M i (Some (work_requested_rank (\<sigma> i))) TAG_WORK_REPLY w) = None)"
    using yields_D [OF request_transfer [OF E pr i idle] rq] by auto
  show tr: "transfer n \<sigma> (pend w) (\<sigma>(i := s1)) (pend w1)"
    using post transfer.asking [of i n \<sigma> "pend w" s1 "pend w1"] transfer.idle [of n \<sigma> "pend w"] i em by auto
  have pr1: "proto n (\<sigma>(i := s1)) (pend w1)" using transfer_kept [OF pr tr] by blast
  have em1: "items (qp s1) = []" using items_nil [OF protoD(1) [OF pr1 i]] q1 by simp
  have none: "pend w1 (k, i, TAG_WORK_REPLY) = []" for k
  proof (rule ccontr)
    assume ne: "pend w1 (k, i, TAG_WORK_REPLY) \<noteq> []"
    then have wf: "work_requested s1" "work_requested_rank s1 = k"
      using protoD(3) [OF pr1, of k i] by (auto simp: waits_for_def)
    from post show False
    proof
      assume "asked n (\<sigma> i) (pend w) s1 (pend w1)"
      then show False
      proof cases
        case (ask d np x sd)
        have "pend w (k, i, TAG_WORK_REPLY) \<noteq> []" using ne ask by simp
        then show False using protoD(3) [OF pr, of k i] ask by (auto simp: waits_for_def)
      qed (use wf in auto)
    next
      assume "s1 = \<sigma> i \<and> pend w1 = pend w \<and>
      (work_requested (\<sigma> i) \<longrightarrow> fst (MPI_Iprobe M i (Some (work_requested_rank (\<sigma> i))) TAG_WORK_REPLY w) = None)"
      then show False using ne wf iprobe_none by auto
    qed
  qed
  show "quiet (\<sigma>(i := s1)) (pend w1) i" using em1 none by (simp add: quiet_def)
qed

lemma check_running:
  assumes pr: "proto n \<sigma> (pend w)" and geo: "ring_geometry n \<sigma>" and run: "running n \<sigma> (pend w)"
    and i: "0 \<le> i" "i < n" and q: "quiet \<sigma> (pend w) i"
    and ck: "checkForTerm M (\<sigma> i) w = Inr (st, s', w')"
  shows "running n (\<sigma>(i := s')) (pend w') \<or> finished n (\<sigma>(i := s')) (pend w')"
proof -
  have st: "rank (\<sigma> i) = i" "ABORT_FLAG (\<sigma> i) = 0" "nprocs (\<sigma> i) = n"
    using protoD(1) [OF pr i] by (auto simp: proc_ok_def)
  have nt: "token_proc (\<sigma> i) \<noteq> TERMINATE" using run i by (auto simp: running_def colour_def)
  have ch: "token_out (\<sigma> i) = (i, (i + 1) mod n, TAG_TOKEN)" "token_in (\<sigma> i) = ((i - 1) mod n, i, TAG_TOKEN)"
    using geo i st by (simp_all add: ring_geometry_def token_out_def token_in_def)
  show ?thesis
  proof (cases "token_is_local (\<sigma> i)")
    case True
    obtain b h where b: "s' = token_update False b WHITE (Some h) (\<sigma> i)"
      "b = (if i = 0 then WHITE else if token_proc (\<sigma> i) = BLACK then BLACK else token_buf (\<sigma> i))"
      "pend w' = (pend w)((i, (i + 1) mod n, TAG_TOKEN) := pend w (i, (i + 1) mod n, TAG_TOKEN) @ [Ints [b]])"
      using checkForTerm_local [OF ck nt st(2) True] unfolding ch st(1) token_update_def by blast
    from pass_token [OF pr geo run i q True b(2,1,3)] show ?thesis by blast
  next
    case False
    from checkForTerm_remote [OF ck nt False] show ?thesis
    proof (elim disjE exE conjE)
      assume "s' = \<sigma> i" "pend w' = pend w"
      then show ?thesis using run by simp
    next
      fix w1 assume w1: "pend w1 = pend w" and rcv: "tokenRecv M (\<sigma> i) w1 = Inr (s', w')"
      obtain token ps where r: "pend w (token_in (\<sigma> i)) = Ints [token] # ps" and
        eff: "\<not> token_ends token (\<sigma> i) \<longrightarrow> s' = take_token token (\<sigma> i) \<and> pend w' = (pend w)(token_in (\<sigma> i) := ps)"
          "token_ends token (\<sigma> i) \<longrightarrow> token_proc s' = TERMINATE"
        using tokenRecv_cases [OF rcv] unfolding w1 by metis
      note un = flying_unique [OF run i r [unfolded ch(2)]]
      show ?thesis
      proof (cases "i = 0 \<and> token = WHITE")
        case white: True
        then have t: "token_proc s' = TERMINATE" using eff st by (simp add: token_ends_def)
        obtain lc tb tp tr where s': "s' = token_update lc tb tp tr (\<sigma> i)"
          using tokenRecv_frame(1) [OF rcv refl] by blast
        have p': "pend w' (a, b, t) = pend w (a, b, t)" if "t \<noteq> TAG_TOKEN" for a b t
          using tokenRecv_frame(2) [OF rcv refl that] w1 by simp
        have "quiet (\<sigma>(i := s')) (pend w') j \<longleftrightarrow> quiet \<sigma> (pend w) j" for j
          by (rule quiet_token [where \<sigma> = \<sigma> and i = i and p = "pend w" and p' = "pend w'", OF s' p'])
        moreover have "quiet \<sigma> (pend w) j" if "0 \<le> j" "j < n" for j
          using un(4) white that by (auto simp: safe_upto_def)
        ultimately show ?thesis using t white by (simp add: finished_def)
      next
        case stay: False
        then have "s' = take_token token (\<sigma> i)" "pend w' = (pend w)(((i - 1) mod n, i, TAG_TOKEN) := [])"
          using eff st un(1,2) ch(2) by (auto simp: token_ends_def colour_def)
        from receive_token [OF run i un(3,2,4) stay this] show ?thesis by blast
      qed
    qed
  qed
qed

lemma token_step_ring:
  assumes E: "env_ok E n" and inv: "ring_inv n \<sigma> (pend w)" and st: "token_step E M n (\<sigma>, w) (\<sigma>', w')"
  shows "ring_inv n \<sigma>' (pend w')"
  using st
proof cases
  case (check i rc s1 w1 st s')
  have pr: "proto n \<sigma> (pend w)" using inv by (simp add: ring_inv_def)
  let ?\<sigma>1 = "\<sigma>(i := s1)"
  note ask = asked_quiet [OF E pr check(2-6)]
  have inv1: "ring_inv n ?\<sigma>1 (pend w1)" by (rule transfer_ring [OF inv ask(1)])
  have ck: "checkForTerm M (?\<sigma>1 i) w1 = Inr (st, s', w')" using check(7) by simp
  obtain lc tb tp tr where s': "s' = token_update lc tb tp tr (?\<sigma>1 i)" "token_proc (?\<sigma>1 i) = TERMINATE \<longrightarrow> tp = TERMINATE"
    using checkForTerm_frame(1) [OF ck] by blast
  note p' = checkForTerm_frame(2) [OF ck]
  have upd: "\<sigma>' = ?\<sigma>1(i := s')" using check by simp
  have "running n \<sigma>' (pend w') \<or> finished n \<sigma>' (pend w')"
  proof (cases "running n ?\<sigma>1 (pend w1)")
    case True
    have "proto n ?\<sigma>1 (pend w1)" "ring_geometry n ?\<sigma>1" using inv1 by (simp_all add: ring_inv_def)
    from check_running [where \<sigma> = ?\<sigma>1, OF this True check(2,3) ask(2) ck] show ?thesis unfolding upd .
  next
    case False
    then have "finished n ?\<sigma>1 (pend w1)" using inv1 by (simp add: ring_inv_def)
    from finished_token [where \<sigma> = ?\<sigma>1 and i = i and p' = "pend w'", OF this s' p'] show ?thesis unfolding upd by blast
  qed
  moreover have "proto n \<sigma>' (pend w')"
    unfolding upd by (rule proto_token [where \<sigma> = ?\<sigma>1 and i = i and p = "pend w1" and p' = "pend w'", OF _ s'(1) p']) (use inv1 in \<open>simp add: ring_inv_def\<close>)
  moreover have "ring_geometry n \<sigma>'"
    unfolding upd by (rule geometry_token [where \<sigma> = ?\<sigma>1 and i = i, OF _ s'(1)]) (use inv1 in \<open>simp add: ring_inv_def\<close>)
  ultimately show ?thesis by (simp add: ring_inv_def)
next
  case (drain i s')
  have fin: "finished n \<sigma> (pend w)" and pr: "proto n \<sigma> (pend w)" and geo: "ring_geometry n \<sigma>"
    using inv drain by (auto simp: ring_inv_def running_def colour_def)
  obtain lc tb tp tr where s': "s' = token_update lc tb tp tr (\<sigma> i)" "token_proc (\<sigma> i) = TERMINATE \<longrightarrow> tp = TERMINATE"
    using drain_frame(1) [OF drain(5)] by blast
  note p' = drain_frame(2) [OF drain(5)]
  show ?thesis
    using proto_token [where \<sigma> = \<sigma> and i = i and p = "pend w" and p' = "pend w'", OF pr s'(1) p']
      geometry_token [where \<sigma> = \<sigma> and i = i, OF geo s'(1)]
      finished_token [where \<sigma> = \<sigma> and i = i and p' = "pend w'", OF fin s' p']
    unfolding drain(1) by (simp add: ring_inv_def)
qed

lemma process_ring:
  assumes inv: "ring_inv n \<sigma> (pend w)" and st: "process_step cb n (\<sigma>, w) (\<sigma>', w')"
  shows "ring_inv n \<sigma>' (pend w')"
proof -
  have pr: "proto n \<sigma> (pend w)" using inv by (simp add: ring_inv_def)
  note pr' = process_proto [OF pr st]
  from st show ?thesis
  proof cases
    case (process i s')
    have ne: "items (qp (\<sigma> i)) \<noteq> []"
      using items_nil [OF protoD(1) [OF pr process(3,4)]] process(5) by auto
    obtain c k where s': "s' = (\<sigma> i)\<lparr>circ := c, local_objects_processed := k\<rparr>"
      using process(7) by (auto simp: process_one_def elim!: bind_res_InrE)
    have tok: "token_proc (\<sigma>' j) = token_proc (\<sigma> j)" "token_is_local (\<sigma>' j) = token_is_local (\<sigma> j)"
      "token_buf (\<sigma>' j) = token_buf (\<sigma> j)" "token_src (\<sigma>' j) = token_src (\<sigma> j)"
      "token_dest (\<sigma>' j) = token_dest (\<sigma> j)" for j
      unfolding process(1) s' by simp_all
    have q: "quiet \<sigma> (pend w) j \<Longrightarrow> quiet \<sigma>' (pend w') j" for j
      using ne unfolding process(1,2) by (auto simp: quiet_def)
    have run: "running n \<sigma> (pend w)"
      using inv ne process(3,4) by (auto simp: ring_inv_def finished_def quiet_def)
    have safe: "safe_upto n m c \<sigma>' (pend w')" if "safe_upto n m c \<sigma> (pend w)" for m c
      using that q unfolding safe_upto_def tok by blast
    have "running n \<sigma>' (pend w')"
      using run safe unfolding running_def token_held_def token_flying_def tok process(2) by blast
    moreover have "ring_geometry n \<sigma>'" using inv by (simp add: ring_inv_def ring_geometry_def tok)
    ultimately show ?thesis using pr' by (simp add: ring_inv_def)
  qed
qed

lemma reachable_ring:
  assumes "(ring_step E M cb n)\<^sup>*\<^sup>* (\<sigma>, w) (\<sigma>', w')" "env_ok E n" "ring_inv n \<sigma> (pend w)"
  shows "ring_inv n \<sigma>' (pend w')"
  using assms(1)
proof (induction rule: rtranclp_induct2)
  case refl
  show ?case by (rule assms(3))
next
  case (step \<sigma>1 w1 \<sigma>2 w2)
  have pr: "proto n \<sigma>1 (pend w1)" using step.IH by (simp add: ring_inv_def)
  from step.hyps(2) consider "exchange_step E M n (\<sigma>1, w1) (\<sigma>2, w2)" | "process_step cb n (\<sigma>1, w1) (\<sigma>2, w2)"
    | "token_step E M n (\<sigma>1, w1) (\<sigma>2, w2)"
    unfolding ring_step_def work_step_rel_def by blast
  then show ?case
  proof cases
    case 1
    show ?thesis by (rule transfer_ring [OF step.IH exchange_transfer [OF assms(2) pr 1]])
  next
    case 2
    show ?thesis by (rule process_ring [OF step.IH 2])
  next
    case 3
    show ?thesis by (rule token_step_ring [OF assms(2) step.IH 3])
  qed
qed

end

section \<open>The start\<close>

lemma ring_neighbours:
  assumes "0 \<le> i" "i < (n::int)"
  shows "(i + 1 + n) smod n = (i + 1) mod n" "(i - 1 + n) smod n = (i - 1) mod n"
  using assms by simp_all

lemma start_ring:
  assumes st: "starts_work E n \<sigma>" and E: "env_ok E n" and p: "\<forall>k. p k = []" and n: "0 < n"
  shows "ring_inv n \<sigma> p"
proof -
  have sel: "token_dest (\<sigma> i) = (i + 1) mod n \<and> token_src (\<sigma> i) = (i - 1) mod n \<and> token_is_local (\<sigma> i) = (i = 0)
      \<and> token_proc (\<sigma> i) = WHITE \<and> token_buf (\<sigma> i) = BLACK" if i: "0 \<le> i" "i < n" for i
  proof -
    obtain now junk c s c' where s: "State_new E i n now junk c = Inr s" "\<sigma> i = s\<lparr>circ := c'\<rparr>"
      using st i unfolding starts_work_def by blast
    show ?thesis using State_new_sel [OF s(1)] ring_neighbours [OF i] s(2) by simp
  qed
  have "token_held n \<sigma> p 0" using sel p n by (simp add: token_held_def)
  then have "running n \<sigma> p"
    unfolding running_def using sel n
    by (intro conjI exI [of _ 0] exI [of _ BLACK]) (auto simp: colour_def)
  then show ?thesis
    using start_proto [OF st E p] sel by (simp add: ring_inv_def ring_geometry_def)
qed

text \<open>A terminated process is only found in a finished system, and that has no work.\<close>

lemma ring_terminated:
  assumes "ring_inv n \<sigma> p" "0 \<le> i" "i < n" "token_proc (\<sigma> i) = TERMINATE"
  shows "finished n \<sigma> p"
  using assms by (auto simp: ring_inv_def running_def colour_def)

lemma finished_items:
  assumes "finished n \<sigma> p"
  shows "all_items n \<sigma> p = {#}"
proof -
  have q: "quiet \<sigma> p j" if "0 \<le> j" "j < n" for j using assms that by (auto simp: finished_def)
  have "queued n \<sigma> = {#}" unfolding queued_def by (rule sum.neutral) (use q in \<open>auto simp: quiet_def\<close>)
  moreover have "travelling n p = {#}"
    unfolding travelling_def by (rule sum.neutral) (use q in \<open>auto simp: quiet_def\<close>)
  ultimately show ?thesis by (simp add: all_items_def)
qed

section \<open>One token\<close>

text \<open>Before process 0 knows of termination there is one token: one process holds it and none
  is on the way, or none holds it and one message with it is on the way.\<close>

definition one_token :: "int \<Rightarrow> (int \<Rightarrow> 'u state) \<Rightarrow> (channel \<Rightarrow> payload list) \<Rightarrow> bool" where
  "one_token n \<sigma> p \<longleftrightarrow>
     (\<exists>!t. 0 \<le> t \<and> t < n \<and> token_is_local (\<sigma> t)) \<and> (\<forall>a b. p (a, b, TAG_TOKEN) = [])
     \<or> (\<forall>t. 0 \<le> t \<longrightarrow> t < n \<longrightarrow> \<not> token_is_local (\<sigma> t))
       \<and> (\<exists>!t. 0 \<le> t \<and> t < n \<and> p ((t - 1) mod n, t, TAG_TOKEN) \<noteq> [])
       \<and> (\<forall>a b. length (p (a, b, TAG_TOKEN)) \<le> 1)
       \<and> (\<forall>a b. p (a, b, TAG_TOKEN) \<noteq> [] \<longrightarrow> a = (b - 1) mod n)"

lemma running_one_token:
  assumes "running n \<sigma> p"
  shows "one_token n \<sigma> p"
proof -
  obtain t c where t: "0 \<le> t" "t < n" "token_held n \<sigma> p t \<or> token_flying n \<sigma> p t c"
    using assms unfolding running_def by blast
  from t(3) show ?thesis
  proof
    assume h: "token_held n \<sigma> p t"
    then have "\<exists>!t. 0 \<le> t \<and> t < n \<and> token_is_local (\<sigma> t)"
      using t unfolding token_held_def by (intro ex1I [of _ t]) auto
    with h show ?thesis by (simp add: one_token_def token_held_def)
  next
    assume f: "token_flying n \<sigma> p t c"
    then have "\<exists>!t. 0 \<le> t \<and> t < n \<and> p ((t - 1) mod n, t, TAG_TOKEN) \<noteq> []"
      using t unfolding token_flying_def by (intro ex1I [of _ t]) auto
    moreover have "length (p (a, b, TAG_TOKEN)) \<le> 1 \<and> (p (a, b, TAG_TOKEN) \<noteq> [] \<longrightarrow> a = (b - 1) mod n)" for a b
    proof (cases "(a, b) = ((t - 1) mod n, t)")
      case True
      with f show ?thesis unfolding token_flying_def by simp
    next
      case False
      with f have "p (a, b, TAG_TOKEN) = []" unfolding token_flying_def by blast
      then show ?thesis by simp
    qed
    ultimately show ?thesis using f unfolding one_token_def token_flying_def by blast
  qed
qed

end
