(* ===== verification/Circle_Demo.thy ===== *)
theory Circle_Demo
  imports Circle_Protocol "HOL-Library.Code_Target_Nat"
begin

text \<open>
  A small concrete system, used to show that the hypotheses of the properties can hold:
  two processes on the reference network, the first with two items of work.
\<close>

section \<open>Environment\<close>

definition demo_os :: os_env where
  "demo_os = \<lparr>can_write = (\<lambda>_. True), can_read = (\<lambda>_. True), fprintf_ok = (\<lambda>_. True), fclose_rc = 0\<rparr>"

definition demo_env :: env where
  "demo_env = \<lparr>pagesize = 1, malloc_ok = (\<lambda>_. True), rand_r = (\<lambda>sd. (int sd, sd + 1)), os = demo_os\<rparr>"

lemma pick_other_demo:
  assumes "2 \<le> n"
  shows "pick_other (\<lambda>sd. (int sd, sd + 1)) r n sd \<noteq> None"
proof -
  let ?rand = "\<lambda>sd. (int sd, sd + 1)"
  have "int sd mod n \<noteq> (int sd + 1) mod n"
  proof
    assume eq: "int sd mod n = (int sd + 1) mod n"
    have "(int sd + 1 - int sd) mod n = 0"
      using mod_diff_cong [OF eq refl, of "int sd"] by simp
    with assms show False by simp
  qed
  moreover have "int sd smod n = int sd mod n" "int (sd + 1) smod n = (int sd + 1) mod n"
    using assms by (simp_all add: add.commute)
  ultimately have "int sd smod n \<noteq> r \<or> int (sd + 1) smod n \<noteq> r" by auto
  then have "fst (?rand (seed_after ?rand 0 sd)) smod n \<noteq> r \<or> fst (?rand (seed_after ?rand 1 sd)) smod n \<noteq> r"
    by (simp add: seed_after_def)
  then show ?thesis using pick_other_returns [of ?rand 0 sd n r] pick_other_returns [of ?rand 1 sd n r] by auto
qed

lemma demo_env_ok: "2 \<le> n \<Longrightarrow> env_ok demo_env n"
  using pick_other_demo by (auto simp: env_ok_def demo_env_def)

section \<open>Two processes\<close>

definition demo_queue :: "int \<Rightarrow> queue" where
  "demo_queue i = (if i = 0 then \<lparr>base = [7, 8, 9, 0], head = 3, strings = [0, 1, 0, 0], qcount = 2\<rparr>
     else \<lparr>base = [0, 0, 0, 0], head = 0, strings = [0, 0, 0, 0], qcount = 0\<rparr>)"

lemma demo_queue_rep: "queue_rep (demo_queue 0) [[7], [8, 9]]" "i \<noteq> 0 \<Longrightarrow> queue_rep (demo_queue i) []"
  by (simp_all add: demo_queue_def queue_rep_def)

definition demo_circle :: "int \<Rightarrow> unit circle" where
  "demo_circle i = (Circle_new i DefaultFlags 0 ())\<lparr>queue := demo_queue i\<rparr>"

definition demo_state :: "int \<Rightarrow> unit state" where
  "demo_state i = projr (State_new demo_env i 2 0 0 (demo_circle i))"

lemma demo_state_new: "i = 0 \<or> i = 1 \<Longrightarrow> State_new demo_env i 2 0 0 (demo_circle i) = Inr (demo_state i)"
proof -
  have "\<not> isl (State_new demo_env 0 2 0 0 (demo_circle 0))" "\<not> isl (State_new demo_env 1 2 0 0 (demo_circle 1))"
    by code_simp+
  then show "i = 0 \<or> i = 1 \<Longrightarrow> ?thesis" by (auto simp: demo_state_def)
qed

lemma starts_two:
  assumes "\<And>i. i = 0 \<or> i = 1 \<Longrightarrow> State_new demo_env i 2 0 0 (c i) = Inr (\<sigma> i)"
    "\<And>i. queue_rep (queue (c i)) (xs i)" "\<And>i. fits (xs i)" "\<And>i. int (length (strings (queue (c i)))) \<le> INT_MAX"
  shows "starts_work demo_env 2 \<sigma>"
proof -
  have "\<exists>now junk c s c'. State_new demo_env i 2 now junk c = Inr s \<and> int (length (strings (queue c))) \<le> INT_MAX
        \<and> \<sigma> i = s\<lparr>circ := c'\<rparr> \<and> wf_queue (queue c') \<and> fits (items (queue c'))"
    if i: "0 \<le> i" "i < 2" for i
  proof (intro exI conjI)
    have i': "i = 0 \<or> i = 1" using i by auto
    show new: "State_new demo_env i 2 0 0 (c i) = Inr (\<sigma> i)" by (rule assms(1) [OF i'])
    show "int (length (strings (queue (c i)))) \<le> INT_MAX" by (rule assms(4))
    show "\<sigma> i = (\<sigma> i)\<lparr>circ := c i\<rparr>" using State_new_sel(6) [OF new] by (metis state.surjective state.update_convs(1))
    show "wf_queue (queue (c i))" by (rule queue_rep_wf [OF assms(2)])
    show "fits (items (queue (c i)))" unfolding queue_rep_items [OF assms(2)] by (rule assms(3))
  qed
  then show ?thesis by (simp add: starts_work_def)
qed

lemma demo_starts: "starts_work demo_env 2 demo_state"
  by (rule starts_two [OF demo_state_new, where xs = "\<lambda>i. if i = 0 then [[7], [8, 9]] else []"])
    (use demo_queue_rep in \<open>auto simp: demo_circle_def demo_queue_def fits_def INT_MAX_def\<close>)

section \<open>A run\<close>

text \<open>Process 1 asks process 0, which serves it; process 1 takes the work, process 0 the
  receipt.\<close>

definition demo0 :: "(int \<Rightarrow> unit state) \<times> fifo" where
  "demo0 = (demo_state, fifo_new 2)"

definition after_ask :: "int \<Rightarrow> (int \<Rightarrow> unit state) \<times> fifo \<Rightarrow> (int \<Rightarrow> unit state) \<times> fifo" where
  "after_ask i c = (case projr (requestWork demo_env fifo_mpi False (fst c i) (snd c)) of
     (rc, s, w) \<Rightarrow> ((fst c)(i := s), w))"

definition after_serve :: "int \<Rightarrow> (int \<Rightarrow> unit state) \<times> fifo \<Rightarrow> (int \<Rightarrow> unit state) \<times> fifo" where
  "after_serve i c = (case projr (workreqCheck demo_env fifo_mpi False (fst c i) (snd c)) of
     (s, w) \<Rightarrow> ((fst c)(i := s), w))"

definition demo1 :: "(int \<Rightarrow> unit state) \<times> fifo" where "demo1 = after_ask 1 demo0"
definition demo2 :: "(int \<Rightarrow> unit state) \<times> fifo" where "demo2 = after_serve 0 demo1"
definition demo3 :: "(int \<Rightarrow> unit state) \<times> fifo" where "demo3 = after_ask 1 demo2"

lemma ask_step:
  assumes "0 \<le> i" "i < 2" "qcount (qp (fst c i)) = 0"
    "\<not> isl (requestWork demo_env fifo_mpi False (fst c i) (snd c))"
  shows "exchange_step demo_env fifo_mpi 2 c (after_ask i c)"
proof -
  obtain rc s w where r: "requestWork demo_env fifo_mpi False (fst c i) (snd c) = Inr (rc, s, w)"
    using assms(4) by (cases "requestWork demo_env fifo_mpi False (fst c i) (snd c)") auto
  obtain \<sigma> w0 where c: "c = (\<sigma>, w0)" by (cases c)
  have "exchange_step demo_env fifo_mpi 2 (\<sigma>, w0) (\<sigma>(i := s), w)"
    by (rule exchange_step.request [where cleanup = False]) (use assms r c in auto)
  then show ?thesis using r c by (simp add: after_ask_def)
qed

lemma serve_step:
  assumes "0 \<le> i" "i < 2" "\<not> isl (workreqCheck demo_env fifo_mpi False (fst c i) (snd c))"
  shows "exchange_step demo_env fifo_mpi 2 c (after_serve i c)"
proof -
  obtain s w where r: "workreqCheck demo_env fifo_mpi False (fst c i) (snd c) = Inr (s, w)"
    using assms(3) by (cases "workreqCheck demo_env fifo_mpi False (fst c i) (snd c)") auto
  obtain \<sigma> w0 where c: "c = (\<sigma>, w0)" by (cases c)
  have "exchange_step demo_env fifo_mpi 2 (\<sigma>, w0) (\<sigma>(i := s), w)"
    by (rule exchange_step.serve [where cleanup = False]) (use assms r c in auto)
  then show ?thesis using r c by (simp add: after_serve_def)
qed

lemma demo_step1: "exchange_step demo_env fifo_mpi 2 demo0 demo1"
  unfolding demo1_def by (rule ask_step) (simp, simp, code_simp, code_simp)

lemma demo_step2: "exchange_step demo_env fifo_mpi 2 demo1 demo2"
  unfolding demo2_def by (rule serve_step) (simp, simp, code_simp)

lemma demo_step3: "exchange_step demo_env fifo_mpi 2 demo2 demo3"
  unfolding demo3_def by (rule ask_step) (simp, simp, code_simp, code_simp)

text \<open>Callbacks that use nothing but the queue: the process callback drops an item.\<close>

definition demo_callbacks :: "unit callbacks" where
  "demo_callbacks = \<lparr>createCallback = Inr,
     processCallback = (\<lambda>c. bind_res (dequeue [] c) (\<lambda>(rc, x, c). Inr c)),
     reduceInitCallback = None, reduceOperationCallback = None, reduceFinalizeCallback = None\<rparr>"

abbreviation demo_rel :: "(int \<Rightarrow> unit state) \<times> fifo \<Rightarrow> (int \<Rightarrow> unit state) \<times> fifo \<Rightarrow> bool" where
  "demo_rel \<equiv> work_step_rel demo_env fifo_mpi demo_callbacks 2"

lemma demo_reach1: "demo_rel\<^sup>*\<^sup>* demo0 demo1"
  using demo_step1 by (auto simp: work_step_rel_def)

lemma demo_reach2: "demo_rel\<^sup>*\<^sup>* demo0 demo2"
  using demo_reach1 demo_step2 by (auto simp: work_step_rel_def intro: rtranclp.rtrancl_into_rtrancl)

lemma demo_reach3: "demo_rel\<^sup>*\<^sup>* demo0 demo3"
  using demo_reach2 demo_step3 by (auto simp: work_step_rel_def intro: rtranclp.rtrancl_into_rtrancl)

end
