(* ===== verification/Circle_Run.thy ===== *)
theory Circle_Run
  imports Circle_Ring Circle_Demo
begin

text \<open>
  Runs of the system on the reference network, by evaluation: a schedule says which process
  runs which operation next, and a schedule that can be run is a run of the step relation.
\<close>

section \<open>Schedules\<close>

datatype action = Serve int | Receipt int | Ask int | Work int | Check int | Drain int

definition put :: "int \<Rightarrow> ('u, 'w) config \<Rightarrow> ('u state \<times> 'w) res \<Rightarrow> ('u, 'w) config option" where
  "put i c r = (case r of Inl e \<Rightarrow> None | Inr (s, w) \<Rightarrow> Some ((fst c)(i := s), w))"

definition act_check :: "env \<Rightarrow> 'w mpi \<Rightarrow> 'u state \<Rightarrow> 'w \<Rightarrow> ('u state \<times> 'w) res" where
  "act_check E M s w =
     bind_res (requestWork E M False s w) (\<lambda>(_, s, w).
     bind_res (guard_res (qcount (qp s) = 0) Undefined (checkForTerm M s w)) (\<lambda>(_, s, w). Inr (s, w)))"

definition checked :: "bool \<Rightarrow> 'a option \<Rightarrow> 'a option" where
  "checked b r = (if b then r else None)"

fun act :: "env \<Rightarrow> 'w mpi \<Rightarrow> 'u callbacks \<Rightarrow> int \<Rightarrow> action \<Rightarrow> ('u, 'w) config \<Rightarrow> ('u, 'w) config option" where
  "act E M cb n (Serve i) c = checked (0 \<le> i \<and> i < n) (put i c (workreqCheck E M False (fst c i) (snd c)))"
| "act E M cb n (Receipt i) c = checked (0 \<le> i \<and> i < n) (put i c (workreceiptCheck M (fst c i) (snd c)))"
| "act E M cb n (Ask i) c = checked (0 \<le> i \<and> i < n \<and> qcount (qp (fst c i)) = 0)
     (put i c (bind_res (requestWork E M False (fst c i) (snd c)) (\<lambda>(_, r). Inr r)))"
| "act E M cb n (Work i) c =
     checked (0 \<le> i \<and> i < n \<and> qcount (qp (fst c i)) > 0 \<and> ABORT_FLAG (fst c i) = 0)
     (put i c (bind_res (process_one cb (fst c i)) (\<lambda>s.
        guard_res (wf_queue (qp s) \<and> fits (items (qp s))) Undefined (Inr (s, snd c)))))"
| "act E M cb n (Check i) c = checked (0 \<le> i \<and> i < n \<and> qcount (qp (fst c i)) = 0)
     (put i c (act_check E M (fst c i) (snd c)))"
| "act E M cb n (Drain i) c = checked (0 \<le> i \<and> i < n \<and> token_proc (fst c i) = TERMINATE)
     (put i c (drain_token M (fst c i) (snd c)))"

fun run_acts :: "env \<Rightarrow> 'w mpi \<Rightarrow> 'u callbacks \<Rightarrow> int \<Rightarrow> action list \<Rightarrow> ('u, 'w) config \<Rightarrow> ('u, 'w) config option" where
  "run_acts E M cb n [] c = Some c"
| "run_acts E M cb n (a # as) c = (case act E M cb n a c of None \<Rightarrow> None | Some c \<Rightarrow> run_acts E M cb n as c)"

lemma checked_Some [simp]: "checked b r = Some x \<longleftrightarrow> b \<and> r = Some x"
  by (simp add: checked_def)

lemma put_Some: "put i c r = Some c' \<longleftrightarrow> (\<exists>s w. r = Inr (s, w) \<and> c' = ((fst c)(i := s), w))"
  by (auto simp: put_def split: sum.splits)

lemma act_check_Inr:
  "act_check E M s w = Inr (s', w') \<longleftrightarrow> (\<exists>rc s1 w1 st. requestWork E M False s w = Inr (rc, s1, w1)
     \<and> qcount (qp s1) = 0 \<and> checkForTerm M s1 w1 = Inr (st, s', w'))"
  by (auto simp: act_check_def bind_res_eq_Inr guard_res_def)

lemma act_step:
  assumes "act E M cb n a c = Some c'"
  shows "ring_step E M cb n c c'"
proof -
  obtain \<sigma> w where c: "c = (\<sigma>, w)" by (cases c)
  show ?thesis
  proof (cases a)
    case (Serve i)
    with assms c show ?thesis
      by (auto simp: put_Some ring_step_def work_step_rel_def intro: exchange_step.serve)
  next
    case (Receipt i)
    with assms c show ?thesis
      by (auto simp: put_Some ring_step_def work_step_rel_def intro: exchange_step.receipt)
  next
    case (Ask i)
    with assms c show ?thesis
      by (auto simp: put_Some bind_res_eq_Inr ring_step_def work_step_rel_def intro: exchange_step.request)
  next
    case (Work i)
    with assms c show ?thesis
      by (auto simp: put_Some bind_res_eq_Inr guard_res_def ring_step_def work_step_rel_def
          split: if_splits intro: process_step.process)
  next
    case (Check i)
    with assms c obtain rc s1 w1 st s' w' where
      "requestWork E M False (\<sigma> i) w = Inr (rc, s1, w1)" "qcount (qp s1) = 0"
      "checkForTerm M s1 w1 = Inr (st, s', w')" "c' = (\<sigma>(i := s'), w')" "0 \<le> i" "i < n" "qcount (qp (\<sigma> i)) = 0"
      by (auto simp: put_Some act_check_Inr)
    then show ?thesis using c by (auto simp: ring_step_def intro: token_step.check)
  next
    case (Drain i)
    with assms c show ?thesis by (auto simp: put_Some ring_step_def intro: token_step.drain)
  qed
qed

lemma run_acts_steps: "run_acts E M cb n as c = Some c' \<Longrightarrow> (ring_step E M cb n)\<^sup>*\<^sup>* c c'"
proof (induction as arbitrary: c)
  case (Cons a as)
  then obtain c1 where "act E M cb n a c = Some c1" "run_acts E M cb n as c1 = Some c'"
    by (auto split: option.splits)
  with Cons.IH act_step show ?case by (metis converse_rtranclp_into_rtranclp)
qed simp

section \<open>A run to the end\<close>

text \<open>The two processes share the work and finish it; then the token goes around, white, and
  both processes end up terminated.\<close>

definition ring_schedule :: "action list" where
  "ring_schedule = [Ask 1, Serve 0, Ask 1, Work 0, Receipt 0, Work 1, Check 0, Check 1, Serve 0, Serve 1,
     Check 0, Check 1, Check 0, Serve 1, Check 1]"

definition ring_end :: "(int \<Rightarrow> unit state) \<times> fifo" where
  "ring_end = the (run_acts demo_env fifo_mpi demo_callbacks 2 ring_schedule demo0)"

lemma ring_run: "(ring_step demo_env fifo_mpi demo_callbacks 2)\<^sup>*\<^sup>* demo0 ring_end"
proof -
  have "run_acts demo_env fifo_mpi demo_callbacks 2 ring_schedule demo0 \<noteq> None" by code_simp
  then show ?thesis by (intro run_acts_steps) (auto simp: ring_end_def)
qed

lemma ring_end_terminated: "token_proc (fst ring_end 0) = TERMINATE" "token_proc (fst ring_end 1) = TERMINATE"
  by code_simp+

end
