(* ===== verification/Circle_Beside.thy ===== *)
theory Circle_Beside
  imports Circle_Run
begin

text \<open>
  The operations of the loops that run beside the exchange of work: the background reduction,
  the barrier, the termination allreduce and the abort checks.  What the exchange, the token
  and (except for its own operation) the barrier depend on is the same after each of them.
\<close>

section \<open>Callbacks\<close>

text \<open>What the callbacks must do: the process callback leaves the queue well formed and
  within the bounds of \<open>int\<close>, the callbacks of a reduction leave it alone.\<close>

definition callbacks_ok :: "'u callbacks \<Rightarrow> bool" where
  "callbacks_ok cb \<longleftrightarrow>
     (\<forall>c c'. processCallback cb c = Inr c' \<longrightarrow> wf_queue (queue c) \<longrightarrow> fits (items (queue c)) \<longrightarrow>
        wf_queue (queue c') \<and> fits (items (queue c')))
     \<and> (\<forall>f c c'. reduceInitCallback cb = Some f \<longrightarrow> f c = Inr c' \<longrightarrow> queue c' = queue c)
     \<and> (\<forall>f c b m d k c'. reduceOperationCallback cb = Some f \<longrightarrow> f c b m d k = Inr c' \<longrightarrow> queue c' = queue c)
     \<and> (\<forall>f c b m c'. reduceFinalizeCallback cb = Some f \<longrightarrow> f c b m = Inr c' \<longrightarrow> queue c' = queue c)"

text \<open>The callbacks of a reduction may also leave alone what \<open>g\<close> observes of the user's data.\<close>

definition callbacks_keep :: "('u \<Rightarrow> 'x) \<Rightarrow> 'u callbacks \<Rightarrow> bool" where
  "callbacks_keep g cb \<longleftrightarrow> callbacks_ok cb
     \<and> (\<forall>f c c'. reduceInitCallback cb = Some f \<longrightarrow> f c = Inr c' \<longrightarrow> g (user c') = g (user c))
     \<and> (\<forall>f c b m d k c'. reduceOperationCallback cb = Some f \<longrightarrow> f c b m d k = Inr c' \<longrightarrow> g (user c') = g (user c))
     \<and> (\<forall>f c b m c'. reduceFinalizeCallback cb = Some f \<longrightarrow> f c b m = Inr c' \<longrightarrow> g (user c') = g (user c))"

lemma callbacks_keep_ok: "callbacks_keep g cb \<Longrightarrow> callbacks_ok cb"
  by (simp add: callbacks_keep_def)

lemma callbacks_keep_nothing: "callbacks_ok cb \<Longrightarrow> callbacks_keep (\<lambda>_. ()) cb"
  by (simp add: callbacks_keep_def)

section \<open>Operations beside the exchange\<close>

text \<open>\<open>bystander g s s'\<close>: what the exchange of work and the token depend on is the same, and so is
  what \<open>g\<close> observes of the user's data.\<close>

definition bystander :: "('u \<Rightarrow> 'x) \<Rightarrow> 'u state \<Rightarrow> 'u state \<Rightarrow> bool" where
  "bystander g s s' \<longleftrightarrow> qp s' = qp s \<and> rank s' = rank s \<and> nprocs s' = nprocs s \<and> ABORT_FLAG s' = ABORT_FLAG s
     \<and> token_is_local s' = token_is_local s \<and> token_proc s' = token_proc s \<and> token_buf s' = token_buf s
     \<and> token_src s' = token_src s \<and> token_dest s' = token_dest s \<and> offsets_count s' = offsets_count s
     \<and> next_processor s' = next_processor s \<and> work_requested s' = work_requested s
     \<and> work_requested_rank s' = work_requested_rank s \<and> work_outstanding s' = work_outstanding s
     \<and> term_tree_enabled s' = term_tree_enabled s \<and> abort_outstanding s' = abort_outstanding s \<and> tree s' = tree s
     \<and> local_objects_processed s' = local_objects_processed s
     \<and> g (user (circ s')) = g (user (circ s))"

text \<open>\<open>beside g s s'\<close>: what the barrier depends on is the same, too.\<close>

definition beside :: "('u \<Rightarrow> 'x) \<Rightarrow> 'u state \<Rightarrow> 'u state \<Rightarrow> bool" where
  "beside g s s' \<longleftrightarrow> bystander g s s' \<and> barrier_started s' = barrier_started s \<and> barrier_up s' = barrier_up s
     \<and> barrier_replies s' = barrier_replies s"

lemma bystander_refl [simp, intro]: "bystander g s s"
  by (simp add: bystander_def)

lemma bystander_trans: "bystander g s s' \<Longrightarrow> bystander g s' s'' \<Longrightarrow> bystander g s s''"
  by (simp add: bystander_def)

lemma bystander_update [simp]:
  "bystander g s (s'\<lparr>barrier_started := x5\<rparr>) = bystander g s s'"
  "bystander g s (s'\<lparr>barrier_up := x6\<rparr>) = bystander g s s'"
  "bystander g s (s'\<lparr>barrier_replies := x7\<rparr>) = bystander g s s'"
  by (simp_all add: bystander_def)

lemma beside_bystander: "beside g s s' \<Longrightarrow> bystander g s s'"
  by (simp add: beside_def)

lemma beside_refl [simp, intro]: "beside g s s"
  by (simp add: beside_def)

lemma beside_trans: "beside g s s' \<Longrightarrow> beside g s' s'' \<Longrightarrow> beside g s s''"
  by (simp add: beside_def bystander_def)

lemma beside_update [simp]:
  "beside g s (s'\<lparr>local_reduce_buf := x1\<rparr>) = beside g s s'"
  "beside g s (s'\<lparr>reduce_replies := x2\<rparr>) = beside g s s'"
  "beside g s (s'\<lparr>reduce_outstanding := x3\<rparr>) = beside g s s'"
  "beside g s (s'\<lparr>reduce_time_last := x4\<rparr>) = beside g s s'"
  "beside g s (s'\<lparr>term_flag := x5\<rparr>) = beside g s s'"
  "beside g s (s'\<lparr>term_up := x6\<rparr>) = beside g s s'"
  "beside g s (s'\<lparr>term_replies := x7\<rparr>) = beside g s s'"
  "beside g (s\<lparr>local_reduce_buf := x1\<rparr>) s' = beside g s s'"
  by (simp_all add: beside_def bystander_def)

text \<open>\<open>undisturbed s s'\<close>: the background reduction is where it was.\<close>

definition undisturbed :: "'u state \<Rightarrow> 'u state \<Rightarrow> bool" where
  "undisturbed s s' \<longleftrightarrow> reduce_outstanding s' = reduce_outstanding s \<and> reduce_replies s' = reduce_replies s"

lemma undisturbed_refl [simp, intro]: "undisturbed s s"
  by (simp add: undisturbed_def)

lemma undisturbed_trans: "undisturbed s s' \<Longrightarrow> undisturbed s' s'' \<Longrightarrow> undisturbed s s''"
  by (simp add: undisturbed_def)

lemma undisturbed_update [simp]:
  "undisturbed s (s'\<lparr>term_flag := x5\<rparr>) = undisturbed s s'"
  "undisturbed s (s'\<lparr>term_up := x6\<rparr>) = undisturbed s s'"
  "undisturbed s (s'\<lparr>term_replies := x7\<rparr>) = undisturbed s s'"
  "undisturbed s (s'\<lparr>barrier_started := x8\<rparr>) = undisturbed s s'"
  "undisturbed s (s'\<lparr>barrier_up := x9\<rparr>) = undisturbed s s'"
  "undisturbed s (s'\<lparr>barrier_replies := x10\<rparr>) = undisturbed s s'"
  by (simp_all add: undisturbed_def)

definition calm :: "('u \<Rightarrow> 'x) \<Rightarrow> 'u state \<Rightarrow> 'u state \<Rightarrow> bool" where
  "calm g s s' \<longleftrightarrow> beside g s s' \<and> undisturbed s s'"

lemma calm_refl [simp, intro]: "calm g s s"
  by (simp add: calm_def)

lemma calm_trans: "calm g s s' \<Longrightarrow> calm g s' s'' \<Longrightarrow> calm g s s''"
  unfolding calm_def using beside_trans undisturbed_trans by blast

lemma calm_update [simp]:
  "calm g s (s'\<lparr>term_flag := x5\<rparr>) = calm g s s'"
  "calm g s (s'\<lparr>term_up := x6\<rparr>) = calm g s s'"
  "calm g s (s'\<lparr>term_replies := x7\<rparr>) = calm g s s'"
  by (simp_all add: calm_def)

text \<open>\<open>elsewhere T p p'\<close>: the messages with a tag outside \<open>T\<close> are the same.\<close>

definition elsewhere :: "int set \<Rightarrow> (channel \<Rightarrow> payload list) \<Rightarrow> (channel \<Rightarrow> payload list) \<Rightarrow> bool" where
  "elsewhere T p p' \<longleftrightarrow> (\<forall>a b t. t \<notin> T \<longrightarrow> p' (a, b, t) = p (a, b, t))"

lemma elsewhereD: "elsewhere T p p' \<Longrightarrow> t \<notin> T \<Longrightarrow> p' (a, b, t) = p (a, b, t)"
  by (simp add: elsewhere_def)

lemma elsewhere_refl [simp, intro]: "elsewhere T p p"
  by (simp add: elsewhere_def)

lemma elsewhere_trans: "elsewhere T p p' \<Longrightarrow> elsewhere T p' p'' \<Longrightarrow> elsewhere T p p''"
  by (simp add: elsewhere_def)

lemma elsewhere_mono: "elsewhere T p p' \<Longrightarrow> T \<subseteq> T' \<Longrightarrow> elsewhere T' p p'"
  by (auto simp: elsewhere_def)

lemma elsewhere_upd [simp]:
  assumes "t \<in> T"
  shows "elsewhere T p (p'((a, b, t) := x)) = elsewhere T p p'"
proof -
  have "(p'((a, b, t) := x)) (i, j, u) = p' (i, j, u)" if "u \<notin> T" for i j u using that assms by auto
  then show ?thesis by (simp add: elsewhere_def)
qed

text \<open>An operation that, when it ends normally, is beside the exchange.\<close>

definition results :: "'a res \<Rightarrow> ('a \<Rightarrow> bool) \<Rightarrow> bool" where
  "results r Q \<longleftrightarrow> (\<forall>x. r = Inr x \<longrightarrow> Q x)"

lemma results_Inr [simp]: "results (Inr x) Q = Q x"
  by (simp add: results_def)

lemma results_Inl [simp]: "results (Inl e) Q"
  by (simp add: results_def)

lemma results_guard: "results r Q \<Longrightarrow> results (guard_res b e r) Q"
  by (simp add: results_def guard_res_def)

lemma results_seq: "results r P \<Longrightarrow> (\<And>x. P x \<Longrightarrow> results (f x) Q) \<Longrightarrow> results (bind_res r f) Q"
  by (auto simp: results_def elim!: bind_res_InrE)

lemma results_bind: "(\<And>x. r = Inr x \<Longrightarrow> results (f x) Q) \<Longrightarrow> results (bind_res r f) Q"
  by (auto simp: results_def elim!: bind_res_InrE)

context mpi_laws
begin

abbreviation aside :: "('u \<Rightarrow> 'x) \<Rightarrow> int set \<Rightarrow> 'u state \<Rightarrow> 'w \<Rightarrow> ('u state \<times> 'w) res \<Rightarrow> bool" where
  "aside g T s w r \<equiv> results r (\<lambda>(s', w'). beside g s s' \<and> elsewhere T (pend w) (pend w'))"

lemma send_elsewhere:
  "t \<in> T \<Longrightarrow> elsewhere T p (pend w) \<Longrightarrow>
   results (send M me d t x w) (\<lambda>w'. elsewhere T p (pend w'))"
  by (auto simp: results_def dest: send_Inr)

lemma send_each_elsewhere:
  "t \<in> T \<Longrightarrow> elsewhere T p (pend w) \<Longrightarrow>
   results (send_each M me t x ds w) (\<lambda>w'. elsewhere T p (pend w'))"
proof (induction ds arbitrary: w)
  case (Cons d ds)
  then show ?case by (auto intro!: results_seq [OF send_elsewhere])
qed simp

lemma recv_elsewhere:
  assumes "t \<in> T" "elsewhere T p (pend w)"
  shows "results (recv M me i t w) (\<lambda>(x, w'). elsewhere T p (pend w'))"
  unfolding results_def using assms by (auto elim: recv_Inr)

lemma results_probe:
  assumes "\<And>w'. pend w' = pend w \<Longrightarrow> results (f w') Q" "\<And>st w'. pend w' = pend w \<Longrightarrow> results (g st w') Q"
  shows "results (case MPI_Iprobe M me src t w of (None, w) \<Rightarrow> f w | (Some st, w) \<Rightarrow> g st w) Q"
proof -
  obtain r w' where r: "MPI_Iprobe M me src t w = (r, w')" by fastforce
  from assms [OF iprobe_pend [OF r]] r show ?thesis by (cases r) simp_all
qed

lemma aside_trans:
  assumes "aside g T s' w' r" "beside g s s'" "elsewhere T (pend w) (pend w')"
  shows "aside g T s w r"
  using assms by (auto simp: results_def intro: beside_trans elsewhere_trans)

abbreviation calmly :: "('u \<Rightarrow> 'x) \<Rightarrow> int set \<Rightarrow> 'u state \<Rightarrow> 'w \<Rightarrow> ('u state \<times> 'w) res \<Rightarrow> bool" where
  "calmly g T s w r \<equiv> results r (\<lambda>(s', w'). calm g s s' \<and> elsewhere T (pend w) (pend w'))"

lemma calmly_trans:
  assumes "calmly g T s' w' r" "calm g s s'" "elsewhere T (pend w) (pend w')"
  shows "calmly g T s w r"
  using assms by (auto simp: results_def intro: calm_trans elsewhere_trans)

section \<open>Barrier\<close>

lemma barrierTest_aside:
  fixes s :: "'u state"
  shows "results (barrierTest M s w) (\<lambda>(b, s', w'). bystander g s s' \<and> undisturbed s s' \<and> elsewhere {TAG_BARRIER} (pend w) (pend w'))"
proof -
  have collect: "results (barrier_collect M s w) (\<lambda>(s', w'). bystander g s s' \<and> undisturbed s s' \<and> elsewhere {TAG_BARRIER} (pend w) (pend w'))"
    unfolding barrier_collect_def
    by (auto intro!: results_probe results_seq [OF recv_elsewhere])
  have up: "results (barrier_send_up M s w) (\<lambda>(s', w'). bystander g s s' \<and> undisturbed s s' \<and> elsewhere {TAG_BARRIER} (pend w) (pend w'))" for s :: "'u state" and w
    unfolding barrier_send_up_def
    by (auto split: option.splits intro!: results_seq [OF send_elsewhere])
  have down: "results (barrier_from_parent M s w) (\<lambda>(b, w'). elsewhere {TAG_BARRIER} (pend w) (pend w'))"
    for s :: "'u state" and w
    unfolding barrier_from_parent_def
    by (auto split: option.split intro!: results_probe results_seq [OF recv_elsewhere])
  show ?thesis
    unfolding barrierTest_def
    apply (simp, intro impI)
    apply (rule results_seq [OF collect], clarify)
    apply (rule results_seq [OF up], clarify)
    apply (rule results_seq [OF down], clarify)
    apply (auto intro!: results_seq [OF send_each_elsewhere])
    apply (metis bystander_trans undisturbed_trans elsewhere_trans)+
    done
qed

section \<open>Reduction\<close>

lemma set_circ: "queue c = qp s \<Longrightarrow> g (user c) = g (user (circ s)) \<Longrightarrow> beside g s (s\<lparr>circ := c\<rparr>)"
  by (simp add: beside_def bystander_def)

lemma reduce_calls:
  assumes "callbacks_keep g cb"
  shows "results (reduce_init cb s) (beside g s)" "results (reduce_operation cb b k s) (beside g s)"
    "results (reduce_finalize cb s) (beside g s)"
  using assms
  by (auto simp: callbacks_keep_def callbacks_ok_def reduce_init_def reduce_operation_def reduce_finalize_def set_circ
      split: option.split intro!: results_bind)

lemma recv_user_data_elsewhere:
  assumes "elsewhere {TAG_REDUCE} p (pend w)"
  shows "results (recv_user_data E M me child sz w) (\<lambda>(x, w'). elsewhere {TAG_REDUCE} p (pend w'))"
proof -
  have data: "results (bind_res (recv M me child TAG_REDUCE w) (\<lambda>(x, w).
      bind_res (as_bytes x) (\<lambda>data. guard_res (b data) Mpi_error (Inr (Some data, w)))))
      (\<lambda>(x, w'). elsewhere {TAG_REDUCE} p (pend w'))" for b
    apply (rule results_seq [OF recv_elsewhere [where p = p, OF _ assms]], simp, clarify)
    apply (rule results_bind, rule results_guard, simp)
    done
  show ?thesis
    unfolding recv_user_data_def Let_def using assms data by (auto intro!: results_guard)
qed

lemma send_user_data_elsewhere:
  "elsewhere {TAG_REDUCE} p (pend w) \<Longrightarrow> results (send_user_data M d k s w) (\<lambda>w'. elsewhere {TAG_REDUCE} p (pend w'))"
  unfolding send_user_data_def by (auto split: option.split intro!: results_guard send_elsewhere)

lemma send_partial_aside: "aside g {TAG_REDUCE} s w (send_partial M f d s w)"
  unfolding send_partial_def Let_def
  by (auto split: prod.split intro!: results_seq [OF send_elsewhere] results_seq [OF send_user_data_elsewhere])

lemma reduce_child_aside:
  assumes "callbacks_keep g cb"
  shows "aside g {TAG_REDUCE} s w (reduce_child E M cb c s w)"
proof -
  have op: "aside g {TAG_REDUCE} s w (bind_res (reduce_operation cb b k s') (\<lambda>s. Inr (s, w')))"
    if "beside g s s'" "elsewhere {TAG_REDUCE} (pend w) (pend w')" for b k s' w'
    using that by (auto intro!: results_seq [OF reduce_calls(2) [OF assms]] intro: beside_trans)
  show ?thesis
    unfolding reduce_child_def Let_def
    apply (rule results_probe)
     apply simp
    apply (rule results_seq [OF recv_elsewhere [where p = "pend w" and T = "{TAG_REDUCE}"]], simp, simp, clarify)
    apply (rule results_bind, clarify)
    apply (auto split: prod.split intro!: results_seq [OF recv_user_data_elsewhere [where p = "pend w"]] op)
    done
qed

lemma reduce_children_aside:
  assumes "callbacks_keep g cb"
  shows "aside g {TAG_REDUCE} s w (reduce_children E M cb cs s w)"
proof (induction cs arbitrary: s w)
  case (Cons c cs)
  show ?case
    by (simp, rule results_seq [OF reduce_child_aside [OF assms]]) (auto intro: aside_trans [OF Cons.IH])
qed simp

lemma reduce_complete_aside:
  assumes "callbacks_keep g cb"
  shows "aside g {TAG_REDUCE} s w (reduce_complete M cb k s w)"
proof -
  have parent: "aside g {TAG_REDUCE} s w (bind_res (send_partial M f d (s\<lparr>local_reduce_buf := x\<rparr>) w)
      (\<lambda>(s, w). Inr (s\<lparr>reduce_outstanding := False\<rparr>, w)))" for f d x
    by (rule results_seq [OF send_partial_aside]) (auto intro: beside_trans)
  have fin: "results (reduce_finalize cb (s\<lparr>local_reduce_buf := x\<rparr>)) (beside g s)" for x
    using reduce_calls(3) [OF assms, of "s\<lparr>local_reduce_buf := x\<rparr>"] by (auto simp: results_def beside_def bystander_def)
  have root: "aside g {TAG_REDUCE} s w (bind_res (bind_res (reduce_finalize cb (s\<lparr>local_reduce_buf := x\<rparr>)) (\<lambda>s. Inr (s, w)))
      (\<lambda>(s, w). Inr (s\<lparr>reduce_outstanding := False\<rparr>, w)))" for x
    by (rule results_seq [OF results_seq [OF fin, where Q = "\<lambda>(s', w'). beside g s s' \<and> w' = w"]]) auto
  show ?thesis
    unfolding reduce_complete_def Let_def
    using parent root by (auto split: prod.split option.split)
qed

lemma reduceCheck_aside:
  assumes "callbacks_keep g cb"
  shows "aside g {TAG_REDUCE} s w (reduceCheck E M cb k cleanup s w)"
proof (cases "reduce_outstanding s")
  case True
  show ?thesis
    using True unfolding reduceCheck_def
    by (auto intro!: results_seq [OF reduce_children_aside [OF assms]]
        intro: aside_trans [OF reduce_complete_aside [OF assms]])
next
  case False
  have start: "results (reduce_start M cleanup now s w) (\<lambda>(b, w'). elsewhere {TAG_REDUCE} (pend w) (pend w'))" for now w
    unfolding reduce_start_def Let_def
    by (auto split: option.split intro!: results_probe results_seq [OF recv_elsewhere])
  obtain now w1 where clock: "MPI_Wtime M (rank s) w = (now, w1)" by fastforce
  let ?s = "s\<lparr>reduce_time_last := now, reduce_outstanding := True, reduce_replies := 0,
    local_reduce_buf := (MSG_VALID, 0, 0)\<rparr>"
  have init: "results (reduce_init cb ?s) (beside g s)"
    using reduce_calls(1) [OF assms, of ?s] by (auto simp: results_def beside_def bystander_def)
  have new: "aside g {TAG_REDUCE} s w (bind_res (reduce_init cb ?s) (\<lambda>s.
      bind_res (send_each M (rank s) TAG_REDUCE Empty (child_list (tree s)) w2) (\<lambda>w. Inr (s, w))))"
    if "elsewhere {TAG_REDUCE} (pend w) (pend w2)" for w2
    using that by (auto simp del: MSG_VALID_def intro!: results_seq [OF init] results_seq [OF send_each_elsewhere])
  show ?thesis
    using False unfolding reduceCheck_def clock
    apply simp
    apply (rule results_seq [OF start], clarify)
    apply (use new wtime_law [OF clock] in \<open>auto simp del: MSG_VALID_def split: prod.split option.split intro!: results_seq [OF send_elsewhere]\<close>)
    done
qed

section \<open>Termination allreduce\<close>

lemma term_collect_aside: "calmly g {TAG_TERM} s w (term_collect M s w)"
proof (induction "nat (getChildrenCount (tree s) - term_replies s)" arbitrary: s w rule: less_induct)
  case less
  show ?case
  proof (cases "term_replies s < getChildrenCount (tree s)")
    case True
    have rec: "calmly g {TAG_TERM} s w (term_collect M (s\<lparr>term_flag := x, term_replies := term_replies s + 1\<rparr>) w')"
      if "elsewhere {TAG_TERM} (pend w) (pend w')" for x w'
      by (rule calmly_trans [OF less]) (use True that in simp_all)
    show ?thesis
      using True
      apply (simp add: term_collect.simps [of M s w])
      apply (rule results_probe)
       apply simp
      apply (rule results_seq [OF recv_elsewhere [where p = "pend w" and T = "{TAG_TERM}"]], simp, simp, clarify)
      apply (rule results_bind)
      apply (simp add: rec)
      done
  next
    case False
    then show ?thesis by (simp add: term_collect.simps [of M s w])
  qed
qed

lemma term_send_up_aside:
  "results (term_send_up M flag s w) (\<lambda>(f, s', w'). calm g s s' \<and> elsewhere {TAG_TERM} (pend w) (pend w'))"
  unfolding term_send_up_def
  by (auto split: option.split intro!: results_seq [OF send_elsewhere])

lemma term_from_parent_elsewhere:
  "results (term_from_parent M flag s w) (\<lambda>(c, f, w'). elsewhere {TAG_TERM} (pend w) (pend w'))"
proof -
  have "results (bind_res (recv M (rank s) d TAG_TERM w') (\<lambda>(pl, w). bind_res (as_int pl) (\<lambda>flag. Inr (True, flag, w))))
      (\<lambda>(c, f, w'). elsewhere {TAG_TERM} (pend w) (pend w'))" if "pend w' = pend w" for d w'
    apply (rule results_seq [OF recv_elsewhere [where p = "pend w" and T = "{TAG_TERM}"]])
    apply (use that in \<open>auto intro!: results_bind\<close>)
    done
  then show ?thesis
    unfolding term_from_parent_def by (auto split: option.split intro!: results_probe)
qed

lemma checkForTermAllReduce_aside:
  "results (checkForTermAllReduce M s w) (\<lambda>(st, s', w'). calm g s s' \<and> elsewhere {TAG_TERM} (pend w) (pend w'))"
proof -
  have down: "results (bind_res (if complete then
        bind_res (send_each M (rank s2) TAG_TERM (Ints [flag]) (child_list (tree s2)) w2)
          (\<lambda>w. Inr (s2\<lparr>term_up := False, term_replies := 0\<rparr>, w)) else Inr (s2, w2))
        (\<lambda>(s, w). Inr (if complete \<and> flag \<noteq> 0 then TERMINATE else WHITE, s, w))) (\<lambda>(st, s', w'). calm g s s' \<and> elsewhere {TAG_TERM} (pend w) (pend w'))"
    if "calm g s s2" "elsewhere {TAG_TERM} (pend w) (pend w2)" for complete flag s2 w2
  proof -
    have "calmly g {TAG_TERM} s w (if complete then
        bind_res (send_each M (rank s2) TAG_TERM (Ints [flag]) (child_list (tree s2)) w2)
          (\<lambda>w. Inr (s2\<lparr>term_up := False, term_replies := 0\<rparr>, w)) else Inr (s2, w2))"
      using that by (auto intro!: results_seq [OF send_each_elsewhere])
    then show ?thesis by (rule results_seq) auto
  qed
  show ?thesis
    unfolding checkForTermAllReduce_def
    apply (rule results_seq [OF term_collect_aside [where g = g]], clarify)
    apply (simp, intro impI)
    apply (rule results_seq [OF term_send_up_aside [where g = g]], clarify)
    apply (rule results_seq [OF term_from_parent_elsewhere], clarify)
    apply (rule down)
     apply (metis calm_trans)
    apply (metis elsewhere_trans)
    done
qed

section \<open>Abort\<close>

text \<open>Nothing starts an abort: without one, \<open>abortCheck\<close> has no effect.\<close>

lemma abortCheck_none:
  assumes "ABORT_FLAG s = 0" "\<not> abort_outstanding s" "\<And>a b. pend w (a, b, TAG_ABORT_REQUEST) = []"
  shows "\<exists>w'. abortCheck M cleanup s w = Inr (s, w') \<and> pend w' = pend w"
proof -
  obtain r w1 where probe: "MPI_Iprobe M (rank s) None TAG_ABORT_REQUEST w = (r, w1)" by fastforce
  have "r = None"
  proof (rule ccontr)
    assume "r \<noteq> None"
    then obtain st where "r = Some st" by blast
    with iprobe_some [of _ _ _ w st w1] probe assms(3) show False by blast
  qed
  with assms probe iprobe_pend [OF probe] show ?thesis by (simp add: abortCheck_def abort_request_def)
qed

end

end
