(* ===== verification/Circle_System.thy ===== *)
theory Circle_System
  imports Circle_Beside
begin

text \<open>
  The program as it runs: every process runs iterations of the work loop of \<open>mainLoop\<close> until
  it has terminated, and of the cleanup loop from then on.  An iteration is taken apart into
  fine steps (the operations on work and on the token, and what runs beside them), so that
  what every fine step keeps holds through whole iterations: the protocol of requests and
  replies in both modes of termination detection, and the invariant of \<open>Circle_Ring\<close> in
  ring mode.
\<close>

section \<open>Steps of the program\<close>

text \<open>Where a process is in \<open>mainLoop\<close>: in the work loop, in the cleanup loop, or past both.\<close>

datatype phase = Working | Cleaning | Finished

type_synonym ('u, 'w) program = "(int \<Rightarrow> phase) \<times> (int \<Rightarrow> 'u state) \<times> 'w"

inductive program_step :: "env \<Rightarrow> 'w mpi \<Rightarrow> 'u callbacks \<Rightarrow> int \<Rightarrow> ('u, 'w) program \<Rightarrow> ('u, 'w) program \<Rightarrow> bool"
  for E M cb n where
  iterate: "0 \<le> i \<Longrightarrow> i < n \<Longrightarrow> ph i = Working \<Longrightarrow> work_step E M cb (\<sigma> i) w = Inr (leave, s', w') \<Longrightarrow>
    program_step E M cb n (ph, \<sigma>, w) (ph(i := if leave then Cleaning else Working), \<sigma>(i := s'), w')"
| cleanup: "0 \<le> i \<Longrightarrow> i < n \<Longrightarrow> ph i = Cleaning \<Longrightarrow> cleanup_step E M cb (\<sigma> i) w = Inr (leave, s', w') \<Longrightarrow>
    program_step E M cb n (ph, \<sigma>, w) (ph(i := if leave then Finished else Cleaning), \<sigma>(i := s'), w')"

section \<open>Fine steps\<close>

text \<open>A step of one process that is beside the exchange, the token and the barrier: it is a run of
  \<open>reduceCheck\<close> (in its cleanup mode, once the process has entered the barrier), or leaves the
  reduction alone.\<close>

definition sideways :: "env \<Rightarrow> 'w mpi \<Rightarrow> ('w \<Rightarrow> channel \<Rightarrow> payload list) \<Rightarrow> 'u callbacks \<Rightarrow> 'u state \<Rightarrow> 'w
    \<Rightarrow> 'u state \<Rightarrow> 'w \<Rightarrow> bool" where
  "sideways E M pend cb s w s' w' \<longleftrightarrow> undisturbed s s' \<and> elsewhere {TAG_TERM} (pend w) (pend w')
     \<or> (\<exists>cleanup. (barrier_started s \<longrightarrow> cleanup) \<and> reduceCheck E M cb (local_objects_processed s) cleanup s w = Inr (s', w'))"

inductive beside_step :: "('u \<Rightarrow> 'x) \<Rightarrow> env \<Rightarrow> 'w mpi \<Rightarrow> ('w \<Rightarrow> channel \<Rightarrow> payload list) \<Rightarrow> 'u callbacks \<Rightarrow> int \<Rightarrow> int
    \<Rightarrow> ('u, 'w) config \<Rightarrow> ('u, 'w) config \<Rightarrow> bool"
  for g E M pend cb n i where
  beside: "0 \<le> i \<Longrightarrow> i < n \<Longrightarrow> beside g (\<sigma> i) s' \<Longrightarrow> elsewhere {TAG_REDUCE, TAG_TERM} (pend w) (pend w') \<Longrightarrow>
    sideways E M pend cb (\<sigma> i) w s' w' \<Longrightarrow> beside_step g E M pend cb n i (\<sigma>, w) (\<sigma>(i := s'), w')"

definition fine_step ::
  "('u \<Rightarrow> 'x) \<Rightarrow> env \<Rightarrow> 'w mpi \<Rightarrow> ('w \<Rightarrow> channel \<Rightarrow> payload list) \<Rightarrow> 'u callbacks \<Rightarrow> int \<Rightarrow> int \<Rightarrow> ('u, 'w) config \<Rightarrow> ('u, 'w) config \<Rightarrow> bool" where
  "fine_step g E M pend cb n i c c' \<longleftrightarrow> ring_step E M cb n c c' \<or> beside_step g E M pend cb n i c c'"

text \<open>\<open>sidelines\<close>: the configuration of termination detection, of aborts and of the barrier is
  the same.\<close>

definition sidelines :: "(int \<Rightarrow> 'u state) \<Rightarrow> (channel \<Rightarrow> payload list) \<Rightarrow> (int \<Rightarrow> 'u state) \<Rightarrow> (channel \<Rightarrow> payload list) \<Rightarrow> bool" where
  "sidelines \<sigma> p \<sigma>' p' \<longleftrightarrow> (\<forall>j. term_tree_enabled (\<sigma>' j) = term_tree_enabled (\<sigma> j)
     \<and> abort_outstanding (\<sigma>' j) = abort_outstanding (\<sigma> j) \<and> tree (\<sigma>' j) = tree (\<sigma> j) \<and> rank (\<sigma>' j) = rank (\<sigma> j)
     \<and> barrier_started (\<sigma>' j) = barrier_started (\<sigma> j) \<and> barrier_up (\<sigma>' j) = barrier_up (\<sigma> j)
     \<and> barrier_replies (\<sigma>' j) = barrier_replies (\<sigma> j))
     \<and> (\<forall>a b t. t = TAG_ABORT_REQUEST \<or> t = TAG_BARRIER \<longrightarrow> p' (a, b, t) = p (a, b, t))"

lemma sidelinesD:
  assumes "sidelines \<sigma> p \<sigma>' p'"
  shows "term_tree_enabled (\<sigma>' j) = term_tree_enabled (\<sigma> j)" "abort_outstanding (\<sigma>' j) = abort_outstanding (\<sigma> j)"
    "tree (\<sigma>' j) = tree (\<sigma> j)" "rank (\<sigma>' j) = rank (\<sigma> j)" "barrier_started (\<sigma>' j) = barrier_started (\<sigma> j)"
    "barrier_up (\<sigma>' j) = barrier_up (\<sigma> j)" "barrier_replies (\<sigma>' j) = barrier_replies (\<sigma> j)"
    "p' (a, b, TAG_ABORT_REQUEST) = p (a, b, TAG_ABORT_REQUEST)" "p' (a, b, TAG_BARRIER) = p (a, b, TAG_BARRIER)"
  using assms by (simp_all add: sidelines_def)

lemma sidelines_refl [simp, intro]: "sidelines \<sigma> p \<sigma> p"
  by (simp add: sidelines_def)

lemma sidelines_trans: "sidelines \<sigma> p \<sigma>1 p1 \<Longrightarrow> sidelines \<sigma>1 p1 \<sigma>2 p2 \<Longrightarrow> sidelines \<sigma> p \<sigma>2 p2"
  by (simp add: sidelines_def)

lemma transfer_sidelines:
  assumes "transfer n \<sigma> p \<sigma>' p'"
  shows "sidelines \<sigma> p \<sigma>' p'"
  using assms
proof cases
  case idle
  then show ?thesis by simp
next
  case (served i D xs g q oc sd)
  then show ?thesis
    by (auto simp: sidelines_def after_replies_def requests_taken_def serve_update_def set_queue_def)
next
  case (receipted i wo tf)
  have "p' (a, b, t) = p (a, b, t)" if "t = TAG_ABORT_REQUEST \<or> t = TAG_BARRIER" for a b t
    by (rule only_channelsD [OF receipted(5)]) (use that in auto)
  then show ?thesis unfolding receipted(1) by (simp add: sidelines_def)
next
  case (asking i s')
  from asking(5) show ?thesis unfolding asking(1)
    by cases (auto simp: reply_from_def sidelines_def set_queue_def)
qed

lemma token_sidelines:
  assumes "s' = token_update lc tb tp tr (\<sigma> i)" "\<And>a b t. t \<noteq> TAG_TOKEN \<Longrightarrow> p' (a, b, t) = p (a, b, t)"
  shows "sidelines \<sigma> p (\<sigma>(i := s')) p'"
  using assms(2) unfolding assms(1) by (simp add: sidelines_def token_update_def)

lemma process_sidelines:
  assumes "process_one cb (\<sigma> i) = Inr s'"
  shows "sidelines \<sigma> p (\<sigma>(i := s')) p"
  using assms by (auto simp: process_one_def sidelines_def elim!: bind_res_InrE)

lemma beside_sidelines:
  assumes "beside g (\<sigma> i) s'" "elsewhere {TAG_REDUCE, TAG_TERM} p p'"
  shows "sidelines \<sigma> p (\<sigma>(i := s')) p'"
  using assms by (auto simp: sidelines_def beside_def bystander_def elsewhere_def)

section \<open>What every fine step keeps\<close>

text \<open>The base of the invariant: the protocol, and no abort.\<close>

definition base_inv :: "int \<Rightarrow> (int \<Rightarrow> 'u state) \<Rightarrow> (channel \<Rightarrow> payload list) \<Rightarrow> bool" where
  "base_inv n \<sigma> p \<longleftrightarrow> proto n \<sigma> p \<and> (\<forall>i. 0 \<le> i \<longrightarrow> i < n \<longrightarrow> \<not> abort_outstanding (\<sigma> i))
     \<and> (\<forall>a b. p (a, b, TAG_ABORT_REQUEST) = [])"

lemma base_inv_running:
  assumes "base_inv n \<sigma> p" "0 \<le> i" "i < n"
  shows "ABORT_FLAG (\<sigma> i) = 0" "wf_queue (qp (\<sigma> i))" "fits (items (qp (\<sigma> i)))" "\<not> abort_outstanding (\<sigma> i)"
  using assms protoD(1) [of n \<sigma> p i] by (auto simp: base_inv_def proc_ok_def)

definition base_program :: "int \<Rightarrow> (int \<Rightarrow> phase) \<Rightarrow> (int \<Rightarrow> 'u state) \<Rightarrow> (channel \<Rightarrow> payload list) \<Rightarrow> bool" where
  "base_program n ph \<sigma> p \<longleftrightarrow> base_inv n \<sigma> p
     \<and> (\<forall>i. 0 \<le> i \<longrightarrow> i < n \<longrightarrow> ph i \<noteq> Working \<longrightarrow> \<not> term_tree_enabled (\<sigma> i) \<longrightarrow> token_proc (\<sigma> i) = TERMINATE)
     \<and> (\<forall>i. 0 \<le> i \<longrightarrow> i < n \<longrightarrow> ph i = Working \<longrightarrow> \<not> barrier_started (\<sigma> i))"

definition entering :: "'u state \<Rightarrow> 'u state" where
  "entering s = (if ready_for_barrier s then barrierStart s else s)"

lemma bystander_proc_ok: "bystander g s s' \<Longrightarrow> proc_ok n j s' = proc_ok n j s"
  unfolding bystander_def proc_ok_def next_ok_def by (simp cong: option.case_cong)

text \<open>The tags of the exchange and of the token.\<close>

definition work_tags :: "int set" where
  "work_tags = {TAG_WORK_REQUEST, TAG_WORK_REPLY, TAG_WORK_RECEIPT, TAG_TOKEN}"

lemma elsewhere_work:
  assumes "elsewhere T p p'" "T \<inter> work_tags = {}"
  shows "p' (a, b, TAG_WORK_REQUEST) = p (a, b, TAG_WORK_REQUEST)" "p' (a, b, TAG_WORK_REPLY) = p (a, b, TAG_WORK_REPLY)"
    "p' (a, b, TAG_WORK_RECEIPT) = p (a, b, TAG_WORK_RECEIPT)" "p' (a, b, TAG_TOKEN) = p (a, b, TAG_TOKEN)"
  using assms by (auto simp: elsewhere_def work_tags_def)

lemma bystander_proto:
  assumes "proto n \<sigma> p" "bystander g (\<sigma> i) s'" "elsewhere T p p'" "T \<inter> work_tags = {}"
  shows "proto n (\<sigma>(i := s')) p'"
proof -
  note p' = elsewhere_work [OF assms(3,4)]
  have "proc_ok n j ((\<sigma>(i := s')) j) = proc_ok n j (\<sigma> j)" for j
    using bystander_proc_ok [OF assms(2)] by simp
  moreover have "waits_for n (\<sigma>(i := s')) j k = waits_for n \<sigma> j k" for j k
    using assms(2) by (auto simp: bystander_def waits_for_def)
  moreover have "work_outstanding ((\<sigma>(i := s')) j) = work_outstanding (\<sigma> j)" for j
    using assms(2) by (simp add: bystander_def)
  moreover have "receipts A j p' = receipts A j p" "flights n j p' = flights n j p" for A j
    by (simp_all add: receipts_def flights_def p')
  ultimately show ?thesis using assms(1) unfolding proto_def p' by simp
qed

lemma bystander_ring:
  assumes "ring_inv n \<sigma> p" "bystander g (\<sigma> i) s'" "elsewhere T p p'" "T \<inter> work_tags = {}"
  shows "ring_inv n (\<sigma>(i := s')) p'"
proof -
  note p' = elsewhere_work [OF assms(3,4)]
  let ?\<sigma> = "\<sigma>(i := s')"
  have f: "qp (?\<sigma> j) = qp (\<sigma> j)" "token_is_local (?\<sigma> j) = token_is_local (\<sigma> j)" "token_proc (?\<sigma> j) = token_proc (\<sigma> j)"
    "token_buf (?\<sigma> j) = token_buf (\<sigma> j)" "token_src (?\<sigma> j) = token_src (\<sigma> j)" "token_dest (?\<sigma> j) = token_dest (\<sigma> j)"
    for j
    using assms(2) by (simp_all add: bystander_def)
  have q: "quiet ?\<sigma> p' j = quiet \<sigma> p j" for j
    unfolding quiet_def f p' ..
  have "running n ?\<sigma> p' = running n \<sigma> p" "finished n ?\<sigma> p' = finished n \<sigma> p" "ring_geometry n ?\<sigma> = ring_geometry n \<sigma>"
    unfolding running_def finished_def ring_geometry_def token_held_def token_flying_def safe_upto_def f p' q by (rule refl)+
  with bystander_proto [where \<sigma> = \<sigma> and i = i, OF _ assms(2-4)] assms(1) show ?thesis by (simp add: ring_inv_def)
qed

lemma bystander_base:
  assumes "base_inv n \<sigma> p" "bystander g (\<sigma> i) s'" "elsewhere T p p'" "T \<inter> work_tags = {}" "TAG_ABORT_REQUEST \<notin> T"
  shows "base_inv n (\<sigma>(i := s')) p'"
  using bystander_proto [where \<sigma> = \<sigma> and i = i, OF _ assms(2-4)] assms elsewhereD [OF assms(3,5)]
  by (auto simp: base_inv_def bystander_def)

lemma side_tags [simp]: "{TAG_REDUCE, TAG_TERM} \<inter> work_tags = {}" "{TAG_BARRIER} \<inter> work_tags = {}"
  by (simp_all add: work_tags_def)

context mpi_laws
begin

abbreviation fine where "fine g E cb n \<equiv> fine_step g E M pend cb n"

lemma fine_proto:
  assumes E: "env_ok E n" and pr: "proto n \<sigma> (pend w)" and st: "fine g E cb n i (\<sigma>, w) (\<sigma>', w')"
  shows "proto n \<sigma>' (pend w') \<and> sidelines \<sigma> (pend w) \<sigma>' (pend w')"
  using st unfolding fine_step_def ring_step_def work_step_rel_def
proof (elim disjE)
  assume st: "exchange_step E M n (\<sigma>, w) (\<sigma>', w')"
  from exchange_kept [OF E pr st] transfer_sidelines [OF exchange_transfer [OF E pr st]] show ?thesis by blast
next
  assume st: "process_step cb n (\<sigma>, w) (\<sigma>', w')"
  then have "sidelines \<sigma> (pend w) \<sigma>' (pend w')" by cases (auto intro: process_sidelines)
  with process_proto [OF pr st] show ?thesis by blast
next
  assume "beside_step g E M pend cb n i (\<sigma>, w) (\<sigma>', w')"
  then show ?thesis
  proof cases
    case (beside s')
    with bystander_proto [where \<sigma> = \<sigma> and i = i, OF pr beside_bystander [OF beside(4)] beside(5)]
      beside_sidelines [where \<sigma> = \<sigma> and i = i, OF beside(4,5)] show ?thesis by simp
  qed
next
  assume "token_step E M n (\<sigma>, w) (\<sigma>', w')"
  then show ?thesis
  proof cases
    case (check i rc s1 w1 st s')
    let ?\<sigma> = "\<sigma>(i := s1)"
    have st: "exchange_step E M n (\<sigma>, w) (?\<sigma>, w1)"
      by (rule exchange_step.request [where cleanup = False]) (use check in simp_all)
    note pr1 = exchange_kept [OF E pr st, THEN conjunct1] and sl = transfer_sidelines [OF exchange_transfer [OF E pr st]]
    have ck: "checkForTerm M (?\<sigma> i) w1 = Inr (st, s', w')" using check(7) by simp
    obtain lc tb tp tr where s': "s' = token_update lc tb tp tr (?\<sigma> i)"
      using checkForTerm_frame(1) [OF ck] by blast
    note p' = checkForTerm_frame(2) [OF ck]
    have "sidelines ?\<sigma> (pend w1) (?\<sigma>(i := s')) (pend w')"
      by (rule token_sidelines [where \<sigma> = ?\<sigma> and i = i and p = "pend w1" and p' = "pend w'", OF s' p'])
    moreover have "proto n (?\<sigma>(i := s')) (pend w')"
      by (rule proto_token [where \<sigma> = ?\<sigma> and i = i and p = "pend w1" and p' = "pend w'", OF pr1 s' p'])
    ultimately show ?thesis using sidelines_trans [OF sl] check(1) by simp
  next
    case (drain i s')
    obtain lc tb tp tr where s': "s' = token_update lc tb tp tr (\<sigma> i)"
      using drain_frame(1) [OF drain(5)] by blast
    note p' = drain_frame(2) [OF drain(5)]
    show ?thesis
      using token_sidelines [where \<sigma> = \<sigma> and i = i and p = "pend w" and p' = "pend w'", OF s' p']
        proto_token [where \<sigma> = \<sigma> and i = i and p = "pend w" and p' = "pend w'", OF pr s' p'] drain(1) by simp
  qed
qed

lemma fine_base:
  assumes "env_ok E n" "base_inv n \<sigma> (pend w)" "fine g E cb n i (\<sigma>, w) (\<sigma>', w')"
  shows "base_inv n \<sigma>' (pend w') \<and> sidelines \<sigma> (pend w) \<sigma>' (pend w')"
  using fine_proto [OF assms(1) _ assms(3)] assms(2) by (simp add: base_inv_def sidelines_def)

lemma fines_base:
  assumes "(fine g E cb n i)\<^sup>*\<^sup>* (\<sigma>, w) (\<sigma>', w')" "env_ok E n" "base_inv n \<sigma> (pend w)"
  shows "base_inv n \<sigma>' (pend w') \<and> sidelines \<sigma> (pend w) \<sigma>' (pend w')"
  using assms(1)
proof (induction rule: rtranclp_induct2)
  case refl
  show ?case using assms(3) by simp
next
  case (step \<sigma>1 w1 \<sigma>2 w2)
  with fine_base [OF assms(2) _ step.hyps(2)] sidelines_trans show ?case by blast
qed

section \<open>An iteration is made of fine steps\<close>

lemma serve_fine:
  assumes "0 \<le> i" "i < n" "workreqCheck E M cleanup s w = Inr (s', w')"
  shows "fine g E cb n i (\<sigma>(i := s), w) (\<sigma>(i := s'), w')"
proof -
  have "exchange_step E M n (\<sigma>(i := s), w) (\<sigma>(i := s, i := s'), w')"
    by (rule exchange_step.serve) (use assms in simp_all)
  then show ?thesis by (simp add: fine_step_def ring_step_def work_step_rel_def)
qed

lemma receipt_fine:
  assumes "0 \<le> i" "i < n" "workreceiptCheck M s w = Inr (s', w')"
  shows "fine g E cb n i (\<sigma>(i := s), w) (\<sigma>(i := s'), w')"
proof -
  have "exchange_step E M n (\<sigma>(i := s), w) (\<sigma>(i := s, i := s'), w')"
    by (rule exchange_step.receipt) (use assms in simp_all)
  then show ?thesis by (simp add: fine_step_def ring_step_def work_step_rel_def)
qed

lemma request_fine:
  assumes "0 \<le> i" "i < n" "qcount (qp s) = 0 \<or> cleanup" "requestWork E M cleanup s w = Inr (rc, s', w')"
  shows "fine g E cb n i (\<sigma>(i := s), w) (\<sigma>(i := s'), w')"
proof -
  have "exchange_step E M n (\<sigma>(i := s), w) (\<sigma>(i := s, i := s'), w')"
    by (rule exchange_step.request) (use assms in simp_all)
  then show ?thesis by (simp add: fine_step_def ring_step_def work_step_rel_def)
qed

lemma process_fine:
  assumes "callbacks_keep g cb" "base_inv n (\<sigma>(i := s)) p" "0 \<le> i" "i < n" "qcount (qp s) > 0"
    "process_one cb s = Inr s'"
  shows "fine g E cb n i (\<sigma>(i := s), w) (\<sigma>(i := s'), w)"
proof -
  note ok = base_inv_running [OF assms(2-4), simplified]
  obtain c k where "processCallback cb (circ s) = Inr c" "s' = s\<lparr>circ := c, local_objects_processed := k\<rparr>"
    using assms(6) by (auto simp: process_one_def elim!: bind_res_InrE)
  with assms(1) ok have "wf_queue (qp s')" "fits (items (qp s'))" by (auto simp: callbacks_keep_def callbacks_ok_def)
  then have "process_step cb n (\<sigma>(i := s), w) (\<sigma>(i := s, i := s'), w)"
    by (intro process_step.process) (use assms(3-6) ok in simp_all)
  then show ?thesis by (simp add: fine_step_def ring_step_def work_step_rel_def)
qed

lemma check_fine:
  assumes "0 \<le> i" "i < n" "qcount (qp s) = 0" "requestWork E M False s w = Inr (rc, s1, w1)" "qcount (qp s1) = 0"
    "checkForTerm M s1 w1 = Inr (st, s', w')"
  shows "fine g E cb n i (\<sigma>(i := s), w) (\<sigma>(i := s'), w')"
proof -
  have "token_step E M n (\<sigma>(i := s), w) (\<sigma>(i := s, i := s'), w')"
    by (rule token_step.check) (use assms in simp_all)
  then show ?thesis by (simp add: fine_step_def ring_step_def)
qed

lemma drain_fine:
  assumes "0 \<le> i" "i < n" "token_proc s = TERMINATE" "drain_token M s w = Inr (s', w')"
  shows "fine g E cb n i (\<sigma>(i := s), w) (\<sigma>(i := s'), w')"
proof -
  have "token_step E M n (\<sigma>(i := s), w) (\<sigma>(i := s, i := s'), w')"
    by (rule token_step.drain) (use assms in simp_all)
  then show ?thesis by (simp add: fine_step_def ring_step_def)
qed

lemma beside_fine:
  assumes "0 \<le> i" "i < n" "beside g s s'" "elsewhere {TAG_REDUCE, TAG_TERM} (pend w) (pend w')"
    "sideways E M pend cb s w s' w'"
  shows "fine g E cb n i (\<sigma>(i := s), w) (\<sigma>(i := s'), w')"
proof -
  have "beside_step g E M pend cb n i (\<sigma>(i := s), w) (\<sigma>(i := s, i := s'), w')"
    by (rule beside_step.beside) (use assms in simp_all)
  then show ?thesis by (simp add: fine_step_def)
qed

lemma abort_fine:
  assumes "base_inv n (\<sigma>(i := s)) (pend w)" "0 \<le> i" "i < n" "abortCheck M cleanup s w = Inr (s', w')"
  shows "s' = s" "pend w' = pend w"
proof -
  note ok = base_inv_running [OF assms(1-3), simplified]
  have "pend w (a, b, TAG_ABORT_REQUEST) = []" for a b using assms(1) by (simp add: base_inv_def)
  then obtain w2 where "abortCheck M cleanup s w = Inr (s, w2)" "pend w2 = pend w"
    using abortCheck_none [OF ok(1,4), of w cleanup] by blast
  with assms(4) show "s' = s" "pend w' = pend w" by simp_all
qed

lemma reduce_beside:
  assumes "callbacks_keep g cb"
    "(if reduce_enabled s then reduceCheck E M cb (local_objects_processed s) cleanup s w else Inr (s, w)) = Inr (s', w')"
    "barrier_started s \<longrightarrow> cleanup"
  shows "beside g s s'" "elsewhere {TAG_REDUCE, TAG_TERM} (pend w) (pend w')" "sideways E M pend cb s w s' w'"
proof -
  show "sideways E M pend cb s w s' w'" using assms(2,3) by (auto simp: sideways_def split: if_splits)
  have "beside g s s' \<and> elsewhere {TAG_REDUCE} (pend w) (pend w')"
    using assms(2) reduceCheck_aside [OF assms(1), where s = s and w = w and E = E and k = "local_objects_processed s" and cleanup = cleanup]
    by (auto simp: results_def split: if_splits)
  then show "beside g s s'" "elsewhere {TAG_REDUCE, TAG_TERM} (pend w) (pend w')"
    by (auto intro: elsewhere_mono)
qed

lemma tree_check_beside:
  assumes "checkForTermAllReduce M s w = Inr (st, s', w')"
  shows "beside g s s'" "elsewhere {TAG_REDUCE, TAG_TERM} (pend w) (pend w')" "sideways E M pend cb s w s' w'"
proof -
  have "beside g s s' \<and> undisturbed s s' \<and> elsewhere {TAG_TERM} (pend w) (pend w')"
    using assms checkForTermAllReduce_aside [of s w] by (simp add: results_def calm_def)
  then show "beside g s s'" "elsewhere {TAG_REDUCE, TAG_TERM} (pend w) (pend w')" "sideways E M pend cb s w s' w'"
    by (auto intro: elsewhere_mono simp: sideways_def)
qed

text \<open>The end of an iteration of the work loop: one item is processed, or the process checks
  for termination.\<close>

lemma last_fine:
  assumes E: "env_ok E n" and cb: "callbacks_keep g cb" and inv: "base_inv n (\<sigma>(i := s)) (pend w)" and i: "0 \<le> i" "i < n"
    and req: "(if qcount (qp s) = 0 then bind_res (requestWork E M False s w) (\<lambda>(_, s, w). Inr (s, w))
      else Inr (s, w)) = Inr (s1, w1)"
    and fin: "(if qcount (qp s1) > 0 \<and> ABORT_FLAG s1 = 0 then bind_res (process_one cb s1) (\<lambda>s. Inr (False, s, w1))
      else bind_res (if term_tree_enabled s1 then checkForTermAllReduce M s1 w1 else checkForTerm M s1 w1)
        (\<lambda>(st, s, w). Inr (st = TERMINATE, s, w))) = Inr (leave, s', w')"
  shows "(fine g E cb n i)\<^sup>*\<^sup>* (\<sigma>(i := s), w) (\<sigma>(i := s'), w')
    \<and> (leave \<longrightarrow> \<not> term_tree_enabled s' \<longrightarrow> token_proc s' = TERMINATE)"
proof (cases "qcount (qp s) = 0")
  case True
  then obtain rc where rq: "requestWork E M False s w = Inr (rc, s1, w1)"
    using req by (auto elim!: bind_res_InrE)
  have one: "fine g E cb n i (\<sigma>(i := s), w) (\<sigma>(i := s1), w1)" by (rule request_fine [OF i disjI1 [OF True] rq])
  note inv1 = fine_base [OF E inv one, THEN conjunct1]
  show ?thesis
  proof (cases "qcount (qp s1) = 0")
    case idle: True
    show ?thesis
    proof (cases "term_tree_enabled s1")
      case tree: True
      obtain rs where ck: "checkForTermAllReduce M s1 w1 = Inr (rs, s', w')"
        using fin idle tree by (auto elim!: bind_res_InrE)
      note b = tree_check_beside(1) [OF ck, of g] tree_check_beside(2) [OF ck] tree_check_beside(3) [OF ck, of E cb]
      have "term_tree_enabled s'" using b(1) tree by (simp add: beside_def bystander_def)
      with one beside_fine [OF i b, of \<sigma>] show ?thesis by (meson rtranclp.rtrancl_into_rtrancl rtranclp.rtrancl_refl)
    next
      case ring: False
      obtain rs where ck: "checkForTerm M s1 w1 = Inr (rs, s', w')" "leave = (rs = TERMINATE)"
        using fin idle ring by (auto simp del: TERMINATE_def elim!: bind_res_InrE)
      then have "leave \<longrightarrow> token_proc s' = TERMINATE"
        by (auto simp: checkForTerm_def split: if_splits elim!: bind_res_InrE)
      with check_fine [OF i True rq idle ck(1), of g cb \<sigma>] show ?thesis by blast
    qed
  next
    case False
    with fin base_inv_running [OF inv1 i, simplified] have "process_one cb s1 = Inr s'" "w' = w1" "\<not> leave"
      by (auto elim!: bind_res_InrE)
    with one process_fine [OF cb inv1 i _ this(1), of E w1] False show ?thesis
      by (auto intro: rtranclp.rtrancl_into_rtrancl)
  qed
next
  case False
  with req have "s1 = s" "w1 = w" by simp_all
  with fin base_inv_running [OF inv i, simplified] False have "process_one cb s = Inr s'" "w' = w" "\<not> leave"
    by (auto elim!: bind_res_InrE)
  with process_fine [OF cb inv i _ this(1), of E w] False show ?thesis by auto
qed

lemma work_fine:
  assumes E: "env_ok E n" and cb: "callbacks_keep g cb" and inv: "base_inv n \<sigma> (pend w)" and i: "0 \<le> i" "i < n"
    and nb: "\<not> barrier_started (\<sigma> i)" and st: "work_step E M cb (\<sigma> i) w = Inr (leave, s', w')"
  shows "(fine g E cb n i)\<^sup>*\<^sup>* (\<sigma>, w) (\<sigma>(i := s'), w')
    \<and> (leave \<longrightarrow> \<not> term_tree_enabled s' \<longrightarrow> token_proc s' = TERMINATE)"
proof -
  from st obtain s1 w1 s2 w2 s3 w3 s4 w4 s5 w5 where
    o: "workreqCheck E M False (\<sigma> i) w = Inr (s1, w1)" "workreceiptCheck M s1 w1 = Inr (s2, w2)"
      "abortCheck M False s2 w2 = Inr (s3, w3)"
      "(if reduce_enabled s3 then reduceCheck E M cb (local_objects_processed s3) False s3 w3 else Inr (s3, w3)) = Inr (s4, w4)"
    and req: "(if qcount (qp s4) = 0 then bind_res (requestWork E M False s4 w4) (\<lambda>(_, s, w). Inr (s, w))
      else Inr (s4, w4)) = Inr (s5, w5)"
    and fin: "(if qcount (qp s5) > 0 \<and> ABORT_FLAG s5 = 0 then bind_res (process_one cb s5) (\<lambda>s. Inr (False, s, w5))
      else bind_res (if term_tree_enabled s5 then checkForTermAllReduce M s5 w5 else checkForTerm M s5 w5)
        (\<lambda>(st, s, w). Inr (st = TERMINATE, s, w))) = Inr (leave, s', w')"
    unfolding work_step_def bind_res_eq_Inr split_paired_Ex prod.case by (elim exE conjE)
  have inv0: "base_inv n (\<sigma>(i := \<sigma> i)) (pend w)" using inv by simp
  have two: "(fine g E cb n i)\<^sup>*\<^sup>* (\<sigma>(i := \<sigma> i), w) (\<sigma>(i := s2), w2)"
    using serve_fine [OF i o(1), of g cb \<sigma>] receipt_fine [OF i o(2), of g E cb \<sigma>]
    by (meson rtranclp.rtrancl_into_rtrancl rtranclp.rtrancl_refl)
  note inv2 = fines_base [OF two E inv0, THEN conjunct1]
  note ab = abort_fine [OF inv2 i o(3)]
  have idle: "fine g E cb n i (\<sigma>(i := s2), w2) (\<sigma>(i := s3), w3)"
    by (rule beside_fine [OF i]) (simp_all add: ab sideways_def)
  note inv3 = fine_base [OF E inv2 idle, THEN conjunct1]
  have "\<not> barrier_started s3" using sidelinesD(5) [OF fines_base [OF two E inv0, THEN conjunct2], of i] nb by (simp add: ab)
  then have nb3: "barrier_started s3 \<longrightarrow> False" by simp
  have three: "fine g E cb n i (\<sigma>(i := s3), w3) (\<sigma>(i := s4), w4)"
    by (rule beside_fine [OF i reduce_beside [OF cb o(4) nb3]])
  note inv4 = fine_base [OF E inv3 three, THEN conjunct1]
  from last_fine [OF E cb inv4 i req fin] two idle three show ?thesis
    by (simp only: fun_upd_triv) (meson rtranclp.rtrancl_into_rtrancl rtranclp_trans)
qed

text \<open>In the cleanup loop requests are refused, so the colour stays what it is.\<close>

lemma workreqCheck_refuses: "workreqCheck E M True s w = Inr (s', w') \<Longrightarrow> s' = s"
  by (auto simp: workreqCheck_def split: if_splits elim!: bind_res_InrE)

lemma request_keeps_proc:
  assumes E: "env_ok E n" and inv: "base_inv n (\<sigma>(i := s)) (pend w)" and i: "0 \<le> i" "i < n"
    and rq: "requestWork E M True s w = Inr (rc, s', w')"
  shows "token_proc s' = token_proc s" "term_tree_enabled s' = term_tree_enabled s"
proof -
  have pr: "proto n (\<sigma>(i := s)) (pend w)" using inv by (simp add: base_inv_def)
  have "asked n s (pend w) s' (pend w') \<or> s' = s"
    using yields_D [OF request_transfer [where \<sigma> = "\<sigma>(i := s)" and i = i and cleanup = True, OF E pr i]] rq by fastforce
  then have "token_proc s' = token_proc s \<and> term_tree_enabled s' = term_tree_enabled s"
    by (auto elim!: asked.cases simp: set_queue_def)
  then show "token_proc s' = token_proc s" "term_tree_enabled s' = term_tree_enabled s" by simp_all
qed

lemma cleanup_fine:
  assumes E: "env_ok E n" and cb: "callbacks_keep g cb" and inv: "base_inv n (\<sigma>(i := s1)) (pend w1)" and i: "0 \<le> i" "i < n"
    and t: "\<not> term_tree_enabled s1 \<longrightarrow> token_proc s1 = TERMINATE"
    and rest: "bind_res (workreqCheck E M True s1 w1) (\<lambda>(s, w).
          bind_res (if reduce_enabled s then reduceCheck E M cb (local_objects_processed s) True s w
                    else Inr (s, w)) (\<lambda>(s, w).
          bind_res (requestWork E M True s w) (\<lambda>(_, s, w).
          bind_res (abortCheck M True s w) (\<lambda>(s, w).
          bind_res (if \<not> term_tree_enabled s then drain_token M s w else Inr (s, w)) (\<lambda>(s, w).
            Inr (False, s, w)))))) = Inr (leave, s', w')"
  shows "(fine g E cb n i)\<^sup>*\<^sup>* (\<sigma>(i := s1), w1) (\<sigma>(i := s'), w') \<and> \<not> leave
    \<and> (\<not> term_tree_enabled s' \<longrightarrow> token_proc s' = TERMINATE)"
proof -
  from rest obtain s2 w2 s3 w3 rc s4 w4 s5 w5 where
    o: "workreqCheck E M True s1 w1 = Inr (s2, w2)"
      "(if reduce_enabled s2 then reduceCheck E M cb (local_objects_processed s2) True s2 w2 else Inr (s2, w2)) = Inr (s3, w3)"
      "requestWork E M True s3 w3 = Inr (rc, s4, w4)" "abortCheck M True s4 w4 = Inr (s5, w5)"
      "(if \<not> term_tree_enabled s5 then drain_token M s5 w5 else Inr (s5, w5)) = Inr (s', w')" "\<not> leave"
    unfolding bind_res_eq_Inr split_paired_Ex prod.case by (elim exE conjE) simp
  note red = reduce_beside [OF cb o(2) impI [OF TrueI]]
  have steps: "(fine g E cb n i)\<^sup>*\<^sup>* (\<sigma>(i := s1), w1) (\<sigma>(i := s3), w3)"
    using serve_fine [OF i o(1), of g cb \<sigma>] beside_fine [OF i red, of \<sigma>]
    by (meson rtranclp.rtrancl_into_rtrancl rtranclp.rtrancl_refl)
  note inv3 = fines_base [OF steps E inv, THEN conjunct1]
  have step4: "fine g E cb n i (\<sigma>(i := s3), w3) (\<sigma>(i := s4), w4)" by (rule request_fine [OF i disjI2 [OF TrueI] o(3)])
  note inv4 = fine_base [OF E inv3 step4, THEN conjunct1]
  note ab = abort_fine [OF inv4 i o(4)]
  have t4: "\<not> term_tree_enabled s4 \<longrightarrow> token_proc s4 = TERMINATE"
    using t workreqCheck_refuses [OF o(1)] red(1) request_keeps_proc [OF E inv3 i o(3)]
    by (simp add: beside_def bystander_def)
  have four: "(fine g E cb n i)\<^sup>*\<^sup>* (\<sigma>(i := s1), w1) (\<sigma>(i := s4), w4)" using steps step4 by simp
  have idle: "fine g E cb n i (\<sigma>(i := s4), w4) (\<sigma>(i := s4), w5)"
    by (rule beside_fine [OF i]) (simp_all add: ab sideways_def)
  show ?thesis
  proof (cases "term_tree_enabled s4")
    case True
    with o(5) ab have "s' = s4" "w' = w5" by simp_all
    with four idle True o(6) show ?thesis by (auto intro: rtranclp.rtrancl_into_rtrancl)
  next
    case False
    with o(5) ab have dr: "drain_token M s4 w5 = Inr (s', w')" by simp
    obtain lc tb tp tr where "s' = token_update lc tb tp tr s4" "tp = TERMINATE"
      using drain_frame(1) [OF dr] t4 False by blast
    moreover have "fine g E cb n i (\<sigma>(i := s4), w5) (\<sigma>(i := s'), w')" by (rule drain_fine [OF i _ dr]) (use t4 False in simp)
    ultimately show ?thesis using four idle o(6) by (auto intro: rtranclp.rtrancl_into_rtrancl)
  qed
qed

section \<open>A step of the program\<close>

text \<open>The parts of a step: an iteration of the work loop is made of fine steps; an iteration
  of the cleanup loop is one test of the barrier, followed by fine steps when it is not
  complete.\<close>

lemma program_parts:
  assumes E: "env_ok E n" and cb: "callbacks_keep g cb" and inv: "base_program n ph \<sigma> (pend w)"
    and st: "program_step E M cb n (ph, \<sigma>, w) (ph', \<sigma>', w')"
  obtains
    (iterate) i leave s' where "0 \<le> i" "i < n" "ph i = Working" "\<sigma>' = \<sigma>(i := s')"
      "ph' = ph(i := if leave then Cleaning else Working)" "(fine g E cb n i)\<^sup>*\<^sup>* (\<sigma>, w) (\<sigma>', w')"
      "leave \<longrightarrow> \<not> term_tree_enabled s' \<longrightarrow> token_proc s' = TERMINATE"
  | (cleanup) i b s1 w1 s' where "0 \<le> i" "i < n" "ph i = Cleaning" "\<sigma>' = \<sigma>(i := s')"
      "ph' = ph(i := if b then Finished else Cleaning)" "barrierTest M (entering (\<sigma> i)) w = Inr (b, s1, w1)"
      "(fine g E cb n i)\<^sup>*\<^sup>* (\<sigma>(i := s1), w1) (\<sigma>', w')" "b \<longrightarrow> s' = s1 \<and> w' = w1"
      "base_inv n (\<sigma>(i := s1)) (pend w1)" "bystander g (\<sigma> i) s1" "elsewhere {TAG_BARRIER} (pend w) (pend w1)"
      "\<not> term_tree_enabled s' \<longrightarrow> token_proc s' = TERMINATE" "undisturbed (\<sigma> i) s1"
  using st
proof cases
  case it: (iterate i leave s')
  have "base_inv n \<sigma> (pend w)" "\<not> barrier_started (\<sigma> i)" using inv it(3-5) by (simp_all add: base_program_def)
  from work_fine [OF E cb this(1) it(3,4) this(2) it(6)] it show thesis by (intro iterate [of i s' leave]) simp_all
next
  case cl: (cleanup i leave s')
  have base: "base_inv n \<sigma> (pend w)" and t: "\<not> term_tree_enabled (\<sigma> i) \<longrightarrow> token_proc (\<sigma> i) = TERMINATE"
    using inv cl(3-5) by (simp_all add: base_program_def)
  from cl(6) obtain b s1 w1 where bt: "barrierTest M (entering (\<sigma> i)) w = Inr (b, s1, w1)"
    and rest: "(if b then Inr (True, s1, w1)
        else bind_res (workreqCheck E M True s1 w1) (\<lambda>(s, w).
          bind_res (if reduce_enabled s then reduceCheck E M cb (local_objects_processed s) True s w
                    else Inr (s, w)) (\<lambda>(s, w).
          bind_res (requestWork E M True s w) (\<lambda>(_, s, w).
          bind_res (abortCheck M True s w) (\<lambda>(s, w).
          bind_res (if \<not> term_tree_enabled s then drain_token M s w else Inr (s, w)) (\<lambda>(s, w).
            Inr (False, s, w))))))) = Inr (leave, s', w')"
    unfolding cleanup_step_def Let_def entering_def [symmetric]
      bind_res_eq_Inr [of "barrierTest M (entering (\<sigma> i)) w"] split_paired_Ex prod.case
    by (elim exE conjE)
  have "bystander g (\<sigma> i) (entering (\<sigma> i))" by (simp add: entering_def barrierStart_def)
  moreover have "bystander g (entering (\<sigma> i)) s1 \<and> undisturbed (entering (\<sigma> i)) s1 \<and> elsewhere {TAG_BARRIER} (pend w) (pend w1)"
    using barrierTest_aside [where g = g and s = "entering (\<sigma> i)" and w = w] unfolding bt results_def by simp
  moreover have "undisturbed (\<sigma> i) (entering (\<sigma> i))" by (simp add: entering_def barrierStart_def)
  ultimately have one: "bystander g (\<sigma> i) s1" "elsewhere {TAG_BARRIER} (pend w) (pend w1)" and un: "undisturbed (\<sigma> i) s1"
    using bystander_trans undisturbed_trans by blast+
  have inv1: "base_inv n (\<sigma>(i := s1)) (pend w1)"
    by (rule bystander_base [where \<sigma> = \<sigma> and i = i, OF base one]) simp_all
  have t1: "\<not> term_tree_enabled s1 \<longrightarrow> token_proc s1 = TERMINATE" using one(1) t by (simp add: bystander_def)
  show thesis
  proof (cases b)
    case True
    with rest have "leave" "s' = s1" "w' = w1" by auto
    with cl bt inv1 one un t1 True show thesis by (intro cleanup [of i s' b s1 w1]) simp_all
  next
    case False
    from cleanup_fine [OF E cb inv1 cl(3,4) t1 rest [unfolded if_not_P [OF False]]]
    have "(fine g E cb n i)\<^sup>*\<^sup>* (\<sigma>(i := s1), w1) (\<sigma>(i := s'), w')" "\<not> leave"
      "\<not> term_tree_enabled s' \<longrightarrow> token_proc s' = TERMINATE" by simp_all
    with cl bt inv1 one un False show thesis by (intro cleanup [of i s' b s1 w1]) simp_all
  qed
qed

lemma program_base:
  assumes E: "env_ok E n" and cb: "callbacks_keep g cb" and inv: "base_program n ph \<sigma> (pend w)"
    and st: "program_step E M cb n (ph, \<sigma>, w) (ph', \<sigma>', w')"
  shows "base_program n ph' \<sigma>' (pend w')"
  using E cb inv st
proof (cases rule: program_parts)
  case (iterate i leave s')
  have "base_inv n \<sigma>' (pend w') \<and> sidelines \<sigma> (pend w) \<sigma>' (pend w')"
    using fines_base [OF iterate(6) E] inv by (simp add: base_program_def)
  then have "base_inv n \<sigma>' (pend w')" "\<And>j. barrier_started (\<sigma>' j) = barrier_started (\<sigma> j)"
    using sidelinesD(5) by blast+
  moreover from this(2) [of i] iterate(4) have "barrier_started s' = barrier_started (\<sigma> i)" by simp
  ultimately show ?thesis using iterate inv by (simp add: base_program_def)
next
  case (cleanup i b s1 w1 s')
  have "base_inv n \<sigma>' (pend w')" using fines_base [OF cleanup(7) E cleanup(9)] by simp
  with cleanup inv show ?thesis by (cases b) (simp_all add: base_program_def)
qed

text \<open>An invariant that single steps keep on top of the base holds in every reachable state.\<close>

lemma program_induct:
  assumes run: "(program_step E M cb n)\<^sup>*\<^sup>* (ph, \<sigma>, w) (ph', \<sigma>', w')" and E: "env_ok E n" and cb: "callbacks_keep g cb"
    and base: "base_program n ph \<sigma> (pend w)" and init: "P ph \<sigma> w"
    and step: "\<And>ph \<sigma> w ph' \<sigma>' w'. base_program n ph \<sigma> (pend w) \<Longrightarrow> P ph \<sigma> w \<Longrightarrow>
      program_step E M cb n (ph, \<sigma>, w) (ph', \<sigma>', w') \<Longrightarrow> P ph' \<sigma>' w'"
  shows "base_program n ph' \<sigma>' (pend w') \<and> P ph' \<sigma>' w'"
  using run
proof (induction "(ph', \<sigma>', w')" arbitrary: ph' \<sigma>' w' rule: rtranclp_induct)
  case base
  then show ?case using assms(4,5) by simp
next
  case (step c)
  obtain ph1 \<sigma>1 w1 where c: "c = (ph1, \<sigma>1, w1)" by (cases c)
  from step.hyps(3) [OF c] have IH: "base_program n ph1 \<sigma>1 (pend w1)" "P ph1 \<sigma>1 w1" by simp_all
  show ?case
    using program_base [OF E cb IH(1) step.hyps(2) [unfolded c]] assms(6) [OF IH step.hyps(2) [unfolded c]] by blast
qed

end

section \<open>Ring mode\<close>

definition ring_program :: "int \<Rightarrow> (int \<Rightarrow> 'u state) \<Rightarrow> (channel \<Rightarrow> payload list) \<Rightarrow> bool" where
  "ring_program n \<sigma> p \<longleftrightarrow> ring_inv n \<sigma> p \<and> (\<forall>i. 0 \<le> i \<longrightarrow> i < n \<longrightarrow> \<not> term_tree_enabled (\<sigma> i))"

context mpi_eager
begin

lemma fines_ring:
  assumes "(fine g E cb n i)\<^sup>*\<^sup>* (\<sigma>, w) (\<sigma>', w')" "env_ok E n" "base_inv n \<sigma> (pend w)" "ring_program n \<sigma> (pend w)"
  shows "ring_program n \<sigma>' (pend w')"
proof -
  have "ring_inv n \<sigma>' (pend w')"
    using assms(1)
  proof (induction rule: rtranclp_induct2)
    case refl
    show ?case using assms(4) by (simp add: ring_program_def)
  next
    case (step \<sigma>1 w1 \<sigma>2 w2)
    from step.hyps(2) consider "ring_step E M cb n (\<sigma>1, w1) (\<sigma>2, w2)" | "beside_step g E M pend cb n i (\<sigma>1, w1) (\<sigma>2, w2)"
      unfolding fine_step_def by blast
    then show ?case
    proof cases
      case 1
      with reachable_ring [OF r_into_rtranclp assms(2) step.IH] show ?thesis by blast
    next
      case 2
      then show ?thesis
      proof cases
        case (beside s')
        show ?thesis unfolding beside(1)
          by (rule bystander_ring [where \<sigma> = \<sigma>1 and i = i, OF step.IH beside_bystander [OF beside(4)] beside(5)]) simp
      qed
    qed
  qed
  with fines_base [OF assms(1-3)] assms(4) show ?thesis by (simp add: ring_program_def sidelines_def)
qed

lemma program_ring:
  assumes E: "env_ok E n" and cb: "callbacks_keep g cb" and inv: "base_program n ph \<sigma> (pend w)"
    and ring: "ring_program n \<sigma> (pend w)" and st: "program_step E M cb n (ph, \<sigma>, w) (ph', \<sigma>', w')"
  shows "ring_program n \<sigma>' (pend w')"
  using E cb inv st
proof (cases rule: program_parts)
  case (iterate i leave s')
  with fines_ring [OF iterate(6) E _ ring] inv show ?thesis by (simp add: base_program_def)
next
  case (cleanup i b s1 w1 s')
  have "ring_program n (\<sigma>(i := s1)) (pend w1)"
    using ring bystander_ring [where \<sigma> = \<sigma> and i = i, OF _ cleanup(10,11)] cleanup(10)
    by (simp add: ring_program_def bystander_def)
  from fines_ring [OF cleanup(7) E cleanup(9) this] show ?thesis .
qed

end

section \<open>All runs\<close>

lemma start_base:
  assumes "starts_work E n \<sigma>" "env_ok E n" "\<forall>k. p k = []"
  shows "base_program n (\<lambda>_. Working) \<sigma> p"
proof -
  have "\<not> abort_outstanding (\<sigma> i)" "\<not> barrier_started (\<sigma> i)" if i: "0 \<le> i" "i < n" for i
  proof -
    obtain now junk c s c' where s: "State_new E i n now junk c = Inr s" "\<sigma> i = s\<lparr>circ := c'\<rparr>"
      using assms(1) i unfolding starts_work_def by blast
    show "\<not> abort_outstanding (\<sigma> i)" "\<not> barrier_started (\<sigma> i)"
      using s(2) State_new_sel(17,21) [OF s(1)] by simp_all
  qed
  moreover have "proto n \<sigma> p" by (rule start_proto [OF assms])
  ultimately show ?thesis using assms(3) by (simp add: base_program_def base_inv_def)
qed

text \<open>In every run, in either mode of termination detection.\<close>

lemma program_reachable:
  assumes "mpi_laws M pend" "env_ok E n" "callbacks_ok cb" "starts_work E n \<sigma>0" "\<forall>k. pend w0 k = []"
    "(program_step E M cb n)\<^sup>*\<^sup>* (\<lambda>_. Working, \<sigma>0, w0) (ph, \<sigma>, w)"
  shows "base_program n ph \<sigma> (pend w)"
  using mpi_laws.program_induct [OF assms(1,6,2) callbacks_keep_nothing [OF assms(3)] start_base [OF assms(4,2,5)], of "\<lambda>_ _ _. True"] by simp

text \<open>In ring mode: once a process has left the work loop, there is no work.\<close>

lemma ring_reachable:
  assumes "mpi_eager M pend" "env_ok E n" "callbacks_ok cb" "starts_work E n \<sigma>0" "\<forall>k. pend w0 k = []"
    "\<forall>i. 0 \<le> i \<longrightarrow> i < n \<longrightarrow> \<not> term_tree_enabled (\<sigma>0 i)"
    "(program_step E M cb n)\<^sup>*\<^sup>* (\<lambda>_. Working, \<sigma>0, w0) (ph, \<sigma>, w)" "0 \<le> i" "i < n" "ph i \<noteq> Working"
  shows "finished n \<sigma> (pend w)"
proof -
  have laws: "mpi_laws M pend" using assms(1) by (simp add: mpi_eager_def)
  have "ring_program n \<sigma>0 (pend w0)"
    using start_ring [OF assms(4,2,5)] assms(6,8,9) by (simp add: ring_program_def)
  then have "base_program n ph \<sigma> (pend w) \<and> ring_program n \<sigma> (pend w)"
    by (intro mpi_laws.program_induct [OF laws assms(7,2) callbacks_keep_nothing [OF assms(3)] start_base [OF assms(4,2,5)], of "\<lambda>ph \<sigma> w. ring_program n \<sigma> (pend w)"])
      (auto intro: mpi_eager.program_ring [OF assms(1,2) callbacks_keep_nothing [OF assms(3)]])
  then have "ring_inv n \<sigma> (pend w)" "token_proc (\<sigma> i) = TERMINATE"
    using assms(8-10) by (auto simp: ring_program_def base_program_def)
  with ring_terminated assms(8,9) show ?thesis by blast
qed

section \<open>Runs by evaluation\<close>

text \<open>A schedule is the list of the ranks that run their next iteration.\<close>

definition advance :: "env \<Rightarrow> 'w mpi \<Rightarrow> 'u callbacks \<Rightarrow> int \<Rightarrow> ('u, 'w) program \<Rightarrow> ('u, 'w) program option" where
  "advance E M cb i c = (case c of (ph, \<sigma>, w) \<Rightarrow>
     (case ph i of
       Working \<Rightarrow> (case work_step E M cb (\<sigma> i) w of Inl e \<Rightarrow> None
         | Inr (leave, s, w) \<Rightarrow> Some (ph(i := if leave then Cleaning else Working), \<sigma>(i := s), w))
     | Cleaning \<Rightarrow> (case cleanup_step E M cb (\<sigma> i) w of Inl e \<Rightarrow> None
         | Inr (leave, s, w) \<Rightarrow> Some (ph(i := if leave then Finished else Cleaning), \<sigma>(i := s), w))
     | Finished \<Rightarrow> None))"

fun run_program :: "env \<Rightarrow> 'w mpi \<Rightarrow> 'u callbacks \<Rightarrow> int list \<Rightarrow> ('u, 'w) program \<Rightarrow> ('u, 'w) program option" where
  "run_program E M cb [] c = Some c"
| "run_program E M cb (i # js) c =
     (case advance E M cb i c of None \<Rightarrow> None | Some c \<Rightarrow> run_program E M cb js c)"

lemma advance_step:
  assumes "advance E M cb i c = Some c'" "0 \<le> i" "i < n"
  shows "program_step E M cb n c c'"
proof -
  obtain ph \<sigma> w where c: "c = (ph, \<sigma>, w)" by (cases c)
  show ?thesis
  proof (cases "ph i")
    case Working
    then obtain leave s w1 where r: "work_step E M cb (\<sigma> i) w = Inr (leave, s, w1)"
      "c' = (ph(i := if leave then Cleaning else Working), \<sigma>(i := s), w1)"
      using assms(1) c by (auto simp: advance_def split: sum.splits)
    show ?thesis unfolding r(2) c by (rule program_step.iterate [where ph = ph and \<sigma> = \<sigma> and i = i, OF assms(2,3) Working r(1)])
  next
    case Cleaning
    then obtain leave s w1 where r: "cleanup_step E M cb (\<sigma> i) w = Inr (leave, s, w1)"
      "c' = (ph(i := if leave then Finished else Cleaning), \<sigma>(i := s), w1)"
      using assms(1) c by (auto simp: advance_def split: sum.splits)
    show ?thesis unfolding r(2) c by (rule program_step.cleanup [where ph = ph and \<sigma> = \<sigma> and i = i, OF assms(2,3) Cleaning r(1)])
  next
    case Finished
    with assms(1) c show ?thesis by (simp add: advance_def)
  qed
qed

lemma run_program_steps:
  "run_program E M cb js c = Some c' \<Longrightarrow> \<forall>i \<in> set js. 0 \<le> i \<and> i < n \<Longrightarrow> (program_step E M cb n)\<^sup>*\<^sup>* c c'"
proof (induction js arbitrary: c)
  case (Cons i js)
  then obtain c1 where "advance E M cb i c = Some c1" "run_program E M cb js c1 = Some c'"
    by (auto split: option.splits)
  with Cons show ?case by (meson advance_step converse_rtranclp_into_rtranclp list.set_intros)
qed simp

lemma pop_kept:
  assumes "pop c q = Inr (rc, x, q')" "wf_queue q" "fits (items q)"
  shows "wf_queue q'" "fits (items q')"
proof -
  have "wf_queue q' \<and> fits (items q')"
  proof (cases "items q" rule: rev_cases)
    case Nil
    then have "q' = q" using pop_empty [of q c] wf_queue_rep [OF assms(2)] assms(1) by simp
    then show ?thesis using assms by simp
  next
    case (snoc ys y)
    then obtain q1 where "pop c q = Inr (0, y, q1)" "queue_rep q1 ys"
      using pop_rep [of q ys y c] wf_queue_rep [OF assms(2)] by auto
    then show ?thesis
      using assms fits_append [of ys "[y]"] snoc queue_rep_items queue_rep_wf by auto
  qed
  then show "wf_queue q'" "fits (items q')" by simp_all
qed

lemma demo_callbacks_ok: "callbacks_ok demo_callbacks"
  unfolding callbacks_ok_def
  by (auto simp: demo_callbacks_def dequeue_def bind_res_eq_Inr dest: pop_kept)

lemma demo_no_tree: "\<forall>i. 0 \<le> i \<longrightarrow> i < 2 \<longrightarrow> \<not> term_tree_enabled (demo_state i)"
proof -
  have "\<not> term_tree_enabled (demo_state 0)" "\<not> term_tree_enabled (demo_state 1)" by code_simp+
  moreover have "i = 0 \<or> i = 1" if "0 \<le> i" "i < 2" for i :: int using that by auto
  ultimately show ?thesis by blast
qed

text \<open>Two processes taking turns: the second asks for work, gets some and does it, the first does
  the rest and sends the token around; then both clean up, meet in the barrier and finish.\<close>

definition program_start :: "(unit, fifo) program" where
  "program_start = (\<lambda>_. Working, demo0)"

definition program_end :: "(unit, fifo) program" where
  "program_end = the (run_program demo_env fifo_mpi demo_callbacks [1, 0, 1, 0, 1, 0, 1, 0, 1, 0, 1, 0, 1, 0, 1] program_start)"

lemma program_run: "(program_step demo_env fifo_mpi demo_callbacks 2)\<^sup>*\<^sup>* program_start program_end"
proof -
  let ?js = "[1, 0, 1, 0, 1, 0, 1, 0, 1, 0, 1, 0, 1, 0, 1] :: int list"
  have "run_program demo_env fifo_mpi demo_callbacks ?js program_start \<noteq> None" by code_simp
  then show ?thesis by (intro run_program_steps [where js = ?js]) (auto simp: program_end_def)
qed

lemma program_end_finished: "fst program_end 0 = Finished" "fst program_end 1 = Finished"
proof -
  have "(case program_end of (ph, _) \<Rightarrow> ph 0 = Finished \<and> ph 1 = Finished)" by code_simp
  then show "fst program_end 0 = Finished" "fst program_end 1 = Finished" by (simp_all add: case_prod_beta)
qed

end
