(* ===== verification/Circle_Barrier.thy ===== *)
theory Circle_Barrier
  imports Circle_System
begin

text \<open>
  The barrier of the cleanup loop.  An abstract barrier on a rank tree says who has left the
  work loop, who has reported to its parent and who has been released; its invariant gives
  the property of a barrier.  Every step of the program is simulated by steps of the abstract
  barrier.
\<close>

section \<open>The abstract barrier\<close>

record bar =
  gone :: "int \<Rightarrow> bool"
  replies :: "int \<Rightarrow> int"
  ups :: "int \<Rightarrow> bool"
  released :: "int \<Rightarrow> bool"
  msgs :: "int \<Rightarrow> int \<Rightarrow> nat"

definition add_msg :: "int \<Rightarrow> int \<Rightarrow> (int \<Rightarrow> int \<Rightarrow> nat) \<Rightarrow> int \<Rightarrow> int \<Rightarrow> nat" where
  "add_msg i j m = (\<lambda>a b. if a = i \<and> b = j then m a b + 1 else m a b)"

definition take_msg :: "int \<Rightarrow> int \<Rightarrow> (int \<Rightarrow> int \<Rightarrow> nat) \<Rightarrow> int \<Rightarrow> int \<Rightarrow> nat" where
  "take_msg i j m = (\<lambda>a b. if a = i \<and> b = j then m a b - 1 else m a b)"

definition add_msgs :: "int \<Rightarrow> int set \<Rightarrow> (int \<Rightarrow> int \<Rightarrow> nat) \<Rightarrow> int \<Rightarrow> int \<Rightarrow> nat" where
  "add_msgs i C m = (\<lambda>a b. if a = i \<and> b \<in> C then m a b + 1 else m a b)"

inductive bar_step :: "int \<Rightarrow> (int \<Rightarrow> int option) \<Rightarrow> (int \<Rightarrow> int list) \<Rightarrow> bar \<Rightarrow> bar \<Rightarrow> bool"
  for n par chl where
  leave: "0 \<le> i \<Longrightarrow> i < n \<Longrightarrow> bar_step n par chl b (b\<lparr>gone := (gone b)(i := True)\<rparr>)"
| collect: "0 \<le> i \<Longrightarrow> i < n \<Longrightarrow> gone b i \<Longrightarrow> \<not> released b i \<Longrightarrow> replies b i < int (length (chl i)) \<Longrightarrow>
    0 < msgs b j i \<Longrightarrow>
    bar_step n par chl b (b\<lparr>replies := (replies b)(i := replies b i + 1), msgs := take_msg j i (msgs b)\<rparr>)"
| report: "0 \<le> i \<Longrightarrow> i < n \<Longrightarrow> gone b i \<Longrightarrow> \<not> released b i \<Longrightarrow> \<not> ups b i \<Longrightarrow> replies b i = int (length (chl i)) \<Longrightarrow>
    bar_step n par chl b (b\<lparr>ups := (ups b)(i := True),
      msgs := (case par i of None \<Rightarrow> msgs b | Some q \<Rightarrow> add_msg i q (msgs b))\<rparr>)"
| release: "0 \<le> i \<Longrightarrow> i < n \<Longrightarrow> gone b i \<Longrightarrow> \<not> released b i \<Longrightarrow> ups b i \<Longrightarrow> (\<forall>q. par i = Some q \<longrightarrow> 0 < msgs b q i) \<Longrightarrow>
    bar_step n par chl b (b\<lparr>replies := (replies b)(i := 0), ups := (ups b)(i := False), released := (released b)(i := True),
      msgs := add_msgs i (set (chl i)) (case par i of None \<Rightarrow> msgs b | Some q \<Rightarrow> take_msg q i (msgs b))\<rparr>)"

definition reported :: "bar \<Rightarrow> int \<Rightarrow> bool" where
  "reported b i \<longleftrightarrow> ups b i \<or> released b i"

definition bar_start :: "int \<Rightarrow> bar \<Rightarrow> bool" where
  "bar_start n b \<longleftrightarrow> (\<forall>i. 0 \<le> i \<longrightarrow> i < n \<longrightarrow> \<not> gone b i \<and> \<not> ups b i \<and> \<not> released b i \<and> replies b i = 0)
     \<and> (\<forall>i j. msgs b i j = 0)"

text \<open>The invariant.  A process that is not released has taken as many replies as children have
  reported, but for those on the way; a message down the tree comes from a released parent.\<close>

definition bar_inv :: "int \<Rightarrow> (int \<Rightarrow> int option) \<Rightarrow> (int \<Rightarrow> int list) \<Rightarrow> bar \<Rightarrow> bool" where
  "bar_inv n par chl b \<longleftrightarrow>
     (\<forall>i. 0 \<le> i \<longrightarrow> i < n \<longrightarrow> reported b i \<longrightarrow> gone b i)
     \<and> (\<forall>i. 0 \<le> i \<longrightarrow> i < n \<longrightarrow> \<not> released b i \<longrightarrow>
          replies b i + (\<Sum>c\<in>set (chl i). int (msgs b c i)) = int (card {c \<in> set (chl i). reported b c}))
     \<and> (\<forall>i. 0 \<le> i \<longrightarrow> i < n \<longrightarrow> ups b i \<longrightarrow> \<not> released b i \<longrightarrow> replies b i = int (length (chl i)))
     \<and> (\<forall>i. 0 \<le> i \<longrightarrow> i < n \<longrightarrow> released b i \<longrightarrow> (\<forall>c\<in>set (chl i). reported b c))
     \<and> (\<forall>i q. 0 \<le> i \<longrightarrow> i < n \<longrightarrow> par i = Some q \<longrightarrow> msgs b q i \<le> 1 \<and> (0 < msgs b q i \<longrightarrow> released b q \<and> \<not> released b i)
          \<and> (released b i \<longrightarrow> released b q))
     \<and> (\<forall>i j. 0 < msgs b i j \<longrightarrow> 0 \<le> i \<and> i < n \<and> 0 \<le> j \<and> j < n \<and> (par i = Some j \<or> par j = Some i))"

lemma bar_invD:
  assumes "bar_inv n par chl b"
  shows "0 \<le> i \<Longrightarrow> i < n \<Longrightarrow> reported b i \<Longrightarrow> gone b i"
    "0 \<le> i \<Longrightarrow> i < n \<Longrightarrow> \<not> released b i \<Longrightarrow>
      replies b i + (\<Sum>c\<in>set (chl i). int (msgs b c i)) = int (card {c \<in> set (chl i). reported b c})"
    "0 \<le> i \<Longrightarrow> i < n \<Longrightarrow> ups b i \<Longrightarrow> \<not> released b i \<Longrightarrow> replies b i = int (length (chl i))"
    "0 \<le> i \<Longrightarrow> i < n \<Longrightarrow> released b i \<Longrightarrow> c \<in> set (chl i) \<Longrightarrow> reported b c"
    "0 \<le> i \<Longrightarrow> i < n \<Longrightarrow> par i = Some q \<Longrightarrow> msgs b q i \<le> 1"
    "0 \<le> i \<Longrightarrow> i < n \<Longrightarrow> par i = Some q \<Longrightarrow> 0 < msgs b q i \<Longrightarrow> released b q \<and> \<not> released b i"
    "0 \<le> i \<Longrightarrow> i < n \<Longrightarrow> par i = Some q \<Longrightarrow> released b i \<Longrightarrow> released b q"
    "0 < msgs b i j \<Longrightarrow> 0 \<le> i \<and> i < n \<and> 0 \<le> j \<and> j < n \<and> (par i = Some j \<or> par j = Some i)"
  using assms unfolding bar_inv_def by blast+

lemma bar_invI:
  assumes "\<And>i. 0 \<le> i \<Longrightarrow> i < n \<Longrightarrow> reported b i \<Longrightarrow> gone b i"
    "\<And>i. 0 \<le> i \<Longrightarrow> i < n \<Longrightarrow> \<not> released b i \<Longrightarrow>
      replies b i + (\<Sum>c\<in>set (chl i). int (msgs b c i)) = int (card {c \<in> set (chl i). reported b c})"
    "\<And>i. 0 \<le> i \<Longrightarrow> i < n \<Longrightarrow> ups b i \<Longrightarrow> \<not> released b i \<Longrightarrow> replies b i = int (length (chl i))"
    "\<And>i c. 0 \<le> i \<Longrightarrow> i < n \<Longrightarrow> released b i \<Longrightarrow> c \<in> set (chl i) \<Longrightarrow> reported b c"
    "\<And>i q. 0 \<le> i \<Longrightarrow> i < n \<Longrightarrow> par i = Some q \<Longrightarrow> msgs b q i \<le> 1"
    "\<And>i q. 0 \<le> i \<Longrightarrow> i < n \<Longrightarrow> par i = Some q \<Longrightarrow> 0 < msgs b q i \<Longrightarrow> released b q \<and> \<not> released b i"
    "\<And>i q. 0 \<le> i \<Longrightarrow> i < n \<Longrightarrow> par i = Some q \<Longrightarrow> released b i \<Longrightarrow> released b q"
    "\<And>i j. 0 < msgs b i j \<Longrightarrow> 0 \<le> i \<and> i < n \<and> 0 \<le> j \<and> j < n \<and> (par i = Some j \<or> par j = Some i)"
  shows "bar_inv n par chl b"
  using assms unfolding bar_inv_def by blast

context rank_tree
begin

abbreviation binv :: "bar \<Rightarrow> bool" where "binv \<equiv> bar_inv n par chl"

lemma bar_start_inv:
  assumes "bar_start n b"
  shows "binv b"
proof -
  have "\<not> reported b c" if "0 \<le> i" "i < n" "c \<in> set (chl i)" for i c
    using assms child_bounds [OF that] that(1) by (simp add: bar_start_def reported_def)
  moreover have none: "\<not> reported b i" "\<not> released b i" if "0 \<le> i" "i < n" for i
    using assms that by (simp_all add: bar_start_def reported_def)
  ultimately show ?thesis
    using assms unfolding bar_start_def by (intro bar_invI) (auto simp: reported_def)
qed

text \<open>When a process has reported, so have all its children, and no report is on the way.\<close>

lemma all_reported:
  assumes inv: "binv b" and i: "0 \<le> i" "i < n" and up: "reported b i" and c: "c \<in> set (chl i)"
  shows "reported b c"
proof (cases "released b i")
  case True
  then show ?thesis using bar_invD(4) [OF inv i] c by blast
next
  case False
  with up have "ups b i" by (simp add: reported_def)
  let ?R = "{c \<in> set (chl i). reported b c}"
  have "int (length (chl i)) \<le> int (card ?R)"
    using bar_invD(2) [OF inv i False] bar_invD(3) [OF inv i \<open>ups b i\<close> False]
      sum_nonneg [of "set (chl i)" "\<lambda>c. int (msgs b c i)"] by simp
  then have "card (set (chl i)) \<le> card ?R" using distinct_card [OF child_distinct [of i]] by simp
  then have "?R = set (chl i)" by (intro card_seteq) auto
  then show ?thesis using c by blast
qed

text \<open>A message up the tree is only collected; the parent's message comes after all replies.\<close>

lemma collected_from_child:
  assumes inv: "binv b" and i: "0 \<le> i" "i < n" and less: "replies b i < int (length (chl i))" "\<not> released b i"
    and m: "0 < msgs b j i"
  shows "j \<in> set (chl i)"
proof -
  have j: "0 \<le> j" "j < n" "par j = Some i \<or> par i = Some j" using bar_invD(8) [OF inv m] by auto
  have "par i \<noteq> Some j"
  proof
    assume p: "par i = Some j"
    have "released b j" using bar_invD(6) [OF inv i p m] by simp
    moreover have "i \<in> set (chl j)" using par_range [OF i p] by simp
    ultimately have "reported b i" using bar_invD(4) [OF inv j(1,2)] by blast
    with less(2) have "ups b i" by (simp add: reported_def)
    with bar_invD(3) [OF inv i this less(2)] less(1) show False by simp
  qed
  with j have "par j = Some i" by blast
  then show ?thesis using par_range [OF j(1,2)] by blast
qed

lemma leave_inv: "binv b \<Longrightarrow> binv (b\<lparr>gone := (gone b)(i := True)\<rparr>)"
  unfolding bar_inv_def reported_def by simp

lemma collect_inv:
  assumes inv: "binv b" and i: "0 \<le> i" "i < n" and st: "\<not> released b i" "replies b i < int (length (chl i))" "0 < msgs b j i"
  shows "binv (b\<lparr>replies := (replies b)(i := replies b i + 1), msgs := take_msg j i (msgs b)\<rparr>)" (is "binv ?b")
proof -
  have j: "j \<in> set (chl i)" by (rule collected_from_child [OF inv i st(2,1,3)])
  have rep: "reported ?b = reported b" by (simp add: fun_eq_iff reported_def)
  have down: "msgs ?b q r = msgs b q r" if "par r = Some q" "0 \<le> r" "r < n" for q r
    using that j child_bounds [OF i j] par_range [OF that(2,3,1)] by (auto simp: take_msg_def)
  show ?thesis
  proof (rule bar_invI, goal_cases)
    case (2 r)
    have "(\<Sum>c\<in>set (chl r). int (msgs ?b c r)) = (\<Sum>c\<in>set (chl r). int (msgs b c r)) - (if r = i then 1 else 0)"
    proof (cases "r = i")
      case True
      have "(\<Sum>c\<in>set (chl i). int (msgs ?b c i)) + 1 = (\<Sum>c\<in>set (chl i). int (msgs b c i))"
        using j st(3) by (simp add: sum.remove [of _ j] take_msg_def)
      with True show ?thesis by simp
    next
      case False
      then show ?thesis by (simp add: take_msg_def)
    qed
    with bar_invD(2) [OF inv 2(1,2)] 2(3) show ?case unfolding rep by (cases "r = i") simp_all
  next
    case (3 r)
    with bar_invD(3) [OF inv 3(1,2)] st(2) show ?case by (cases "r = i") auto
  next
    case (8 a c)
    then have "0 < msgs b a c" by (simp add: take_msg_def split: if_splits)
    then show ?case by (rule bar_invD(8) [OF inv])
  qed (use bar_invD [OF inv] rep down in auto)
qed

lemma report_inv:
  assumes inv: "binv b" and i: "0 \<le> i" "i < n"
    and st: "gone b i" "\<not> released b i" "\<not> ups b i" "replies b i = int (length (chl i))"
  shows "binv (b\<lparr>ups := (ups b)(i := True),
    msgs := (case par i of None \<Rightarrow> msgs b | Some q \<Rightarrow> add_msg i q (msgs b))\<rparr>)" (is "binv ?b")
proof -
  have rep: "reported ?b c \<longleftrightarrow> c = i \<or> reported b c" for c by (auto simp: reported_def)
  have new: "\<not> reported b i" using st by (simp add: reported_def)
  have down: "msgs ?b q r = msgs b q r" if "par r = Some q" "0 \<le> r" "r < n" for q r
    using that par_range [OF that(2,3,1)] par_range [OF i] by (auto simp: add_msg_def split: option.split)
  show ?thesis
  proof (rule bar_invI, goal_cases)
    case (2 r)
    show ?case
    proof (cases "i \<in> set (chl r)")
      case True
      then have p: "par i = Some r" using child_bounds [OF 2(1,2)] by blast
      have "(\<Sum>c\<in>set (chl r). int (msgs ?b c r)) = (\<Sum>c\<in>set (chl r). int (msgs b c r)) + 1"
        using True p by (simp add: sum.remove [of _ i] add_msg_def)
      moreover have "{c \<in> set (chl r). reported ?b c} = insert i {c \<in> set (chl r). reported b c}"
        using True by (auto simp: rep)
      ultimately show ?thesis using bar_invD(2) [OF inv 2(1,2)] 2(3) new by simp
    next
      case False
      then have "par i \<noteq> Some r" using par_range [OF i] by blast
      then have "msgs ?b c r = msgs b c r" for c by (simp add: add_msg_def split: option.split)
      moreover have "{c \<in> set (chl r). reported ?b c} = {c \<in> set (chl r). reported b c}"
        using False by (auto simp: rep)
      ultimately show ?thesis using bar_invD(2) [OF inv 2(1,2)] 2(3) by simp
    qed
  next
    case (3 r)
    with bar_invD(3) [OF inv 3(1,2)] st(4) show ?case by (cases "r = i") auto
  next
    case (8 a c)
    then have "0 < msgs b a c \<or> a = i \<and> par i = Some c"
      by (simp add: add_msg_def split: option.splits if_splits)
    then show ?case using bar_invD(8) [OF inv] par_range [OF i] i by force
  qed (use bar_invD [OF inv] rep down st in \<open>auto simp del: fun_upd_apply\<close>)
qed

lemma release_inv:
  assumes inv: "binv b" and i: "0 \<le> i" "i < n"
    and st: "gone b i" "\<not> released b i" "ups b i" "\<forall>q. par i = Some q \<longrightarrow> 0 < msgs b q i"
  shows "binv (b\<lparr>replies := (replies b)(i := 0), ups := (ups b)(i := False), released := (released b)(i := True),
    msgs := add_msgs i (set (chl i)) (case par i of None \<Rightarrow> msgs b | Some q \<Rightarrow> take_msg q i (msgs b))\<rparr>)"
    (is "binv ?b")
proof -
  have rep: "reported ?b = reported b" using st by (auto simp: fun_eq_iff reported_def)
  have rel: "released ?b r \<longleftrightarrow> r = i \<or> released b r" for r by simp
  have up: "reported b i" using st by (simp add: reported_def)
  have child: "i < c" "c < n" "par c = Some i" if "c \<in> set (chl i)" for c using child_bounds [OF i that] by auto
  have m: "msgs ?b a c = (if a = i \<and> c \<in> set (chl i) then msgs b i c + 1
      else if par i = Some a \<and> c = i then msgs b a i - 1 else msgs b a c)" for a c
    using child par_range [OF i] by (auto simp: add_msgs_def take_msg_def split: option.split)
  have quiet: "msgs b i c = 0" if "c \<in> set (chl i)" for c
    using bar_invD(6) [OF inv _ child(2,3) [OF that]] child(1) [OF that] st(2) i by fastforce
  show ?thesis
  proof (rule bar_invI, goal_cases)
    case (1 r)
    then show ?case using bar_invD(1) [OF inv] unfolding rep by simp
  next
    case (2 r)
    have "msgs ?b c r = msgs b c r" if "c \<in> set (chl r)" for c
      unfolding m using 2 child_bounds [OF 2(1,2) that] child(1) [of r] by auto
    with bar_invD(2) [OF inv 2(1,2)] 2(3) show ?case unfolding rep rel by simp
  next
    case (3 r)
    then show ?case using bar_invD(3) [OF inv 3(1,2)] by (auto split: if_splits)
  next
    case (4 r c)
    then show ?case using bar_invD(4) [OF inv 4(1,2)] all_reported [OF inv i up] unfolding rep rel by blast
  next
    case (5 r q)
    then show ?case unfolding m using bar_invD(5) [OF inv 5] quiet by auto
  next
    case (6 r q)
    show ?case
    proof (cases "q = i")
      case True
      then have r: "r \<in> set (chl i)" using par_range [OF 6(1-3)] by blast
      then have "\<not> released b r" using bar_invD(7) [OF inv 6(1-3)] st(2) True by blast
      with child(1) [OF r] True show ?thesis unfolding rel by simp
    next
      case False
      show ?thesis
      proof (cases "r = i")
        case True
        then show ?thesis using 6 False bar_invD(5) [OF inv 6(1-3)] unfolding m by auto
      next
        case other: False
        then show ?thesis using 6(4) False bar_invD(6) [OF inv 6(1-3)] unfolding m rel by (simp split: if_splits)
      qed
    qed
  next
    case (7 r q)
    then show ?case using bar_invD(7) [OF inv 7(1-3)] bar_invD(6) [OF inv 7(1-3)] st(4) unfolding rel by auto
  next
    case (8 a c)
    have "0 < msgs b a c \<or> a = i \<and> c \<in> set (chl i)"
      using 8 unfolding m by (auto split: if_splits)
    then show ?case
    proof
      assume "0 < msgs b a c"
      then show ?thesis by (rule bar_invD(8) [OF inv])
    next
      assume "a = i \<and> c \<in> set (chl i)"
      then show ?thesis using child [of c] i by simp
    qed
  qed
qed

lemma bar_step_inv:
  assumes "binv b" "bar_step n par chl b b'"
  shows "binv b'"
  using assms(2)
proof cases
  case (leave i)
  then show ?thesis using leave_inv [OF assms(1)] by simp
next
  case (collect i j)
  then show ?thesis using collect_inv [OF assms(1)] by simp
next
  case (report i)
  then show ?thesis using report_inv [OF assms(1)] by simp
next
  case (release i)
  then show ?thesis using release_inv [OF assms(1)] by simp
qed

lemma bar_steps_inv: "(bar_step n par chl)\<^sup>*\<^sup>* b b' \<Longrightarrow> binv b \<Longrightarrow> binv b'"
  by (induction rule: rtranclp_induct) (auto intro: bar_step_inv)

text \<open>The property of a barrier: nobody is released before everybody has come.\<close>

lemma root_released:
  assumes inv: "binv b"
  shows "0 \<le> i \<Longrightarrow> i < n \<Longrightarrow> released b i \<Longrightarrow> released b 0"
proof (induction "nat i" arbitrary: i rule: less_induct)
  case less
  show ?case
  proof (cases "i = 0")
    case True
    with less.prems show ?thesis by simp
  next
    case False
    then obtain q where q: "par i = Some q" "0 \<le> q" "q < i" using par_less less.prems by force
    then have "released b q" using bar_invD(7) [OF inv less.prems(1,2)] less.prems(3) by blast
    with less.hyps q less.prems show ?thesis by simp
  qed
qed

lemma barrier:
  assumes inv: "binv b" and i: "0 \<le> i" "i < n" "released b i" and j: "0 \<le> j" "j < n"
  shows "gone b j"
proof -
  have "reported b 0" using root_released [OF inv i] by (simp add: reported_def)
  then have "reported b j"
    by (rule down_induct [where P = "reported b", OF _ _ j]) (rule all_reported [OF inv])
  then show ?thesis by (rule bar_invD(1) [OF inv j])
qed

end

section \<open>The program implements it\<close>

definition bar_of :: "(int \<Rightarrow> phase) \<Rightarrow> (int \<Rightarrow> 'u state) \<Rightarrow> (channel \<Rightarrow> payload list) \<Rightarrow> bar" where
  "bar_of ph \<sigma> p = \<lparr>gone = (\<lambda>i. ph i \<noteq> Working), replies = (\<lambda>i. barrier_replies (\<sigma> i)), ups = (\<lambda>i. barrier_up (\<sigma> i)),
     released = (\<lambda>i. ph i = Finished), msgs = (\<lambda>i j. length (p (i, j, TAG_BARRIER)))\<rparr>"

text \<open>The processes are arranged in the tree that \<open>par\<close> and \<open>chl\<close> describe.\<close>

definition spans :: "int \<Rightarrow> (int \<Rightarrow> int option) \<Rightarrow> (int \<Rightarrow> int list) \<Rightarrow> (int \<Rightarrow> 'u state) \<Rightarrow> bool" where
  "spans n par chl \<sigma> \<longleftrightarrow> (\<forall>i. 0 \<le> i \<longrightarrow> i < n \<longrightarrow> rank (\<sigma> i) = i \<and> getParentRank (tree (\<sigma> i)) = par i
     \<and> child_list (tree (\<sigma> i)) = chl i \<and> getChildrenCount (tree (\<sigma> i)) = int (length (chl i)))"

lemma sidelines_bar: "sidelines \<sigma> p \<sigma>' p' \<Longrightarrow> bar_of ph \<sigma>' p' = bar_of ph \<sigma> p"
  by (simp add: sidelines_def bar_of_def)

lemma sidelines_spans: "sidelines \<sigma> p \<sigma>' p' \<Longrightarrow> spans n par chl \<sigma>' = spans n par chl \<sigma>"
  by (simp add: sidelines_def spans_def)

text \<open>What \<open>barrierTest\<close> keeps of a process, and how its parts act on the abstract barrier.\<close>

definition barrier_frame :: "'u state \<Rightarrow> 'u state \<Rightarrow> bool" where
  "barrier_frame s s' \<longleftrightarrow> rank s' = rank s \<and> tree s' = tree s"

definition in_tree :: "(int \<Rightarrow> int option) \<Rightarrow> (int \<Rightarrow> int list) \<Rightarrow> int \<Rightarrow> 'u state \<Rightarrow> bool" where
  "in_tree par chl i s \<longleftrightarrow> rank s = i \<and> getParentRank (tree s) = par i \<and> child_list (tree s) = chl i
     \<and> getChildrenCount (tree s) = int (length (chl i))"

definition released_by :: "(int \<Rightarrow> int option) \<Rightarrow> int \<Rightarrow> (channel \<Rightarrow> payload list) \<Rightarrow> (channel \<Rightarrow> payload list) \<Rightarrow> bool" where
  "released_by par i p p' \<longleftrightarrow> (case par i of None \<Rightarrow> p' = p
     | Some q \<Rightarrow> \<exists>x xs. p (q, i, TAG_BARRIER) = x # xs \<and> p' = p((q, i, TAG_BARRIER) := xs))"

lemma in_tree_frame: "in_tree par chl i s \<Longrightarrow> rank s' = rank s \<Longrightarrow> tree s' = tree s \<Longrightarrow> in_tree par chl i s'"
  by (simp add: in_tree_def)

context mpi_laws
begin

abbreviation sim where
  "sim n par chl ph \<sigma> i s w ph' s' w' \<equiv> in_tree par chl i s'
     \<and> (bar_step n par chl)\<^sup>*\<^sup>* (bar_of ph (\<sigma>(i := s)) (pend w)) (bar_of ph' (\<sigma>(i := s')) (pend w'))"

lemma collect_sim:
  assumes i: "0 \<le> i" "i < n" and ph: "ph i = Cleaning" and tr: "in_tree par chl i s"
  shows "results (barrier_collect M s w) (\<lambda>(s', w'). sim n par chl ph \<sigma> i s w ph s' w')"
proof (cases "barrier_replies s < getChildrenCount (tree s)")
  case True
  have "results (case MPI_Iprobe M (rank s) None TAG_BARRIER w of (None, w) \<Rightarrow> Inr (s, w)
      | (Some st, w) \<Rightarrow> bind_res (recv M (rank s) (MPI_SOURCE st) TAG_BARRIER w) (\<lambda>(_, w).
          Inr (s\<lparr>barrier_replies := barrier_replies s + 1\<rparr>, w))) (\<lambda>(s', w'). sim n par chl ph \<sigma> i s w ph s' w')"
  proof (cases "MPI_Iprobe M (rank s) None TAG_BARRIER w")
    case (Pair r w1)
    show ?thesis
    proof (cases r)
      case None
      with Pair iprobe_pend [OF Pair] tr show ?thesis by simp
    next
      case (Some st)
      from probe_recv [OF Pair [unfolded Some]] obtain x xs w2 where
        rc: "recv M (rank s) (MPI_SOURCE st) TAG_BARRIER w1 = Inr (x, w2)"
        and pw: "pend w (MPI_SOURCE st, rank s, TAG_BARRIER) = x # xs"
          "pend w2 = (pend w)((MPI_SOURCE st, rank s, TAG_BARRIER) := xs)" by metis
      have rk: "rank s = i" and count: "getChildrenCount (tree s) = int (length (chl i))" using tr by (simp_all add: in_tree_def)
      let ?b = "bar_of ph (\<sigma>(i := s)) (pend w)" and ?s = "s\<lparr>barrier_replies := barrier_replies s + 1\<rparr>"
      have step: "bar_step n par chl ?b (?b\<lparr>replies := (replies ?b)(i := replies ?b i + 1), msgs := take_msg (MPI_SOURCE st) i (msgs ?b)\<rparr>)"
        by (rule bar_step.collect [OF i]) (use ph True count pw(1) rk in \<open>simp_all add: bar_of_def\<close>)
      have eq: "?b\<lparr>replies := (replies ?b)(i := replies ?b i + 1), msgs := take_msg (MPI_SOURCE st) i (msgs ?b)\<rparr>
          = bar_of ph (\<sigma>(i := ?s)) (pend w2)"
        using pw rk by (auto simp: bar_of_def take_msg_def fun_eq_iff)
      have "in_tree par chl i ?s" by (rule in_tree_frame [OF tr]) simp_all
      then have "sim n par chl ph \<sigma> i s w ph ?s w2" using r_into_rtranclp [where r = "bar_step n par chl", OF step [unfolded eq]] by (rule conjI)
      with Pair Some rc show ?thesis by simp
    qed
  qed
  with True show ?thesis by (simp add: barrier_collect_def)
next
  case False
  with tr show ?thesis by (simp add: barrier_collect_def)
qed

lemma send_up_sim:
  assumes i: "0 \<le> i" "i < n" and ph: "ph i = Cleaning" and tr: "in_tree par chl i s"
  shows "results (barrier_send_up M s w) (\<lambda>(s', w'). sim n par chl ph \<sigma> i s w ph s' w')"
proof (cases "\<not> barrier_up s \<and> barrier_replies s = getChildrenCount (tree s)")
  case True
  have rk: "rank s = i" and count: "getChildrenCount (tree s) = int (length (chl i))" and par: "getParentRank (tree s) = par i"
    using tr by (simp_all add: in_tree_def)
  let ?b = "bar_of ph (\<sigma>(i := s)) (pend w)" and ?s = "s\<lparr>barrier_up := True\<rparr>"
  let ?b' = "?b\<lparr>ups := (ups ?b)(i := True), msgs := (case par i of None \<Rightarrow> msgs ?b | Some q \<Rightarrow> add_msg i q (msgs ?b))\<rparr>"
  have step: "bar_step n par chl ?b ?b'"
    by (rule bar_step.report [OF i]) (use ph True count in \<open>simp_all add: bar_of_def\<close>)
  have tr': "in_tree par chl i ?s" by (rule in_tree_frame [OF tr]) simp_all
  have root: "sim n par chl ph \<sigma> i s w ph ?s w" if "par i = None"
  proof -
    have eq: "?b' = bar_of ph (\<sigma>(i := ?s)) (pend w)" using that by (auto simp: bar_of_def fun_eq_iff)
    from tr' r_into_rtranclp [where r = "bar_step n par chl", OF step [unfolded eq]] show ?thesis by (rule conjI)
  qed
  have sent: "sim n par chl ph \<sigma> i s w ph ?s w1" if "par i = Some q" "send M i q TAG_BARRIER Empty w = Inr w1" for q w1
  proof -
    have eq: "?b' = bar_of ph (\<sigma>(i := ?s)) (pend w1)"
      using that(1) send_Inr [OF that(2)] by (auto simp: bar_of_def add_msg_def fun_eq_iff)
    from tr' r_into_rtranclp [where r = "bar_step n par chl", OF step [unfolded eq]] show ?thesis by (rule conjI)
  qed
  show ?thesis
  proof (cases "par i")
    case None
    with True root [OF None] par show ?thesis by (simp add: barrier_send_up_def)
  next
    case (Some q)
    with True sent [OF Some] par rk show ?thesis
      by (auto simp: barrier_send_up_def results_def elim!: bind_res_InrE)
  qed
next
  case False
  with tr show ?thesis by (auto simp: barrier_send_up_def)
qed

lemma from_parent_sim:
  assumes tr: "in_tree par chl i s"
  shows "results (barrier_from_parent M s w) (\<lambda>(c, w').
    if c then barrier_up s \<and> released_by par i (pend w) (pend w') else pend w' = pend w)"
proof (cases "par i")
  case None
  with tr show ?thesis by (simp add: barrier_from_parent_def in_tree_def released_by_def)
next
  case (Some q)
  have par: "getParentRank (tree s) = Some q" and rk: "rank s = i" using tr Some by (simp_all add: in_tree_def)
  obtain r w1 where probe: "MPI_Iprobe M i (Some q) TAG_BARRIER w = (r, w1)" by fastforce
  show ?thesis
  proof (cases r)
    case None
    with probe iprobe_pend [OF probe] par rk show ?thesis by (simp add: barrier_from_parent_def)
  next
    case (Some st)
    from probe_recv [OF probe [unfolded Some]] obtain x xs w2 where
      "recv M i (MPI_SOURCE st) TAG_BARRIER w1 = Inr (x, w2)"
      "pend w (MPI_SOURCE st, i, TAG_BARRIER) = x # xs"
      "pend w2 = (pend w)((MPI_SOURCE st, i, TAG_BARRIER) := xs)" "Some q = None \<or> Some q = Some (MPI_SOURCE st)" by metis
    with probe Some par rk \<open>par i = Some q\<close> show ?thesis
      by (simp add: barrier_from_parent_def released_by_def)
  qed
qed

lemma release_sim:
  assumes i: "0 \<le> i" "i < n" and ph: "ph i = Cleaning" and tr: "in_tree par chl i s" and d: "distinct (chl i)"
  shows "results (bind_res (barrier_from_parent M s w) (\<lambda>(complete, w).
      if complete then
        bind_res (send_each M (rank s) TAG_BARRIER Empty (child_list (tree s)) w) (\<lambda>w.
          Inr (True, s\<lparr>barrier_started := False, barrier_up := False, barrier_replies := 0\<rparr>, w))
      else Inr (False, s, w)))
    (\<lambda>(b, s', w'). sim n par chl ph \<sigma> i s w (if b then ph(i := Finished) else ph) s' w')"
proof (rule results_seq [OF from_parent_sim [OF tr]], clarify)
  fix c w1
  assume fp: "if c then barrier_up s \<and> released_by par i (pend w) (pend w1) else pend w1 = pend w"
  let ?b = "bar_of ph (\<sigma>(i := s)) (pend w)"
    and ?s = "s\<lparr>barrier_started := False, barrier_up := False, barrier_replies := 0\<rparr>" and ?ph = "ph(i := Finished)"
  have down: "sim n par chl ph \<sigma> i s w ?ph ?s w2"
    if c and sent: "send_each M i TAG_BARRIER Empty (chl i) w1 = Inr w2" for w2
  proof -
    let ?m = "case par i of None \<Rightarrow> msgs ?b | Some q \<Rightarrow> take_msg q i (msgs ?b)"
    have up: "barrier_up s" and rel: "released_by par i (pend w) (pend w1)" using fp \<open>c\<close> by simp_all
    have m: "?m = (\<lambda>a b. length (pend w1 (a, b, TAG_BARRIER)))"
      using rel by (auto simp: released_by_def bar_of_def take_msg_def fun_eq_iff split: option.splits)
    have m2: "add_msgs i (set (chl i)) ?m = (\<lambda>a b. length (pend w2 (a, b, TAG_BARRIER)))"
      unfolding m using send_each_pend [OF sent d] by (auto simp: add_msgs_def fun_eq_iff)
    have step: "bar_step n par chl ?b (?b\<lparr>replies := (replies ?b)(i := 0), ups := (ups ?b)(i := False),
        released := (released ?b)(i := True), msgs := add_msgs i (set (chl i)) ?m\<rparr>)"
      by (rule bar_step.release [OF i])
        (use ph up rel in \<open>auto simp: bar_of_def released_by_def\<close>)
    have eq: "?b\<lparr>replies := (replies ?b)(i := 0), ups := (ups ?b)(i := False),
        released := (released ?b)(i := True), msgs := add_msgs i (set (chl i)) ?m\<rparr> = bar_of ?ph (\<sigma>(i := ?s)) (pend w2)"
      unfolding m2 using ph by (auto simp: bar_of_def fun_eq_iff)
    have "in_tree par chl i ?s" by (rule in_tree_frame [OF tr]) simp_all
    then show ?thesis using r_into_rtranclp [where r = "bar_step n par chl", OF step [unfolded eq]] by (rule conjI)
  qed
  have "rank s = i" "child_list (tree s) = chl i" using tr by (simp_all add: in_tree_def)
  with down fp tr show "results (if c then bind_res (send_each M (rank s) TAG_BARRIER Empty (child_list (tree s)) w1)
          (\<lambda>w. Inr (True, ?s, w)) else Inr (False, s, w1))
    (\<lambda>(b, s', w'). sim n par chl ph \<sigma> i s w (if b then ?ph else ph) s' w')"
    by (cases c) (auto simp: results_def elim!: bind_res_InrE)
qed

lemma barrierTest_sim:
  assumes i: "0 \<le> i" "i < n" and ph: "ph i = Cleaning" and tr: "in_tree par chl i s" and d: "distinct (chl i)"
  shows "results (barrierTest M s w) (\<lambda>(b, s', w'). sim n par chl ph \<sigma> i s w (if b then ph(i := Finished) else ph) s' w')"
proof (cases "barrier_started s")
  case False
  with tr show ?thesis by (simp add: barrierTest_def)
next
  case True
  have "results (bind_res (barrier_collect M s w) (\<lambda>(s, w).
        bind_res (barrier_send_up M s w) (\<lambda>(s, w).
        bind_res (barrier_from_parent M s w) (\<lambda>(complete, w).
          if complete then
            bind_res (send_each M (rank s) TAG_BARRIER Empty (child_list (tree s)) w) (\<lambda>w.
              Inr (True, s\<lparr>barrier_started := False, barrier_up := False, barrier_replies := 0\<rparr>, w))
          else Inr (False, s, w)))))
      (\<lambda>(b, s', w'). sim n par chl ph \<sigma> i s w (if b then ph(i := Finished) else ph) s' w')"
  proof (rule results_seq [OF collect_sim [where ph = ph and i = i and w = w and \<sigma> = \<sigma>, OF i ph tr]], clarify)
    fix s1 w1
    assume one: "in_tree par chl i s1"
      "(bar_step n par chl)\<^sup>*\<^sup>* (bar_of ph (\<sigma>(i := s)) (pend w)) (bar_of ph (\<sigma>(i := s1)) (pend w1))"
    show "results (bind_res (barrier_send_up M s1 w1) (\<lambda>(s, w).
        bind_res (barrier_from_parent M s w) (\<lambda>(complete, w).
          if complete then
            bind_res (send_each M (rank s) TAG_BARRIER Empty (child_list (tree s)) w) (\<lambda>w.
              Inr (True, s\<lparr>barrier_started := False, barrier_up := False, barrier_replies := 0\<rparr>, w))
          else Inr (False, s, w))))
      (\<lambda>(b, s', w'). sim n par chl ph \<sigma> i s w (if b then ph(i := Finished) else ph) s' w')"
    proof (rule results_seq [OF send_up_sim [where ph = ph and i = i and w = w1 and \<sigma> = \<sigma>, OF i ph one(1)]], clarify)
      fix s2 w2
      assume two: "in_tree par chl i s2"
        "(bar_step n par chl)\<^sup>*\<^sup>* (bar_of ph (\<sigma>(i := s1)) (pend w1)) (bar_of ph (\<sigma>(i := s2)) (pend w2))"
      from release_sim [where ph = ph and i = i and w = w2 and \<sigma> = \<sigma>, OF i ph two(1) d] one(2) two(2)
      show "results (bind_res (barrier_from_parent M s2 w2) (\<lambda>(complete, w).
          if complete then
            bind_res (send_each M (rank s2) TAG_BARRIER Empty (child_list (tree s2)) w) (\<lambda>w.
              Inr (True, s2\<lparr>barrier_started := False, barrier_up := False, barrier_replies := 0\<rparr>, w))
          else Inr (False, s2, w)))
        (\<lambda>(b, s', w'). sim n par chl ph \<sigma> i s w (if b then ph(i := Finished) else ph) s' w')"
        unfolding results_def by (auto intro: rtranclp_trans)
    qed
  qed
  with True show ?thesis by (simp add: barrierTest_def)
qed

lemma entering_sel [simp]:
  "rank (entering s) = rank s" "tree (entering s) = tree s" "barrier_up (entering s) = barrier_up s"
  "barrier_replies (entering s) = barrier_replies s"
  by (simp_all add: entering_def barrierStart_def)

lemma program_sim:
  assumes E: "env_ok E n" and cb: "callbacks_keep g cb" and inv: "base_program n ph \<sigma> (pend w)"
    and tr: "spans n par chl \<sigma>" and d: "\<And>i. distinct (chl i)"
    and st: "program_step E M cb n (ph, \<sigma>, w) (ph', \<sigma>', w')"
  shows "(bar_step n par chl)\<^sup>*\<^sup>* (bar_of ph \<sigma> (pend w)) (bar_of ph' \<sigma>' (pend w')) \<and> spans n par chl \<sigma>'"
  using E cb inv st
proof (cases rule: program_parts)
  case (iterate i leave s')
  have base: "base_inv n \<sigma> (pend w)" using inv by (simp add: base_program_def)
  note sl = fines_base [OF iterate(6) E base, THEN conjunct2]
  let ?b = "bar_of ph \<sigma> (pend w)"
  have "(bar_step n par chl)\<^sup>*\<^sup>* ?b (bar_of ph' \<sigma> (pend w))"
  proof (cases leave)
    case True
    have eq: "?b\<lparr>gone := (gone ?b)(i := True)\<rparr> = bar_of ph' \<sigma> (pend w)"
      using True iterate(3,5) by (auto simp: bar_of_def fun_eq_iff)
    show ?thesis
      using r_into_rtranclp [where r = "bar_step n par chl", OF bar_step.leave [where b = ?b and i = i and par = par and chl = chl, OF iterate(1,2)]]
      unfolding eq .
  next
    case False
    then have "ph' = ph" using iterate(3,5) by auto
    then show ?thesis by simp
  qed
  with tr show ?thesis by (simp only: sidelines_bar [OF sl] sidelines_spans [OF sl])
next
  case (cleanup i b s1 w1 s')
  let ?s = "entering (\<sigma> i)"
  have "in_tree par chl i ?s" using tr cleanup(1,2) by (simp add: spans_def in_tree_def)
  from barrierTest_sim [where ph = ph and i = i and \<sigma> = \<sigma> and w = w, OF cleanup(1-3) this d] cleanup(5,6)
  have one: "in_tree par chl i s1"
    "(bar_step n par chl)\<^sup>*\<^sup>* (bar_of ph (\<sigma>(i := ?s)) (pend w)) (bar_of (if b then ph(i := Finished) else ph) (\<sigma>(i := s1)) (pend w1))"
    unfolding results_def by blast+
  have start: "bar_of ph (\<sigma>(i := ?s)) (pend w) = bar_of ph \<sigma> (pend w)"
    by (auto simp: bar_of_def fun_eq_iff)
  have ph': "(if b then ph(i := Finished) else ph) = ph'" using cleanup(3,5) by auto
  have sp: "spans n par chl (\<sigma>(i := s1))" using tr one(1) by (auto simp: spans_def in_tree_def)
  note sl = fines_base [OF cleanup(7) E cleanup(9), THEN conjunct2]
  from one(2) sp show ?thesis
    unfolding start ph' by (simp only: sidelines_bar [OF sl] sidelines_spans [OF sl])
qed

lemma barrier_reachable:
  assumes T: "rank_tree n par chl" and E: "env_ok E n" and cb: "callbacks_keep g cb"
    and run: "(program_step E M cb n)\<^sup>*\<^sup>* (ph, \<sigma>, w) (ph', \<sigma>', w')"
    and base: "base_program n ph \<sigma> (pend w)" and tr: "spans n par chl \<sigma>"
  shows "(bar_step n par chl)\<^sup>*\<^sup>* (bar_of ph \<sigma> (pend w)) (bar_of ph' \<sigma>' (pend w'))"
proof -
  let ?P = "\<lambda>ph1 \<sigma>1 w1. (bar_step n par chl)\<^sup>*\<^sup>* (bar_of ph \<sigma> (pend w)) (bar_of ph1 \<sigma>1 (pend w1)) \<and> spans n par chl \<sigma>1"
  have "base_program n ph' \<sigma>' (pend w') \<and> ?P ph' \<sigma>' w'"
  proof (rule program_induct [where P = ?P, OF run E cb base])
    show "?P ph \<sigma> w" using tr by simp
  next
    fix ph1 \<sigma>1 w1 ph2 \<sigma>2 w2
    assume "base_program n ph1 \<sigma>1 (pend w1)" "?P ph1 \<sigma>1 w1" "program_step E M cb n (ph1, \<sigma>1, w1) (ph2, \<sigma>2, w2)"
    with program_sim [where ph = ph1 and \<sigma> = \<sigma>1 and w = w1 and par = par and chl = chl, OF E cb] rank_tree.child_distinct [OF T]
    show "?P ph2 \<sigma>2 w2" by (meson rtranclp_trans)
  qed
  then show ?thesis by blast
qed

end

section \<open>The start\<close>

lemma TreeState_new_kary:
  assumes "TreeState_new ok r n width = Inr t" "0 \<le> r" "r < n" "1 \<le> width"
  shows "getParentRank t = kary_parent width r" "child_list t = kary_children width n r"
    "getChildrenCount t = int (length (kary_children width n r))"
proof -
  have "r * width + width \<le> INT_MAX" "ok (nat width * 4)"
    using assms(1,4) unfolding TreeState_new_def alloc_children_def
    by (auto simp: ck_int_def guard_res_def in_int_def elim!: bind_res_InrE split: if_splits)
  from TreeState_new_ok [where malloc_ok = ok, OF assms(2-4) this] assms(1) show "getParentRank t = kary_parent width r"
    "child_list t = kary_children width n r" "getChildrenCount t = int (length (kary_children width n r))"
    unfolding getParentRank_def getChildrenCount_def by (metis sum.inject(2))+
qed

definition kary_tree :: "env \<Rightarrow> int \<Rightarrow> int \<Rightarrow> (int \<Rightarrow> 'u state) \<Rightarrow> bool" where
  "kary_tree E n k \<sigma> \<longleftrightarrow> (\<forall>i. 0 \<le> i \<longrightarrow> i < n \<longrightarrow> TreeState_new (malloc_ok E) i n k = Inr (tree (\<sigma> i)))"

lemma start_spans:
  assumes "starts_work E n \<sigma>" "env_ok E n" "kary_tree E n k \<sigma>" "1 \<le> k"
  shows "spans n (kary_parent k) (kary_children k n) \<sigma>"
proof -
  have "rank (\<sigma> i) = i" if "0 \<le> i" "i < n" for i
    using starts_workD(1) [OF assms(1,2) that] by (simp add: proc_ok_def)
  moreover note TreeState_new_kary [OF _ _ _ assms(4)]
  ultimately show ?thesis using assms(3) by (auto simp: spans_def kary_tree_def)
qed

lemma kary_rank_tree: "1 \<le> k \<Longrightarrow> rank_tree n (kary_parent k) (kary_children k n)"
  using kary.rank_tree_axioms [of n "nat (k - 1)"] by simp

lemma start_bar:
  assumes "starts_work E n \<sigma>" "\<forall>k. p k = []"
  shows "bar_start n (bar_of (\<lambda>_. Working) \<sigma> p)"
proof -
  have "\<not> barrier_up (\<sigma> i) \<and> barrier_replies (\<sigma> i) = 0" if i: "0 \<le> i" "i < n" for i
  proof -
    obtain now junk c s c' where s: "State_new E i n now junk c = Inr s" "\<sigma> i = s\<lparr>circ := c'\<rparr>"
      using assms(1) i unfolding starts_work_def by blast
    show ?thesis using s(2) State_new_sel(18,19) [OF s(1)] by simp
  qed
  with assms(2) show ?thesis by (simp add: bar_start_def bar_of_def)
qed

text \<open>Nobody is past the barrier before everybody has left the work loop.\<close>

lemma finished_together:
  assumes laws: "mpi_laws M pend" and E: "env_ok E n" and cb: "callbacks_ok cb" and st: "starts_work E n \<sigma>0"
    and net: "\<forall>k. pend w0 k = []" and tr: "kary_tree E n k \<sigma>0" "1 \<le> k"
    and run: "(program_step E M cb n)\<^sup>*\<^sup>* (\<lambda>_. Working, \<sigma>0, w0) (ph, \<sigma>, w)"
    and i: "0 \<le> i" "i < n" "ph i = Finished" and j: "0 \<le> j" "j < n"
  shows "ph j \<noteq> Working"
proof -
  let ?b = "bar_of ph \<sigma> (pend w)"
  note T = kary_rank_tree [OF tr(2)]
  have "bar_inv n (kary_parent k) (kary_children k n) ?b"
    by (rule rank_tree.bar_steps_inv [OF T mpi_laws.barrier_reachable [OF laws T E callbacks_keep_nothing [OF cb] run start_base [OF st E net] start_spans [OF st E tr]]])
      (rule rank_tree.bar_start_inv [OF T start_bar [OF st net]])
  from rank_tree.barrier [OF T this i(1,2) _ j] i(3) show ?thesis by (simp add: bar_of_def)
qed

text \<open>The two processes of the example.\<close>

lemma demo_tree: "kary_tree demo_env 2 64 demo_state"
proof -
  have w: "getTreeWidth (demo_circle 0) = 64" "getTreeWidth (demo_circle 1) = 64" by code_simp+
  have "TreeState_new (malloc_ok demo_env) 0 2 64 = Inr (tree (demo_state 0))"
    "TreeState_new (malloc_ok demo_env) 1 2 64 = Inr (tree (demo_state 1))"
    using State_new_sel(22) [OF demo_state_new [of 0]] State_new_sel(22) [OF demo_state_new [of 1]] w by simp_all
  moreover have "i = 0 \<or> i = 1" if "0 \<le> i" "i < 2" for i :: int using that by auto
  ultimately show ?thesis unfolding kary_tree_def by blast
qed

end
