(* ===== verification/Circle_TermTree.thy ===== *)
theory Circle_TermTree
  imports Circle_Barrier
begin

text \<open>
  Termination detection over the spawn tree, as it is written: the flags of the children have
  no influence on its outcome, the root declares termination as soon as all children have
  sent theirs, and there is a run in which an item of work is lost.
\<close>

section \<open>The flags of the children\<close>

lemma collect_flag:
  "\<exists>f. term_collect M (s\<lparr>term_flag := x\<rparr>) w
    = bind_res (term_collect M s w) (\<lambda>(s', w'). Inr (s'\<lparr>term_flag := f\<rparr>, w'))"
proof (induction "nat (getChildrenCount (tree s) - term_replies s)" arbitrary: s w x rule: less_induct)
  case less
  show ?case
  proof (cases "term_replies s < getChildrenCount (tree s)")
    case True
    obtain r w1 where probe: "MPI_Iprobe M (rank s) None TAG_TERM w = (r, w1)" by fastforce
    show ?thesis
    proof (cases r)
      case None
      with True probe show ?thesis
        by (intro exI [of _ x]) (simp add: term_collect.simps [of M s] term_collect.simps [of M "s\<lparr>term_flag := x\<rparr>"])
    next
      case (Some st)
      show ?thesis
      proof (cases "bind_res (recv M (rank s) (MPI_SOURCE st) TAG_TERM w1) (\<lambda>(p, w). bind_res (as_int p) (\<lambda>c. Inr (c, w)))")
        case (Inl e)
        with True probe Some show ?thesis
          by (cases "recv M (rank s) (MPI_SOURCE st) TAG_TERM w1")
            (auto simp: term_collect.simps [of M s] term_collect.simps [of M "s\<lparr>term_flag := x\<rparr>"] bind_res_def split: sum.splits)
      next
        case (Inr cw)
        then obtain p c w2 where rc: "recv M (rank s) (MPI_SOURCE st) TAG_TERM w1 = Inr (p, w2)" "as_int p = Inr c"
          by (auto elim!: bind_res_InrE)
        let ?s = "\<lambda>y. s\<lparr>term_flag := y, term_replies := term_replies s + 1\<rparr>"
        have go: "term_collect M (s\<lparr>term_flag := y\<rparr>) w = term_collect M (?s (y AND c)) w2" for y
          using True probe Some rc by (simp add: term_collect.simps [of M "s\<lparr>term_flag := y\<rparr>"])
        have "\<exists>f. term_collect M ((?s (term_flag s AND c))\<lparr>term_flag := x AND c\<rparr>) w2
            = bind_res (term_collect M (?s (term_flag s AND c)) w2) (\<lambda>(s', w'). Inr (s'\<lparr>term_flag := f\<rparr>, w'))"
          by (rule less) (use True in simp)
        moreover have "s\<lparr>term_replies := k, term_flag := y\<rparr> = s\<lparr>term_flag := y, term_replies := k\<rparr>" for k y by simp
        ultimately show ?thesis using go [of x] go [of "term_flag s"] by simp
      qed
    qed
  next
    case False
    then show ?thesis
      by (intro exI [of _ x]) (simp add: term_collect.simps [of M s] term_collect.simps [of M "s\<lparr>term_flag := x\<rparr>"])
  qed
qed

lemma tree_flag:
  "\<exists>f. checkForTermAllReduce M (s\<lparr>term_flag := x\<rparr>) w
    = bind_res (checkForTermAllReduce M s w) (\<lambda>(st, s', w'). Inr (st, s'\<lparr>term_flag := f\<rparr>, w'))"
proof -
  obtain f where f: "term_collect M (s\<lparr>term_flag := x\<rparr>) w
      = bind_res (term_collect M s w) (\<lambda>(s', w'). Inr (s'\<lparr>term_flag := f\<rparr>, w'))"
    using collect_flag [where M = M and s = s and x = x and w = w] by (elim exE)
  have up: "term_send_up M flag (s\<lparr>term_flag := y\<rparr>) w
      = bind_res (term_send_up M flag s w) (\<lambda>(c, s', w'). Inr (c, s'\<lparr>term_flag := y\<rparr>, w'))"
    for flag y w and s :: "'a state"
    by (auto simp: term_send_up_def bind_res_def split: option.split sum.split)
  have down: "term_from_parent M flag (s\<lparr>term_flag := y\<rparr>) w = term_from_parent M flag s w" for flag y w and s :: "'a state"
    by (simp add: term_from_parent_def cong: option.case_cong prod.case_cong)
  let ?rest = "\<lambda>s w. if work_outstanding s > 0 then Inr (WHITE, s, w)
       else
         bind_res (term_send_up M 0 s w) (\<lambda>(flag, s, w).
         bind_res (term_from_parent M flag s w) (\<lambda>(complete, flag, w).
         bind_res (if complete then
             bind_res (send_each M (rank s) TAG_TERM (Ints [flag]) (child_list (tree s)) w)
               (\<lambda>w. Inr (s\<lparr>term_up := False, term_replies := 0\<rparr>, w))
           else Inr (s, w)) (\<lambda>(s, w).
           Inr (if complete \<and> flag \<noteq> 0 then TERMINATE else WHITE, s, w))))"
  have rest: "?rest (s1\<lparr>term_flag := f\<rparr>) w1 = bind_res (?rest s1 w1) (\<lambda>(st, s', w'). Inr (st, s'\<lparr>term_flag := f\<rparr>, w'))"
    for s1 :: "'a state" and w1
  proof (cases "work_outstanding s1 > 0")
    case True
    then show ?thesis by simp
  next
    case False
    show ?thesis
    proof (cases "term_send_up M 0 s1 w1")
      case (Inl e)
      with False show ?thesis by (simp add: up)
    next
      case (Inr r)
      obtain c s2 w2 where r: "r = (c, s2, w2)" by (cases r)
      show ?thesis
      proof (cases "term_from_parent M c s2 w2")
        case (Inl e)
        with False Inr r show ?thesis by (simp add: up down)
      next
        case (Inr r2)
        obtain b d w3 where r2: "r2 = (b, d, w3)" by (cases r2)
        with False \<open>term_send_up M 0 s1 w1 = Inr r\<close> Inr r show ?thesis
          by (cases b; cases "send_each M (rank s2) TAG_TERM (Ints [d]) (child_list (tree s2)) w3") (simp_all add: up down)
      qed
    qed
  qed
  have "checkForTermAllReduce M (s\<lparr>term_flag := x\<rparr>) w
      = bind_res (checkForTermAllReduce M s w) (\<lambda>(st, s', w'). Inr (st, s'\<lparr>term_flag := f\<rparr>, w'))"
  proof (cases "term_collect M s w")
    case (Inl e)
    then show ?thesis by (simp add: checkForTermAllReduce_def f)
  next
    case (Inr r)
    obtain s1 w1 where r: "r = (s1, w1)" by (cases r)
    show ?thesis
      unfolding checkForTermAllReduce_def f Inr r bind_res_Inr prod.case by (rule rest)
  qed
  then show ?thesis by (rule exI)
qed

section \<open>The root\<close>

text \<open>The root needs nothing but a message of every child.\<close>

lemma root_terminates:
  assumes "checkForTermAllReduce M s w = Inr (st, s', w')" "getParentRank (tree s) = None" "\<not> term_up s"
    "term_replies s = getChildrenCount (tree s)" "work_outstanding s \<le> 0"
  shows "st = TERMINATE"
  using assms
  by (auto simp: checkForTermAllReduce_def term_collect.simps [of M s w] term_send_up_def term_from_parent_def
      elim!: bind_res_InrE)

section \<open>A run that loses work\<close>

text \<open>Process 0 has eight items of work.  Process 1 sends its flag while it is idle, and then
  gets half of the work.  Process 0 does its own part, asks process 1 for work, and finds the
  flag: it declares termination.  Process 1 serves the request with an item that process 0
  puts into its queue in the cleanup loop, where nothing is processed any more.\<close>

definition tree_queue :: "int \<Rightarrow> queue" where
  "tree_queue i = (if i = 0 then \<lparr>base = [1, 2, 3, 4, 5, 6, 7, 8], head = 8, strings = [0, 1, 2, 3, 4, 5, 6, 7], qcount = 8\<rparr>
     else \<lparr>base = [0, 0, 0, 0], head = 0, strings = [0, 0, 0, 0], qcount = 0\<rparr>)"

definition tree_circle :: "int \<Rightarrow> unit circle" where
  "tree_circle i = (Circle_new i (flags_or SplitEqual TermTree) 0 ())\<lparr>queue := tree_queue i\<rparr>"

definition tree_mode :: "int \<Rightarrow> unit state" where
  "tree_mode i = projr (State_new demo_env i 2 0 0 (tree_circle i))"

definition tree_start :: "(unit, fifo) program" where
  "tree_start = (\<lambda>_. Working, tree_mode, fifo_new 2)"

definition tree_end :: "(unit, fifo) program" where
  "tree_end = the (run_program demo_env fifo_mpi demo_callbacks
     [1, 0, 1, 0, 0, 0, 0, 1, 0, 1, 1, 0, 1, 0, 1, 0, 1] tree_start)"

lemma tree_queue_rep:
  "queue_rep (tree_queue 0) [[1], [2], [3], [4], [5], [6], [7], [8]]" "i \<noteq> 0 \<Longrightarrow> queue_rep (tree_queue i) []"
  by (simp_all add: tree_queue_def queue_rep_def)

lemma tree_mode_new: "i = 0 \<or> i = 1 \<Longrightarrow> State_new demo_env i 2 0 0 (tree_circle i) = Inr (tree_mode i)"
proof -
  have "\<not> isl (State_new demo_env 0 2 0 0 (tree_circle 0))" "\<not> isl (State_new demo_env 1 2 0 0 (tree_circle 1))"
    by code_simp+
  then show "i = 0 \<or> i = 1 \<Longrightarrow> ?thesis" by (auto simp: tree_mode_def)
qed

lemma tree_starts: "starts_work demo_env 2 tree_mode"
  by (rule starts_two [OF tree_mode_new, where xs = "\<lambda>i. if i = 0 then [[1], [2], [3], [4], [5], [6], [7], [8]] else []"])
    (use tree_queue_rep in \<open>auto simp: tree_circle_def tree_queue_def fits_def INT_MAX_def\<close>)

lemma tree_run: "(program_step demo_env fifo_mpi demo_callbacks 2)\<^sup>*\<^sup>* tree_start tree_end"
proof -
  let ?js = "[1, 0, 1, 0, 0, 0, 0, 1, 0, 1, 1, 0, 1, 0, 1, 0, 1] :: int list"
  have "run_program demo_env fifo_mpi demo_callbacks ?js tree_start \<noteq> None" by code_simp
  then show ?thesis by (intro run_program_steps [where js = ?js]) (auto simp: tree_end_def)
qed

lemma tree_end_lost: "case tree_end of (ph, \<sigma>, w) \<Rightarrow> ph 0 = Finished \<and> ph 1 = Finished \<and> qcount (qp (\<sigma> 0)) = 1"
  by code_simp

end
