(* ===== verification/Circle_Alone.thy ===== *)
theory Circle_Alone
  imports Circle_MainLoop Circle_Demo
begin

text \<open>
  A process that is alone in its communicator: the one case in which the program can be
  followed to its end without a scheduler.  The theory shows that \<open>mainLoop\<close> and
  \<open>execute\<close> return on the reference network, with an empty queue, when the process
  callback makes progress, in both modes of termination detection: the work loop ends
  after the last item, the token goes round once, and the barrier completes at once.
\<close>

section \<open>A quiet network\<close>

lemma quiet_probe [simp]: "MPI_Iprobe fifo_mpi me src t (fifo_new n) = (None, fifo_new n)"
  by (auto simp: fifo_mpi_def fifo_probe_def split: option.splits)

lemma quiet_requests [simp]: "collect_requests fifo_mpi me n rs (fifo_new k) = Inr (rs, fifo_new k)"
  by (simp add: collect_requests.simps)

text \<open>The network with the token of the one process on its way to itself, and after it.\<close>

definition token_out_net :: "int \<Rightarrow> fifo" where
  "token_out_net x = (fifo_new 1)\<lparr>net_msgs := [((0, 0, TAG_TOKEN), Ints [x])], net_sent := [(0, 0, TAG_TOKEN)],
     net_sync := [(0, (0, 0, TAG_TOKEN), 1)], net_fresh := 1\<rparr>"

definition token_back_net :: fifo where
  "token_back_net = (token_out_net WHITE)\<lparr>net_msgs := [], net_rcvd := [(0, 0, TAG_TOKEN)]\<rparr>"

lemma chan_token_out: "chan (token_out_net x) k = (if k = (0, 0, TAG_TOKEN) then [Ints [x]] else [])"
  by (simp add: chan_def token_out_net_def)

lemma token_out_probe:
  "t \<noteq> TAG_TOKEN \<Longrightarrow> MPI_Iprobe fifo_mpi me src t (token_out_net x) = (None, token_out_net x)"
  by (auto simp: fifo_mpi_def fifo_probe_def chan_token_out split: option.splits)

lemma token_back_probe: "MPI_Iprobe fifo_mpi me src t token_back_net = (None, token_back_net)"
  by (auto simp: fifo_mpi_def fifo_probe_def token_back_net_def chan_def split: option.splits)

lemma token_sent: "MPI_Issend fifo_mpi 0 0 TAG_TOKEN (Ints [x]) (fifo_new 1) = (0, token_out_net x)"
  by (simp add: fifo_mpi_def fifo_isend_def fifo_put_def fifo_new_def token_out_net_def Let_def)

lemma token_probed:
  "MPI_Iprobe fifo_mpi 0 (Some 0) TAG_TOKEN (token_out_net x)
     = (Some \<lparr>MPI_SOURCE = 0, msg_ints = 1\<rparr>, token_out_net x)"
  by (simp add: fifo_mpi_def fifo_probe_def chan_token_out)

lemma token_received: "recv fifo_mpi 0 0 TAG_TOKEN (token_out_net WHITE) = Inr (Ints [WHITE], token_back_net)"
  by (simp add: recv_def fifo_mpi_def fifo_recv_def chan_token_out fifo_drop_def token_back_net_def token_out_net_def
      fifo_new_def chan_def)

lemma token_waited: "MPI_Wait fifo_mpi 0 0 token_back_net = Some token_back_net"
  by (simp add: fifo_mpi_def fifo_done_def token_back_net_def token_out_net_def)

section \<open>The work loop\<close>

text \<open>What the state of the process looks like in the work loop.\<close>

definition lone :: "'u state \<Rightarrow> bool" where
  "lone s \<longleftrightarrow> rank s = 0 \<and> nprocs s = 1 \<and> ABORT_FLAG s = 0 \<and> \<not> work_requested s \<and> next_processor s = None
     \<and> work_outstanding s = 0 \<and> \<not> reduce_enabled s \<and> \<not> reduce_outstanding s \<and> \<not> abort_outstanding s
     \<and> token_src s = 0 \<and> token_dest s = 0
     \<and> getParentRank (tree s) = None \<and> getChildrenCount (tree s) = 0 \<and> child_list (tree s) = []
     \<and> \<not> term_up s \<and> term_replies s = 0 \<and> \<not> barrier_started s \<and> \<not> barrier_up s \<and> barrier_replies s = 0"

definition fresh_token :: "'u state \<Rightarrow> bool" where
  "fresh_token s \<longleftrightarrow> token_is_local s \<and> token_proc s = WHITE \<and> token_send_req s = None"

lemma lone_busy:
  assumes "lone s" "0 < qcount (qp s)"
  shows "work_step E fifo_mpi cb s (fifo_new 1) = bind_res (process_one cb s) (\<lambda>s. Inr (False, s, fifo_new 1))"
  using assms
  by (simp add: lone_def work_step_def workreqCheck_def workreceiptCheck.simps abortCheck_def abort_request_def)

lemma lone_term_tree:
  assumes "lone s"
  shows "\<exists>s'. checkForTermAllReduce M s w = Inr (TERMINATE, s', w) \<and> lone s' \<and> circ s' = circ s
    \<and> token_send_req s' = token_send_req s"
  using assms
  by (auto simp: checkForTermAllReduce_def lone_def term_collect.simps term_send_up_def term_from_parent_def)

lemma lone_idle:
  assumes "lone s" "qcount (qp s) = 0" "w = fifo_new 1 \<or> w = token_out_net x \<or> w = token_back_net"
  shows "work_step E fifo_mpi cb s w =
    bind_res (if term_tree_enabled s then checkForTermAllReduce fifo_mpi s w else checkForTerm fifo_mpi s w)
      (\<lambda>(st, s, w). Inr (st = TERMINATE, s, w))"
proof -
  have pr: "MPI_Iprobe fifo_mpi me src t w = (None, w)" if "t \<noteq> TAG_TOKEN" for me src t
    using assms(3) token_out_probe [OF that] token_back_probe by auto
  have rq: "collect_requests fifo_mpi me n rs w = Inr (rs, w)" for me n rs
    by (simp add: collect_requests.simps pr)
  show ?thesis
    using assms(1,2)
    by (simp add: lone_def work_step_def workreqCheck_def workreceiptCheck.simps abortCheck_def abort_request_def
        requestWork_def pr rq del: TERMINATE_def cong: if_cong)
qed

definition token_away :: "'u state \<Rightarrow> 'u state" where
  "token_away s = s\<lparr>token_buf := WHITE, token_send_req := Some 0, token_is_local := False, token_proc := WHITE\<rparr>"

lemma lone_ring_sends:
  assumes "lone s" "fresh_token s"
  shows "checkForTerm fifo_mpi s (fifo_new 1) = Inr (WHITE, token_away s, token_out_net WHITE)"
proof -
  have "s\<lparr>token_buf := WHITE, token_send_req := Some 0, token_is_local := False\<rparr> = token_away s"
    using assms by (cases s) (simp add: token_away_def fresh_token_def)
  with assms token_sent [of WHITE] show ?thesis
    by (simp add: checkForTerm_def lone_def fresh_token_def tokenIsSend_def token_away_def)
qed

lemma lone_ring_ends:
  assumes "lone s"
  shows "\<exists>s'. checkForTerm fifo_mpi (token_away s) (token_out_net WHITE) = Inr (TERMINATE, s', token_back_net)
    \<and> lone s' \<and> circ s' = circ s \<and> token_send_req s' = None"
  using assms token_probed [of WHITE] token_received token_waited
  by (simp add: checkForTerm_def token_away_def tokenCheck_def tokenRecv_def wait_token_send_def token_react_def
      lone_def)

lemma token_away_lone: "lone s \<Longrightarrow> lone (token_away s)" "circ (token_away s) = circ s"
    "term_tree_enabled (token_away s) = term_tree_enabled s"
  by (simp_all add: token_away_def lone_def)

text \<open>The queue is empty: the loop ends, after at most two more iterations.\<close>

lemma lone_loop_idle:
  assumes s: "lone s" "fresh_token s" "qcount (qp s) = 0"
  shows "\<exists>s' w'. work_loop E fifo_mpi cb s (fifo_new 1) = Some (Inr (s', w')) \<and> lone s' \<and> circ s' = circ s
    \<and> token_send_req s' = None"
proof (cases "term_tree_enabled s")
  case True
  obtain s' where s': "checkForTermAllReduce fifo_mpi s (fifo_new 1) = Inr (TERMINATE, s', fifo_new 1)"
    "lone s'" "circ s' = circ s" "token_send_req s' = token_send_req s"
    using lone_term_tree [OF s(1), of fifo_mpi "fifo_new 1"] by (elim exE conjE) (rule that)
  have "work_step E fifo_mpi cb s (fifo_new 1) = Inr (True, s', fifo_new 1)"
    unfolding lone_idle [OF s(1,3) disjI1 [OF refl]] by (simp add: True s'(1))
  then have "work_loop E fifo_mpi cb s (fifo_new 1) = Some (Inr (s', fifo_new 1))"
    by (subst work_loop.simps) simp
  with s' s(2) show ?thesis by (simp add: fresh_token_def)
next
  case False
  have one: "work_step E fifo_mpi cb s (fifo_new 1) = Inr (False, token_away s, token_out_net WHITE)"
    unfolding lone_idle [OF s(1,3) disjI1 [OF refl]] by (simp add: False lone_ring_sends [OF s(1,2)])
  obtain s' where s': "checkForTerm fifo_mpi (token_away s) (token_out_net WHITE) = Inr (TERMINATE, s', token_back_net)"
    "lone s'" "circ s' = circ s" "token_send_req s' = None"
    using lone_ring_ends [OF s(1)] by (elim exE conjE) (rule that)
  have "qcount (qp (token_away s)) = 0" using s(3) token_away_lone(2) by metis
  note idle = lone_idle [OF token_away_lone(1) [OF s(1)] this disjI2 [OF disjI1 [OF refl]]]
  have two: "work_step E fifo_mpi cb (token_away s) (token_out_net WHITE) = Inr (True, s', token_back_net)"
    unfolding idle by (simp add: False s'(1) [simplified] token_away_lone(3))
  have "work_loop E fifo_mpi cb (token_away s) (token_out_net WHITE) = Some (Inr (s', token_back_net))"
    by (subst work_loop.simps) (simp only: two sum.case prod.case if_True)
  then have "work_loop E fifo_mpi cb s (fifo_new 1) = Some (Inr (s', token_back_net))"
    by (subst work_loop.simps) (simp only: one sum.case prod.case if_False)
  with s'(2-4) show ?thesis by blast
qed

text \<open>The callback makes progress on the objects of \<open>P\<close>: it returns, stays in \<open>P\<close> and lowers
  the measure \<open>f\<close>.\<close>

definition makes_progress :: "'u callbacks \<Rightarrow> ('u circle \<Rightarrow> bool) \<Rightarrow> ('u circle \<Rightarrow> nat) \<Rightarrow> bool" where
  "makes_progress cb P f \<longleftrightarrow> (\<forall>c. P c \<longrightarrow> 0 < qcount (queue c) \<longrightarrow>
     (\<exists>c'. processCallback cb c = Inr c' \<and> P c' \<and> f c' < f c))"

lemma lone_work_loop:
  assumes cb: "makes_progress cb P f" and s: "lone s" "fresh_token s" "P (circ s)"
    and n: "0 \<le> local_objects_processed s" "local_objects_processed s + int (f (circ s)) \<le> INT_MAX"
  shows "\<exists>s' w'. work_loop E fifo_mpi cb s (fifo_new 1) = Some (Inr (s', w')) \<and> lone s'
    \<and> P (circ s') \<and> qcount (qp s') = 0 \<and> token_send_req s' = None"
  using s n
proof (induction "f (circ s)" arbitrary: s rule: less_induct)
  case less
  show ?case
  proof (cases "qcount (qp s) = 0")
    case True
    with lone_loop_idle [OF less.prems(1,2) True, of E cb] less.prems(3) show ?thesis by force
  next
    case False
    with cb less.prems(3) obtain c where c: "processCallback cb (circ s) = Inr c" "P c" "f c < f (circ s)"
      unfolding makes_progress_def by blast
    let ?s = "s\<lparr>circ := c, local_objects_processed := local_objects_processed s + 1\<rparr>"
    have "in_int (local_objects_processed s + 1)"
      using less.prems(4,5) c(3) by (simp add: in_int_def INT_MAX_def)
    then have "work_step E fifo_mpi cb s (fifo_new 1) = Inr (False, ?s, fifo_new 1)"
      using lone_busy [OF less.prems(1)] False c(1) by (simp add: process_one_def)
    moreover have "lone ?s" "fresh_token ?s" using less.prems(1,2) by (simp_all add: lone_def fresh_token_def)
    then have "\<exists>s' w'. work_loop E fifo_mpi cb ?s (fifo_new 1) = Some (Inr (s', w')) \<and> lone s'
        \<and> P (circ s') \<and> qcount (qp s') = 0 \<and> token_send_req s' = None"
      using less.prems(4,5) c(2,3) by (intro less.hyps) auto
    ultimately show ?thesis by (subst work_loop.simps) simp
  qed
qed

section \<open>The rest of the run\<close>

lemma lone_cleanup:
  assumes "lone s" "token_send_req s = None"
  shows "\<exists>s'. cleanup_loop E fifo_mpi cb s w = Some (Inr (s', w)) \<and> lone s' \<and> circ s' = circ s"
  using assms
  by (auto simp: cleanup_loop.simps [of E fifo_mpi cb s] cleanup_step_def ready_for_barrier_def lone_def barrierStart_def
      barrierTest_def barrier_collect_def barrier_send_up_def barrier_from_parent_def)

lemma lone_final:
  assumes "lone s"
  shows "\<exists>s'. final_step E fifo_mpi cb fs s w = Inr (fs, s', w) \<and> circ s' = circ s"
  using assms by (simp add: final_step_def lone_def abortReduce_def to_int8_def)

lemma lone_mainLoop:
  assumes "makes_progress cb P f" "lone s" "fresh_token s" "P (circ s)"
    "0 \<le> local_objects_processed s" "local_objects_processed s + int (f (circ s)) \<le> INT_MAX"
  shows "\<exists>s' w'. mainLoop E fifo_mpi cb fs s (fifo_new 1) = Inr (fs, s', w') \<and> P (circ s') \<and> qcount (qp s') = 0"
proof -
  obtain s1 w1 where s1: "work_loop E fifo_mpi cb s (fifo_new 1) = Some (Inr (s1, w1))" "lone s1" "P (circ s1)"
    "qcount (qp s1) = 0" "token_send_req s1 = None"
    using lone_work_loop [OF assms] by blast
  obtain s2 where s2: "cleanup_loop E fifo_mpi cb s1 w1 = Some (Inr (s2, w1))" "lone s2" "circ s2 = circ s1"
    using lone_cleanup [OF s1(2,5)] by blast
  obtain s3 where "final_step E fifo_mpi cb fs s2 w1 = Inr (fs, s3, w1)" "circ s3 = circ s2"
    using lone_final [OF s2(2)] by blast
  with s1 s2 show ?thesis by (simp add: mainLoop_def)
qed

section \<open>A whole execution\<close>

lemma lone_State_new:
  assumes "getReducePeriod c \<le> 0" "1 \<le> getTreeWidth c" "getTreeWidth c \<le> INT_MAX" "malloc_ok E (nat (getTreeWidth c) * 4)"
  obtains s where "State_new E 0 1 now junk c = Inr s" "circ s = c" "lone (s\<lparr>circ := c'\<rparr>)" "fresh_token (s\<lparr>circ := c'\<rparr>)"
    "local_objects_processed s = 0"
proof -
  obtain t where t: "TreeState_new (malloc_ok E) 0 1 (getTreeWidth c) = Inr t" "parentRank t = kary_parent (getTreeWidth c) 0"
    "child_list t = kary_children (getTreeWidth c) 1 0" "nchildren t = int (length (kary_children (getTreeWidth c) 1 0))"
    using TreeState_new_ok [where malloc_ok = "malloc_ok E" and r = 0 and n = 1 and width = "getTreeWidth c"] assms by auto
  have none: "kary_parent (getTreeWidth c) 0 = None" "kary_children (getTreeWidth c) 1 0 = []"
    by (simp_all add: kary_parent_def kary_children_def)
  let ?s = "projr (State_new E 0 1 now junk c)"
  have "State_new E 0 1 now junk c = Inr ?s" using t(1) by (simp add: State_new_def getNextProc_def)
  then show thesis
    by (rule that) (use assms(1) t none in \<open>simp_all add: State_new_def getNextProc_def lone_def fresh_token_def
        getParentRank_def getChildrenCount_def\<close>)
qed

lemma lone_execute:
  assumes "makes_progress cb P f" "c_rank c = 0" "getReducePeriod c \<le> 0" "1 \<le> getTreeWidth c"
    "getTreeWidth c \<le> INT_MAX" "malloc_ok E (nat (getTreeWidth c) * 4)"
    "createCallback cb c = Inr c1" "P c1" "int (f c1) \<le> INT_MAX"
  shows "\<exists>c' w'. execute E fifo_mpi cb 1 junk fs c (fifo_new 1) = Inr (fs, c', w') \<and> P c' \<and> qcount (queue c') = 0"
proof -
  obtain now w where now: "MPI_Wtime fifo_mpi 0 (fifo_new 1) = (now, w)" by fastforce
  then have w: "w = fifo_new 1" by (simp add: fifo_mpi_def)
  obtain s where s: "State_new E 0 1 now junk c = Inr s" "circ s = c" "lone (s\<lparr>circ := c1\<rparr>)"
    "fresh_token (s\<lparr>circ := c1\<rparr>)" "local_objects_processed s = 0"
    using lone_State_new [OF assms(3-6)] by metis
  from lone_mainLoop [OF assms(1) s(3,4), of E fs] s(5) assms(8,9)
  obtain s' w' where "mainLoop E fifo_mpi cb fs (s\<lparr>circ := c1\<rparr>) (fifo_new 1) = Inr (fs, s', w')"
    "P (circ s')" "qcount (qp s') = 0" by auto
  then show ?thesis using now w s(1,2) assms(2,7) by (simp add: execute_def)
qed

text \<open>The callbacks of the example make progress.\<close>

lemma demo_progress: "makes_progress demo_callbacks (\<lambda>c. wf_queue (queue c)) (\<lambda>c. qcount (queue c))"
  unfolding makes_progress_def
proof (intro allI impI)
  fix c :: "unit circle"
  assume wf: "wf_queue (queue c)" and ne: "0 < qcount (queue c)"
  have rep: "queue_rep (queue c) (items (queue c))" by (rule wf_queue_rep [OF wf])
  then have "items (queue c) \<noteq> []" using ne queue_rep_count by fastforce
  then obtain xs x where xs: "items (queue c) = xs @ [x]" by (metis rev_exhaust)
  with rep have r: "queue_rep (queue c) (xs @ [x])" by simp
  from dequeue_rep [OF r] obtain q where "dequeue [] c = Inr (0, x, c\<lparr>queue := q\<rparr>)" "queue_rep q xs" by metis
  with queue_rep_count [OF r] show "\<exists>c'. processCallback demo_callbacks c = Inr c' \<and> wf_queue (queue c')
      \<and> qcount (queue c') < qcount (queue c)"
    by (auto simp: demo_callbacks_def dest: queue_rep_wf queue_rep_count)
qed

end
