(* ===== verification/Circle_Total.thy ===== *)
theory Circle_Total
  imports Circle_Reduce Circle_Barrier
begin

text \<open>
  The final reduction over all processes.  Every process runs \<open>reduceSync\<close> once, in any
  order in which the blocking receives let it; the theory shows that the root then has the
  number of objects all processes have processed and the combination of the data of all of
  them.  How the user's data are combined is measured by a map \<open>h\<close> into a commutative
  monoid.
\<close>

section \<open>The user's callbacks\<close>

text \<open>Callbacks that reduce as the documentation has it: the first puts the process's own data
  in the buffer, the second replaces it with the combination of the two it is given, the
  third looks at the result and may note it in the user's data (\<open>fin\<close>).  \<open>dat\<close> says which
  byte strings are data; they are not empty and their size fits an \<open>int\<close>.  \<open>own\<close> and \<open>comb\<close> are
  the user's functions.\<close>

definition sized :: "byte list \<Rightarrow> bool" where
  "sized x \<longleftrightarrow> x \<noteq> [] \<and> int (length x) \<le> INT_MAX"

definition reduces_with ::
  "env \<Rightarrow> 'u callbacks \<Rightarrow> (byte list \<Rightarrow> bool) \<Rightarrow> ('u \<Rightarrow> byte list) \<Rightarrow> (byte list \<Rightarrow> byte list \<Rightarrow> byte list)
    \<Rightarrow> (byte list \<Rightarrow> 'u circle \<Rightarrow> 'u circle) \<Rightarrow> bool" where
  "reduces_with E cb dat own comb fin \<longleftrightarrow>
     (\<exists>f. reduceInitCallback cb = Some f \<and> (\<forall>c. f c = Inr (reduce E (own (user c)) c)))
     \<and> (\<exists>g. reduceOperationCallback cb = Some g \<and>
          (\<forall>c x y. dat x \<longrightarrow> dat y \<longrightarrow> g c (Some x) (length x) (Some y) (length y) = Inr (reduce E (comb x y) c)))
     \<and> (case reduceFinalizeCallback cb of None \<Rightarrow> (\<forall>x c. fin x c = c)
        | Some k \<Rightarrow> (\<forall>c x. dat x \<longrightarrow> reduce_buf c = Some x \<longrightarrow> reduce_buf_size c = length x \<longrightarrow>
            k c (Some x) (length x) = Inr (fin x c)))
     \<and> (\<forall>x c. own (user (fin x c)) = own (user c))
     \<and> (\<forall>u. dat (own u)) \<and> (\<forall>x y. dat x \<longrightarrow> dat y \<longrightarrow> dat (comb x y)) \<and> (\<forall>x. dat x \<longrightarrow> sized x) \<and> (\<forall>k. malloc_ok E k)"

definition measures :: "(byte list \<Rightarrow> bool) \<Rightarrow> (byte list \<Rightarrow> 'm::comm_monoid_add) \<Rightarrow> (byte list \<Rightarrow> byte list \<Rightarrow> byte list) \<Rightarrow> bool" where
  "measures dat h comb \<longleftrightarrow> (\<forall>x y. dat x \<longrightarrow> dat y \<longrightarrow> h (comb x y) = h x + h y)"

text \<open>The messages of a partial result, and an object with data in its buffer.\<close>

definition part :: "int \<Rightarrow> byte list \<Rightarrow> payload list" where
  "part t x = [Longs [MSG_VALID, t, int (length x)], Bytes x]"

definition with_data :: "byte list \<Rightarrow> 'u circle \<Rightarrow> 'u circle" where
  "with_data b c = c\<lparr>reduce_buf := Some b, reduce_buf_size := length b\<rparr>"

lemma with_data_sel [simp]:
  "reduce_buf (with_data b c) = Some b" "reduce_buf_size (with_data b c) = length b" "user (with_data b c) = user c"
  "with_data b (with_data a c) = with_data b c"
  by (simp_all add: with_data_def)

lemma reduce_with_data: "malloc_ok E (length b) \<Longrightarrow> b \<noteq> [] \<Longrightarrow> reduce E b c = with_data b c"
  by (simp add: reduce_something with_data_def)

lemma reduces_withD:
  fixes s :: "'u state"
  assumes "reduces_with E cb dat own comb fin"
  shows "reduce_init cb s = Inr (s\<lparr>circ := with_data (own (user (circ s))) (circ s)\<rparr>)"
    "circ s = with_data x c \<Longrightarrow> dat x \<Longrightarrow> dat y \<Longrightarrow>
      reduce_operation cb (Some y) (length y) s = Inr (s\<lparr>circ := with_data (comb x y) c\<rparr>)"
    "circ s = with_data x c \<Longrightarrow> dat x \<Longrightarrow> reduce_finalize cb s = Inr (s\<lparr>circ := fin x (circ s)\<rparr>)"
    "dat (own u)" "dat x \<Longrightarrow> dat y \<Longrightarrow> dat (comb x y)" "malloc_ok E k" "dat x \<Longrightarrow> sized x"
    "own (user (fin x c)) = own (user c)"
proof -
  have own: "dat (own u)" and comb: "dat x \<Longrightarrow> dat y \<Longrightarrow> dat (comb x y)" and mal: "malloc_ok E k"
    and sz: "dat x \<Longrightarrow> sized x" for u x y k
    using assms by (auto simp: reduces_with_def)
  then show "dat (own u)" "dat x \<Longrightarrow> dat y \<Longrightarrow> dat (comb x y)" "malloc_ok E k" "dat x \<Longrightarrow> sized x" by blast+
  have rd: "dat b \<Longrightarrow> reduce E b c = with_data b c" for b and c :: "'u circle"
    using mal sz [of b] by (intro reduce_with_data) (auto simp: sized_def)
  show "reduce_init cb s = Inr (s\<lparr>circ := with_data (own (user (circ s))) (circ s)\<rparr>)"
    using assms rd [OF own] by (auto simp: reduces_with_def reduce_init_def)
  show "reduce_operation cb (Some y) (length y) s = Inr (s\<lparr>circ := with_data (comb x y) c\<rparr>)"
    if "circ s = with_data x c" "dat x" "dat y"
    using assms rd [OF comb [OF that(2,3)]] that by (auto simp: reduces_with_def reduce_operation_def)
  show "reduce_finalize cb s = Inr (s\<lparr>circ := fin x (circ s)\<rparr>)" if "circ s = with_data x c" "dat x"
  proof (cases "reduceFinalizeCallback cb")
    case None
    with assms show ?thesis by (simp add: reduces_with_def reduce_finalize_def)
  next
    case (Some k)
    with assms that show ?thesis by (simp add: reduces_with_def reduce_finalize_def)
  qed
  show "own (user (fin x c)) = own (user c)" using assms unfolding reduces_with_def by blast
qed

section \<open>One process\<close>

context mpi_laws
begin

text \<open>A partial result of a child is taken from its channel and added.\<close>

lemma sync_child_eff:
  assumes cb: "reduces_with E cb dat own comb fin" and b: "circ s = with_data b c" "dat b"
    and p: "pend w (child, rank s, TAG_REDUCE) = part t x" "dat x"
    and l: "local_reduce_buf s = (v, tot, k)"
  shows "\<exists>w'. sync_child E M cb child s w = Inr (s\<lparr>circ := with_data (comb b x) c, local_reduce_buf := (v, tot + t, k)\<rparr>, w')
    \<and> pend w' = (pend w)((child, rank s, TAG_REDUCE) := [])"
proof -
  have p': "pend w (child, rank s, TAG_REDUCE) = Longs [MSG_VALID, t, int (length x)] # [Bytes x]"
    using p(1) by (simp add: part_def)
  from recv_pend [OF this] obtain w1 where
    w1: "recv M (rank s) child TAG_REDUCE w = Inr (Longs [MSG_VALID, t, int (length x)], w1)"
    "pend w1 = (pend w)((child, rank s, TAG_REDUCE) := [Bytes x])" .
  have "pend w1 (child, rank s, TAG_REDUCE) = Bytes x # []" using w1(2) by simp
  from recv_pend [OF this] obtain w2 where w2: "recv M (rank s) child TAG_REDUCE w1 = Inr (Bytes x, w2)"
    "pend w2 = (pend w1)((child, rank s, TAG_REDUCE) := [])" .
  have sz: "to_size (int (length x)) = length x" "to_int32 (length x) = int (length x)" "0 < length x"
    using reduces_withD(7) [OF cb p(2)] by (auto simp: sized_def)
  have ud: "recv_user_data E M (rank s) child (int (length x)) w1 = Inr (Some x, w2)"
    using sz w2(1) reduces_withD(6) [OF cb] by (simp add: recv_user_data_def Let_def)
  let ?s = "s\<lparr>local_reduce_buf := (v, tot + t, k)\<rparr>"
  have c: "circ ?s = with_data b c" using b(1) by simp
  have "sync_child E M cb child s w = Inr (?s\<lparr>circ := with_data (comb b x) c\<rparr>, w2)"
    unfolding sync_child_def w1(1) using l ud sz(1) reduces_withD(2) [OF cb c b(2) p(2)]
    by (simp add: Let_def)
  moreover have "?s\<lparr>circ := with_data (comb b x) c\<rparr> = s\<lparr>circ := with_data (comb b x) c, local_reduce_buf := (v, tot + t, k)\<rparr>"
    by simp
  ultimately show ?thesis using w1(2) w2(2) by (intro exI [of _ w2]) simp
qed

text \<open>A child that has not sent yet blocks the process.\<close>

lemma sync_child_waits:
  assumes "sync_child E M cb child s w = Inr r"
  shows "pend w (child, rank s, TAG_REDUCE) \<noteq> []"
  using assms by (auto simp: sync_child_def elim!: bind_res_InrE recv_Inr)

lemma sync_children_eff:
  assumes cb: "reduces_with E cb dat own comb fin" and h: "measures dat h comb"
  shows "sync_children E M cb cs s w = Inr (s', w') \<Longrightarrow> distinct cs \<Longrightarrow> circ s = with_data b c \<Longrightarrow> dat b \<Longrightarrow>
    \<forall>c \<in> set cs. pend w (c, rank s, TAG_REDUCE) = [] \<or> pend w (c, rank s, TAG_REDUCE) = part (T c) (X c) \<and> dat (X c) \<Longrightarrow>
    local_reduce_buf s = (v, tot, k) \<Longrightarrow>
    \<exists>b'. s' = s\<lparr>circ := with_data b' c, local_reduce_buf := (v, tot + (\<Sum>c\<leftarrow>cs. T c), k)\<rparr>
      \<and> dat b' \<and> h b' = h b + (\<Sum>c\<leftarrow>cs. h (X c)) \<and> (\<forall>c \<in> set cs. pend w (c, rank s, TAG_REDUCE) \<noteq> [])
      \<and> pend w' = (\<lambda>k. if \<exists>c \<in> set cs. k = (c, rank s, TAG_REDUCE) then [] else pend w k)"
proof (induction cs arbitrary: s w b tot)
  case Nil
  then show ?case by (intro exI [of _ b]) (cases s; simp)
next
  case (Cons d cs)
  obtain s1 w1 where one: "sync_child E M cb d s w = Inr (s1, w1)" and rest: "sync_children E M cb cs s1 w1 = Inr (s', w')"
    using Cons.prems(1) by (auto elim!: bind_res_InrE)
  have pd: "pend w (d, rank s, TAG_REDUCE) = part (T d) (X d)" "dat (X d)"
    using Cons.prems(5) sync_child_waits [OF one] by auto
  from sync_child_eff [OF cb Cons.prems(3,4) pd Cons.prems(6)] one
  have s1: "s1 = s\<lparr>circ := with_data (comb b (X d)) c, local_reduce_buf := (v, tot + T d, k)\<rparr>"
    and w1: "pend w1 = (pend w)((d, rank s, TAG_REDUCE) := [])" by auto
  have sb: "dat (comb b (X d))" by (rule reduces_withD(5) [OF cb Cons.prems(4) pd(2)])
  have hb: "h (comb b (X d)) = h b + h (X d)" using h Cons.prems(4) pd(2) by (simp add: measures_def)
  have rk: "rank s1 = rank s" by (simp add: s1)
  have others: "\<forall>c \<in> set cs. pend w1 (c, rank s1, TAG_REDUCE) = [] \<or> pend w1 (c, rank s1, TAG_REDUCE) = part (T c) (X c) \<and> dat (X c)"
    using Cons.prems(2,5) by (auto simp: w1 rk)
  have dist: "distinct cs" "d \<notin> set cs" using Cons.prems(2) by auto
  have c1: "circ s1 = with_data (comb b (X d)) c" "local_reduce_buf s1 = (v, tot + T d, k)" by (simp_all add: s1)
  obtain b' where b': "s' = s1\<lparr>circ := with_data b' c, local_reduce_buf := (v, tot + T d + (\<Sum>c\<leftarrow>cs. T c), k)\<rparr>"
    "dat b'" "h b' = h (comb b (X d)) + (\<Sum>c\<leftarrow>cs. h (X c))" "\<forall>c \<in> set cs. pend w1 (c, rank s1, TAG_REDUCE) \<noteq> []"
    "pend w' = (\<lambda>k. if \<exists>c \<in> set cs. k = (c, rank s1, TAG_REDUCE) then [] else pend w1 k)"
    using Cons.IH [OF rest dist(1) c1(1) sb others c1(2)] by blast
  have ne: "pend w (d, rank s, TAG_REDUCE) \<noteq> []" using pd(1) by (simp add: part_def)
  show ?case
  proof (intro exI [of _ b'] conjI)
    show "s' = s\<lparr>circ := with_data b' c, local_reduce_buf := (v, tot + (\<Sum>c\<leftarrow>d # cs. T c), k)\<rparr>"
      using b'(1) by (simp add: s1 add.assoc)
    show "h b' = h b + (\<Sum>c\<leftarrow>d # cs. h (X c))" using b'(3) hb by (simp add: add.assoc)
    show "\<forall>c \<in> set (d # cs). pend w (c, rank s, TAG_REDUCE) \<noteq> []"
      using b'(4) ne by (auto simp: w1 rk split: if_splits)
    show "pend w' = (\<lambda>k. if \<exists>c \<in> set (d # cs). k = (c, rank s, TAG_REDUCE) then [] else pend w k)"
      unfolding b'(5) by (auto simp: fun_eq_iff w1 rk)
  qed (rule b'(2))
qed

text \<open>The whole of \<open>reduceSync\<close>.\<close>

lemma send_partial_eff:
  assumes "send_partial M (\<lambda>_. True) q s w = Inr (s', w')" "circ s = with_data b c" "sized b"
    "local_reduce_buf s = (MSG_VALID, tot, k)"
  shows "s' = s\<lparr>local_reduce_buf := (MSG_VALID, tot, int (length b))\<rparr>
    \<and> pend w' = (pend w)((rank s, q, TAG_REDUCE) := pend w (rank s, q, TAG_REDUCE) @ part tot b)"
proof -
  have sz: "to_int32 (length b) = int (length b)" "0 < length b" using assms(3) by (auto simp: sized_def)
  obtain w1 where w1: "send M (rank s) q TAG_REDUCE (Longs [MSG_VALID, tot, int (length b)]) w = Inr w1"
    "send M (rank s) q TAG_REDUCE (Bytes b) w1 = Inr w'" "s' = s\<lparr>local_reduce_buf := (MSG_VALID, tot, int (length b))\<rparr>"
    using assms sz by (auto simp: send_partial_def send_user_data_def Let_def elim!: bind_res_InrE)
  from send_Inr [OF w1(1)] send_Inr [OF w1(2)] w1(3) show ?thesis by (simp add: part_def)
qed

lemma reduceSync_eff:
  assumes cb: "reduces_with E cb dat own comb fin" and h: "measures dat h comb" and d: "distinct (child_list (tree s))"
    and run: "reduceSync E M cb cnt s w = Inr (s', w')"
    and p: "\<forall>c \<in> set (child_list (tree s)). pend w (c, rank s, TAG_REDUCE) = []
      \<or> pend w (c, rank s, TAG_REDUCE) = part (T c) (X c) \<and> dat (X c)"
  obtains b t p' where
    "circ s' = (if getParentRank (tree s) = None then fin b (with_data b (circ s)) else with_data b (circ s))"
    "local_objects_processed s' = local_objects_processed s" "rank s' = rank s" "tree s' = tree s"
    "dat b" "fst (snd (local_reduce_buf s')) = t"
    "h b = h (own (user (circ s))) + (\<Sum>c\<leftarrow>child_list (tree s). h (X c))" "t = cnt + (\<Sum>c\<leftarrow>child_list (tree s). T c)"
    "\<forall>c \<in> set (child_list (tree s)). pend w (c, rank s, TAG_REDUCE) \<noteq> []"
    "p' = (\<lambda>k. if \<exists>c \<in> set (child_list (tree s)). k = (c, rank s, TAG_REDUCE) then [] else pend w k)"
    "pend w' = (case getParentRank (tree s) of None \<Rightarrow> p'
      | Some q \<Rightarrow> p'((rank s, q, TAG_REDUCE) := p' (rank s, q, TAG_REDUCE) @ part t b))"
proof -
  let ?o = "own (user (circ s))" and ?cs = "child_list (tree s)"
  let ?s = "s\<lparr>local_reduce_buf := (MSG_VALID, cnt, 0), circ := with_data ?o (circ s)\<rparr>"
  have init: "reduce_init cb (s\<lparr>local_reduce_buf := (MSG_VALID, cnt, 0)\<rparr>) = Inr ?s"
    using reduces_withD(1) [OF cb, of "s\<lparr>local_reduce_buf := (MSG_VALID, cnt, 0)\<rparr>"] by simp
  from run obtain s1 w1 where one: "sync_children E M cb ?cs ?s w = Inr (s1, w1)"
    and two: "(case getParentRank (tree s1) of
         Some p \<Rightarrow> send_partial M (\<lambda>_. True) p s1 w1
       | None \<Rightarrow> bind_res (reduce_finalize cb s1) (\<lambda>s. Inr (s, w1))) = Inr (s', w')"
    unfolding reduceSync_def init by (auto elim!: bind_res_InrE)
  have c0: "circ ?s = with_data ?o (circ s)" "local_reduce_buf ?s = (MSG_VALID, cnt, 0)" by simp_all
  have p0: "\<forall>c \<in> set ?cs. pend w (c, rank ?s, TAG_REDUCE) = []
      \<or> pend w (c, rank ?s, TAG_REDUCE) = part (T c) (X c) \<and> dat (X c)" using p by simp
  from sync_children_eff [OF cb h one d c0(1) reduces_withD(4) [OF cb] p0 c0(2)] obtain b where
    b: "s1 = ?s\<lparr>circ := with_data b (circ s), local_reduce_buf := (MSG_VALID, cnt + (\<Sum>c\<leftarrow>?cs. T c), 0)\<rparr>"
    "dat b" "h b = h ?o + (\<Sum>c\<leftarrow>?cs. h (X c))" "\<forall>c \<in> set ?cs. pend w (c, rank s, TAG_REDUCE) \<noteq> []"
    "pend w1 = (\<lambda>k. if \<exists>c \<in> set ?cs. k = (c, rank s, TAG_REDUCE) then [] else pend w k)" by auto
  have s1: "circ s1 = with_data b (circ s)" "local_reduce_buf s1 = (MSG_VALID, cnt + (\<Sum>c\<leftarrow>?cs. T c), 0)"
    "rank s1 = rank s" "tree s1 = tree s" by (simp_all add: b(1))
  show thesis
  proof (cases "getParentRank (tree s)")
    case None
    then have "s' = s1\<lparr>circ := fin b (circ s1)\<rparr>" "w' = w1"
      using two s1(4) reduces_withD(3) [OF cb s1(1) b(2)] by auto
    then show thesis
      by (intro that [OF _ _ _ _ b(2) refl b(3) _ b(4) refl]) (use s1 b(5) None in \<open>simp_all add: b(1)\<close>)
  next
    case (Some q)
    have sp: "send_partial M (\<lambda>_. True) q s1 w1 = Inr (s', w')" using two Some s1(4) by simp
    note e = send_partial_eff [OF sp s1(1) reduces_withD(7) [OF cb b(2)] s1(2)]
    show thesis
      by (rule that [OF _ _ _ _ b(2) refl b(3) _ b(4) refl]) (use e s1 b(5) Some in \<open>simp_all add: b(1)\<close>)
  qed
qed

end

section \<open>Sums over the frontier of a tree\<close>

text \<open>The processes that are done and whose parent is not.\<close>

definition front :: "(int \<Rightarrow> int option) \<Rightarrow> int set \<Rightarrow> int set" where
  "front par D = {c \<in> D. \<forall>q. par c = Some q \<longrightarrow> q \<notin> D}"

context rank_tree
begin

lemma front_step:
  assumes D: "D \<subseteq> {0..<n}" "\<forall>j \<in> D. set (chl j) \<subseteq> D" and i: "0 \<le> i" "i < n" "i \<notin> D" "set (chl i) \<subseteq> D"
  shows "front par (insert i D) = insert i (front par D - set (chl i))" "set (chl i) \<subseteq> front par D" "i \<notin> front par D"
proof -
  have up: "q \<notin> insert i D" if "par i = Some q" for q
    using par_range [OF i(1,2) that] D(2) i(3) by auto
  have ch: "c \<in> set (chl i) \<longleftrightarrow> par c = Some i" if "c \<in> D" for c
    using child_iff [OF i(1,2), of c] D(1) that par_root by (cases "c = 0") auto
  show "front par (insert i D) = insert i (front par D - set (chl i))"
    using up ch i(3) by (auto simp: front_def)
  show "set (chl i) \<subseteq> front par D" using ch i(3,4) by (auto simp: front_def)
  show "i \<notin> front par D" using i(3) by (simp add: front_def)
qed

lemma frontier_sum:
  fixes f G :: "int \<Rightarrow> 'a::comm_monoid_add"
  assumes D: "D \<subseteq> {0..<n}" "\<forall>j \<in> D. set (chl j) \<subseteq> D" and i: "0 \<le> i" "i < n" "i \<notin> D" "set (chl i) \<subseteq> D"
    and v: "v = f i + (\<Sum>c\<leftarrow>chl i. G c)" and s: "sum G (front par D) = sum f D"
  shows "sum (G(i := v)) (front par (insert i D)) = sum f (insert i D)"
proof -
  note f = front_step [OF D i]
  have "finite D" using D(1) finite_subset by blast
  then have fin: "finite (front par D)" by (simp add: front_def)
  have rest: "sum (G(i := v)) (front par D - set (chl i)) = sum G (front par D - set (chl i))"
    using f(3) by (intro sum.cong) auto
  have kids: "(\<Sum>c\<leftarrow>chl i. G c) = sum G (set (chl i))"
    by (rule sum_list_distinct_conv_sum_set [OF child_distinct])
  have "sum (G(i := v)) (front par (insert i D)) = v + sum G (front par D - set (chl i))"
    unfolding f(1) using fin f(3) rest by (subst sum.insert) auto
  moreover have "sum G (front par D) = sum G (front par D - set (chl i)) + sum G (set (chl i))"
    by (rule sum.subset_diff [OF f(2) fin])
  ultimately show ?thesis using i(3) \<open>finite D\<close> unfolding v kids by (simp add: ac_simps flip: s)
qed

text \<open>When the root is done, all are, and the root is all that is left of the frontier.\<close>

lemma root_done:
  assumes "0 \<in> D" "D \<subseteq> {0..<n}" "\<forall>j \<in> D. set (chl j) \<subseteq> D"
  shows "D = {0..<n}" "front par D = {0}"
proof -
  have "r \<in> D" if "0 \<le> r" "r < n" for r
    by (rule down_induct [of "\<lambda>r. r \<in> D", OF assms(1) _ that]) (use assms(3) in auto)
  with assms(2) show D: "D = {0..<n}" by auto
  show "front par D = {0}"
  proof (intro equalityI subsetI)
    fix c assume c: "c \<in> front par D"
    then have r: "0 \<le> c" "c < n" by (auto simp: front_def D)
    show "c \<in> {0}"
    proof (rule ccontr)
      assume "c \<notin> {0}"
      then obtain q where "par c = Some q" "0 \<le> q" "q < c" using par_less [of c] r by auto
      with c r show False by (auto simp: front_def D)
    qed
  qed (use assms(1) par_root in \<open>simp add: front_def\<close>)
qed

end

section \<open>All processes\<close>

text \<open>A configuration: the processes that are done, the states, the network.  A step is one
  process that runs \<open>reduceSync\<close> with the number of objects it has processed.\<close>

inductive sync_step ::
  "env \<Rightarrow> 'w mpi \<Rightarrow> 'u callbacks \<Rightarrow> int \<Rightarrow> int set \<times> (int \<Rightarrow> 'u state) \<times> 'w \<Rightarrow> int set \<times> (int \<Rightarrow> 'u state) \<times> 'w \<Rightarrow> bool"
  for E M cb n where
  sync: "0 \<le> i \<Longrightarrow> i < n \<Longrightarrow> i \<notin> D \<Longrightarrow>
    reduceSync E M cb (local_objects_processed (\<sigma> i)) (\<sigma> i) w = Inr (s', w') \<Longrightarrow>
    sync_step E M cb n (D, \<sigma>, w) (insert i D, \<sigma>(i := s'), w')"

section \<open>The messages of reductions\<close>

text \<open>What a process sends its parent: a header, and the user's data when the header announces
  some.\<close>

definition reply :: "payload list \<Rightarrow> bool" where
  "reply xs \<longleftrightarrow> (\<exists>v t b. xs = [Longs [v, t, b]]
     \<or> v \<noteq> MSG_INVALID \<and> 0 < to_size b \<and> (\<exists>x. xs = [Longs [v, t, b], Bytes x]))"

text \<open>Between a process \<open>q\<close> and its child \<open>c\<close>, at most one of these holds: the child is asked for
  its part, it works on it, its reply is on the way.  A process that reduces waits for as many
  children as it has not had replies from.\<close>

definition reducing :: "(int \<Rightarrow> phase) \<Rightarrow> (int \<Rightarrow> 'u state) \<Rightarrow> int \<Rightarrow> bool" where
  "reducing ph \<sigma> i \<longleftrightarrow> ph i \<noteq> Finished \<and> reduce_outstanding (\<sigma> i)"

definition engaged :: "(int \<Rightarrow> phase) \<Rightarrow> (int \<Rightarrow> 'u state) \<Rightarrow> (channel \<Rightarrow> payload list) \<Rightarrow> int \<Rightarrow> int \<Rightarrow> nat" where
  "engaged ph \<sigma> p q c = length (p (q, c, TAG_REDUCE)) + (if p (c, q, TAG_REDUCE) = [] then 0 else 1)
     + (if reducing ph \<sigma> c then 1 else 0)"

definition waiting :: "(int \<Rightarrow> int list) \<Rightarrow> (int \<Rightarrow> phase) \<Rightarrow> (int \<Rightarrow> 'u state) \<Rightarrow> int \<Rightarrow> int" where
  "waiting chl ph \<sigma> q = (if reducing ph \<sigma> q then int (length (chl q)) - reduce_replies (\<sigma> q) else 0)"

text \<open>\<open>D\<close> are the processes that are done with the final reduction, \<open>T\<close> and \<open>X\<close> what they sent.\<close>

definition reduce_net ::
  "int \<Rightarrow> (int \<Rightarrow> int list) \<Rightarrow> (int \<Rightarrow> int) \<Rightarrow> (int \<Rightarrow> byte list) \<Rightarrow> (int \<Rightarrow> phase) \<Rightarrow> int set \<Rightarrow> (int \<Rightarrow> 'u state)
    \<Rightarrow> (channel \<Rightarrow> payload list) \<Rightarrow> bool" where
  "reduce_net n chl T X ph D \<sigma> p \<longleftrightarrow>
     D \<subseteq> {0..<n} \<and> (\<forall>j \<in> D. set (chl j) \<subseteq> D \<and> ph j = Finished)
     \<and> (\<forall>q c. 0 \<le> q \<longrightarrow> q < n \<longrightarrow> c \<in> set (chl q) \<longrightarrow> (ph c = Finished \<longrightarrow> ph q = Finished)
          \<and> (c \<in> D \<longrightarrow> p (q, c, TAG_REDUCE) = [] \<and> p (c, q, TAG_REDUCE) = (if q \<in> D then [] else part (T c) (X c)))
          \<and> (c \<notin> D \<longrightarrow> engaged ph \<sigma> p q c \<le> 1 \<and> (p (c, q, TAG_REDUCE) = [] \<or> reply (p (c, q, TAG_REDUCE)))))
     \<and> (\<forall>q. 0 \<le> q \<longrightarrow> q < n \<longrightarrow> q \<notin> D \<longrightarrow> int (\<Sum>c\<in>set (chl q) - D. engaged ph \<sigma> p q c) = waiting chl ph \<sigma> q)"

lemma reduce_netD:
  assumes "reduce_net n chl T X ph D \<sigma> p"
  shows "D \<subseteq> {0..<n}" "j \<in> D \<Longrightarrow> set (chl j) \<subseteq> D" "j \<in> D \<Longrightarrow> ph j = Finished"
    "0 \<le> q \<Longrightarrow> q < n \<Longrightarrow> c \<in> set (chl q) \<Longrightarrow> ph c = Finished \<Longrightarrow> ph q = Finished"
    "0 \<le> q \<Longrightarrow> q < n \<Longrightarrow> c \<in> set (chl q) \<Longrightarrow> c \<in> D \<Longrightarrow> p (q, c, TAG_REDUCE) = []"
    "0 \<le> q \<Longrightarrow> q < n \<Longrightarrow> c \<in> set (chl q) \<Longrightarrow> c \<in> D \<Longrightarrow> p (c, q, TAG_REDUCE) = (if q \<in> D then [] else part (T c) (X c))"
    "0 \<le> q \<Longrightarrow> q < n \<Longrightarrow> c \<in> set (chl q) \<Longrightarrow> c \<notin> D \<Longrightarrow> engaged ph \<sigma> p q c \<le> 1"
    "0 \<le> q \<Longrightarrow> q < n \<Longrightarrow> c \<in> set (chl q) \<Longrightarrow> c \<notin> D \<Longrightarrow> p (c, q, TAG_REDUCE) \<noteq> [] \<Longrightarrow> reply (p (c, q, TAG_REDUCE))"
    "0 \<le> q \<Longrightarrow> q < n \<Longrightarrow> q \<notin> D \<Longrightarrow> int (\<Sum>c\<in>set (chl q) - D. engaged ph \<sigma> p q c) = waiting chl ph \<sigma> q"
  using assms unfolding reduce_net_def by blast+

lemma reduce_netI:
  assumes "D \<subseteq> {0..<n}" "\<And>j. j \<in> D \<Longrightarrow> set (chl j) \<subseteq> D \<and> ph j = Finished"
    "\<And>q c. 0 \<le> q \<Longrightarrow> q < n \<Longrightarrow> c \<in> set (chl q) \<Longrightarrow> ph c = Finished \<Longrightarrow> ph q = Finished"
    "\<And>q c. 0 \<le> q \<Longrightarrow> q < n \<Longrightarrow> c \<in> set (chl q) \<Longrightarrow> c \<in> D \<Longrightarrow>
      p (q, c, TAG_REDUCE) = [] \<and> p (c, q, TAG_REDUCE) = (if q \<in> D then [] else part (T c) (X c))"
    "\<And>q c. 0 \<le> q \<Longrightarrow> q < n \<Longrightarrow> c \<in> set (chl q) \<Longrightarrow> c \<notin> D \<Longrightarrow>
      engaged ph \<sigma> p q c \<le> 1 \<and> (p (c, q, TAG_REDUCE) = [] \<or> reply (p (c, q, TAG_REDUCE)))"
    "\<And>q. 0 \<le> q \<Longrightarrow> q < n \<Longrightarrow> q \<notin> D \<Longrightarrow> int (\<Sum>c\<in>set (chl q) - D. engaged ph \<sigma> p q c) = waiting chl ph \<sigma> q"
  shows "reduce_net n chl T X ph D \<sigma> p"
  using assms unfolding reduce_net_def by blast

text \<open>A process that waits for nobody has no message of a reduction from or to its children.\<close>

lemma net_quiet:
  assumes net: "reduce_net n chl T X ph D \<sigma> p" and q: "0 \<le> q" "q < n" "q \<notin> D" "waiting chl ph \<sigma> q = 0"
    and c: "c \<in> set (chl q)" "c \<notin> D"
  shows "engaged ph \<sigma> p q c = 0"
proof -
  have "(\<Sum>c\<in>set (chl q) - D. engaged ph \<sigma> p q c) = 0"
    using reduce_netD(9) [OF net q(1-3)] unfolding q(4) of_nat_eq_0_iff .
  with c show ?thesis by simp
qed

lemma engaged_0: "engaged ph \<sigma> p q c = 0 \<longleftrightarrow>
    p (q, c, TAG_REDUCE) = [] \<and> p (c, q, TAG_REDUCE) = [] \<and> \<not> reducing ph \<sigma> c"
  by (simp add: engaged_def)

lemma net_start:
  assumes "\<forall>a b. p (a, b, TAG_REDUCE) = []" "\<And>i. 0 \<le> i \<Longrightarrow> i < n \<Longrightarrow> \<not> reducing ph \<sigma> i"
    "\<And>q c. 0 \<le> q \<Longrightarrow> q < n \<Longrightarrow> c \<in> set (chl q) \<Longrightarrow> 0 \<le> c \<and> c < n \<and> ph c = ph q"
  shows "reduce_net n chl T X ph {} \<sigma> p"
proof -
  have none: "engaged ph \<sigma> p q c = 0" if "0 \<le> q" "q < n" "c \<in> set (chl q)" for q c
    using assms(1) assms(2) assms(3) [OF that] by (simp add: engaged_0)
  show ?thesis
  proof (rule reduce_netI, goal_cases)
    case (3 q c)
    then show ?case using assms(3) [of q c] by simp
  next
    case (5 q c)
    then show ?case using none [of q c] engaged_0 [of ph \<sigma> p q c] by simp
  next
    case (6 q)
    then show ?case using none [of q] assms(2) [of q] by (simp add: waiting_def)
  qed simp_all
qed

section \<open>The final reduction\<close>

text \<open>What the processes that are done have brought up to the frontier, and what the root has.\<close>

definition sync_result ::
  "(int \<Rightarrow> int option) \<Rightarrow> (byte list \<Rightarrow> bool) \<Rightarrow> ('u \<Rightarrow> byte list) \<Rightarrow> (byte list \<Rightarrow> 'm::comm_monoid_add)
    \<Rightarrow> (byte list \<Rightarrow> 'u circle \<Rightarrow> 'u circle) \<Rightarrow> (int \<Rightarrow> int) \<Rightarrow> (int \<Rightarrow> byte list) \<Rightarrow> int set \<Rightarrow> (int \<Rightarrow> 'u state) \<Rightarrow> bool" where
  "sync_result par dat own h fin T X D \<sigma> \<longleftrightarrow> (\<forall>c \<in> D. dat (X c))
     \<and> sum T (front par D) = (\<Sum>i\<in>D. local_objects_processed (\<sigma> i))
     \<and> (\<Sum>i\<in>front par D. h (X i)) = (\<Sum>i\<in>D. h (own (user (circ (\<sigma> i)))))
     \<and> (0 \<in> D \<longrightarrow> fst (snd (local_reduce_buf (\<sigma> 0))) = T 0 \<and> (\<exists>c. circ (\<sigma> 0) = fin (X 0) (with_data (X 0) c)))"

lemma sync_result_start [simp]: "sync_result par dat own h fin T X {} \<sigma>"
  by (simp add: sync_result_def front_def)

lemma sync_result_cong:
  assumes "\<And>j. j \<in> D \<Longrightarrow> \<sigma>' j = \<sigma> j"
  shows "sync_result par dat own h fin T X D \<sigma>' = sync_result par dat own h fin T X D \<sigma>"
  unfolding sync_result_def using assms by (simp cong: sum.cong)

context mpi_laws
begin

lemma sync_net:
  assumes tree: "rank_tree n par chl" "spans n par chl \<sigma>" and cb: "reduces_with E cb dat own comb fin" and h: "measures dat h comb"
    and net: "reduce_net n chl T X ph D \<sigma> (pend w)" and res: "sync_result par dat own h fin T X D \<sigma>"
    and i: "0 \<le> i" "i < n" "i \<notin> D" "ph i = Finished"
    and run: "reduceSync E M cb (local_objects_processed (\<sigma> i)) (\<sigma> i) w = Inr (s', w')"
  shows "\<exists>T X. reduce_net n chl T X ph (insert i D) (\<sigma>(i := s')) (pend w')
      \<and> sync_result par dat own h fin T X (insert i D) (\<sigma>(i := s'))"
    "local_objects_processed s' = local_objects_processed (\<sigma> i)" "own (user (circ s')) = own (user (circ (\<sigma> i)))"
    "rank s' = rank (\<sigma> i)" "tree s' = tree (\<sigma> i)"
proof -
  note D = reduce_netD(1,2) [OF net]
  have Dc: "\<forall>j \<in> D. set (chl j) \<subseteq> D" using D(2) by blast
  have X: "\<forall>c \<in> D. dat (X c)" using res by (simp add: sync_result_def)
  have tr: "rank (\<sigma> i) = i" "getParentRank (tree (\<sigma> i)) = par i" "child_list (tree (\<sigma> i)) = chl i"
    using tree(2) i by (simp_all add: spans_def)
  have d: "distinct (child_list (tree (\<sigma> i)))" unfolding tr by (rule rank_tree.child_distinct [OF tree(1)])
  have wi: "waiting chl ph \<sigma> q = 0" if "ph q = Finished" for q using that by (simp add: waiting_def reducing_def)
  have kids: "\<forall>c \<in> set (child_list (tree (\<sigma> i))). pend w (c, rank (\<sigma> i), TAG_REDUCE) = []
      \<or> pend w (c, rank (\<sigma> i), TAG_REDUCE) = part (T c) (X c) \<and> dat (X c)"
  proof
    fix c assume "c \<in> set (child_list (tree (\<sigma> i)))"
    then have c: "c \<in> set (chl i)" by (simp add: tr)
    show "pend w (c, rank (\<sigma> i), TAG_REDUCE) = [] \<or> pend w (c, rank (\<sigma> i), TAG_REDUCE) = part (T c) (X c) \<and> dat (X c)"
    proof (cases "c \<in> D")
      case True
      with reduce_netD(6) [OF net i(1,2) c] X i(3) show ?thesis by (simp add: tr)
    next
      case False
      from net_quiet [OF net i(1-3) wi [OF i(4)] c False] show ?thesis by (simp add: tr engaged_0)
    qed
  qed
  obtain b t p' where r: "circ s' = (if par i = None then fin b (with_data b (circ (\<sigma> i))) else with_data b (circ (\<sigma> i)))"
    "local_objects_processed s' = local_objects_processed (\<sigma> i)" "rank s' = i" "tree s' = tree (\<sigma> i)"
    "dat b" "fst (snd (local_reduce_buf s')) = t"
    "h b = h (own (user (circ (\<sigma> i)))) + (\<Sum>c\<leftarrow>chl i. h (X c))" "t = local_objects_processed (\<sigma> i) + (\<Sum>c\<leftarrow>chl i. T c)"
    "\<forall>c \<in> set (chl i). pend w (c, i, TAG_REDUCE) \<noteq> []"
    "p' = (\<lambda>k. if \<exists>c \<in> set (chl i). k = (c, i, TAG_REDUCE) then [] else pend w k)"
    "pend w' = (case par i of None \<Rightarrow> p' | Some q \<Rightarrow> p'((i, q, TAG_REDUCE) := p' (i, q, TAG_REDUCE) @ part t b))"
    by (rule reduceSync_eff [OF cb h d run kids, unfolded tr]) (rule that)
  show own: "own (user (circ s')) = own (user (circ (\<sigma> i)))" using r(1) reduces_withD(8) [OF cb] by simp
  show "local_objects_processed s' = local_objects_processed (\<sigma> i)" "rank s' = rank (\<sigma> i)" "tree s' = tree (\<sigma> i)"
    using r(2-4) tr(1) by simp_all
  have cD: "set (chl i) \<subseteq> D"
    using r(9) net_quiet [OF net i(1-3) wi [OF i(4)]] by (auto simp: engaged_0)
  have up: "0 \<le> q \<and> q < i \<and> i \<in> set (chl q) \<and> q \<notin> D \<and> q < n" if "par i = Some q" for q
    using rank_tree.par_range [OF tree(1) i(1,2) that] D(2) i(2,3) by auto
  have up_quiet: "engaged ph \<sigma> (pend w) q i = 0" "ph q = Finished" if "par i = Some q" for q
    using up [OF that] net_quiet [OF net _ _ _ _ _ i(3), of q] wi [of q] reduce_netD(4) [OF net _ _ _ i(4), of q] by simp_all
  let ?T = "T(i := t)" and ?X = "X(i := b)" and ?\<sigma> = "\<sigma>(i := s')"
  have pw': "pend w' (a, c, TAG_REDUCE) = (if par i = Some c \<and> a = i then part t b
      else if c = i \<and> a \<in> set (chl i) then [] else pend w (a, c, TAG_REDUCE))" for a c
    using up up_quiet(1) unfolding r(10,11) by (cases "par i") (auto simp: engaged_0)
  have red: "reducing ph ?\<sigma> c = reducing ph \<sigma> c" for c using i(4) by (simp add: reducing_def)
  have edge: "par c = Some q \<and> c \<noteq> q" if "0 \<le> q" "q < n" "c \<in> set (chl q)" for q c
    using rank_tree.child_bounds [OF tree(1) that] by auto
  have bz: "engaged ph ?\<sigma> (pend w') q c = engaged ph \<sigma> (pend w) q c"
    if "0 \<le> q" "q < n" "c \<in> set (chl q)" "c \<notin> insert i D" for q c
  proof -
    have "c \<noteq> i" "q \<noteq> i" "par i = Some q \<Longrightarrow> q \<noteq> i" "\<not> (par i = Some c \<and> q = i)" using that cD by auto
    then show ?thesis unfolding engaged_def red pw' using edge [OF that(1-3)] that by auto
  qed
  have "reduce_net n chl ?T ?X ph (insert i D) ?\<sigma> (pend w')"
  proof (rule reduce_netI, goal_cases)
    case 1
    show ?case using D(1) i by simp
  next
    case (2 j)
    then show ?case using cD D(2) [of j] i(4) reduce_netD(3) [OF net, of j] by auto
  next
    case (3 q c)
    then show ?case by (rule reduce_netD(4) [OF net])
  next
    case (4 q c)
    note e = edge [OF 4(1-3)]
    show ?case
    proof (cases "c = i")
      case True
      with e up up_quiet(1) 4 show ?thesis unfolding pw' by (auto simp: engaged_0)
    next
      case False
      with 4 have c: "c \<in> D" by simp
      have no: "\<not> (par i = Some c \<and> q = i)" using up 4 c by auto
      show ?thesis
        using False e no c cD 4(3) reduce_netD(5,6) [OF net 4(1-3) c] unfolding pw' by auto
    qed
  next
    case (5 q c)
    have "c \<noteq> i" "c \<notin> D" "q \<noteq> i" using 5 cD by auto
    then show ?case
      using bz [OF 5] reduce_netD(7,8) [OF net 5(1-3)] unfolding pw' by auto
  next
    case (6 q)
    have "(\<Sum>c\<in>set (chl q) - insert i D. engaged ph ?\<sigma> (pend w') q c) = (\<Sum>c\<in>set (chl q) - insert i D. engaged ph \<sigma> (pend w) q c)"
      by (rule sum.cong) (use bz 6 in auto)
    also have "\<dots> = (\<Sum>c\<in>set (chl q) - D. engaged ph \<sigma> (pend w) q c)"
    proof (cases "i \<in> set (chl q)")
      case True
      have eq: "set (chl q) - insert i D = set (chl q) - D - {i}" by auto
      from True edge [OF 6(1,2) True] have "engaged ph \<sigma> (pend w) q i = 0" by (intro up_quiet) simp
      moreover have "(\<Sum>c\<in>set (chl q) - D. engaged ph \<sigma> (pend w) q c)
          = engaged ph \<sigma> (pend w) q i + (\<Sum>c\<in>set (chl q) - D - {i}. engaged ph \<sigma> (pend w) q c)"
        by (rule sum.remove) (use True i(3) in simp_all)
      ultimately show ?thesis unfolding eq by simp
    next
      case False
      then have eq: "set (chl q) - insert i D = set (chl q) - D" by blast
      show ?thesis unfolding eq ..
    qed
    finally show ?case using reduce_netD(9) [OF net 6(1,2)] 6(3) by (simp add: waiting_def red)
  qed
  moreover have "sync_result par dat own h fin ?T ?X (insert i D) ?\<sigma>"
    unfolding sync_result_def
  proof (intro conjI)
    show "\<forall>c \<in> insert i D. dat (?X c)" using X r(5) by simp
    let ?f = "\<lambda>j. local_objects_processed (\<sigma> j)" and ?g = "\<lambda>j. h (own (user (circ (\<sigma> j))))"
    have "?f j = local_objects_processed (?\<sigma> j)" for j using r(2) by simp
    moreover have "sum ?T (front par (insert i D)) = sum ?f (insert i D)"
      using r(8) res by (intro rank_tree.frontier_sum [OF tree(1) D(1) Dc i(1-3) cD]) (simp_all add: sync_result_def)
    ultimately show "sum ?T (front par (insert i D)) = (\<Sum>j\<in>insert i D. local_objects_processed (?\<sigma> j))"
      by simp
    have "sum ((\<lambda>c. h (X c))(i := h b)) (front par (insert i D)) = sum ?g (insert i D)"
      using r(7) res by (intro rank_tree.frontier_sum [OF tree(1) D(1) Dc i(1-3) cD]) (simp_all add: sync_result_def)
    moreover have "(\<lambda>c. h (X c))(i := h b) = (\<lambda>c. h (?X c))" by auto
    moreover have "?g j = h (own (user (circ (?\<sigma> j))))" for j using own by simp
    ultimately show "(\<Sum>j\<in>front par (insert i D). h (?X j)) = (\<Sum>j\<in>insert i D. h (own (user (circ (?\<sigma> j)))))"
      by simp
    have "par 0 = None" using rank_tree.par_root [OF tree(1)] .
    then show "0 \<in> insert i D \<longrightarrow> fst (snd (local_reduce_buf (?\<sigma> 0))) = ?T 0 \<and> (\<exists>c. circ (?\<sigma> 0) = fin (?X 0) (with_data (?X 0) c))"
      using res r(1,6) by (auto simp: sync_result_def)
  qed
  ultimately show "\<exists>T X. reduce_net n chl T X ph (insert i D) ?\<sigma> (pend w') \<and> sync_result par dat own h fin T X (insert i D) ?\<sigma>"
    by blast
qed

text \<open>When the root is done, it has the total and the combination of the data of all processes.\<close>

lemma root_result:
  assumes tree: "rank_tree n par chl" and net: "reduce_net n chl T X ph D \<sigma> p" and res: "sync_result par dat own h fin T X D \<sigma>"
    and root: "0 \<in> D"
  shows "D = {0..<n}" "fst (snd (local_reduce_buf (\<sigma> 0))) = (\<Sum>i\<in>{0..<n}. local_objects_processed (\<sigma> i))"
    "\<exists>x c. circ (\<sigma> 0) = fin x (with_data x c) \<and> dat x \<and> h x = (\<Sum>i\<in>{0..<n}. h (own (user (circ (\<sigma> i)))))"
proof -
  have D: "D \<subseteq> {0..<n}" "\<forall>j \<in> D. set (chl j) \<subseteq> D" using reduce_netD(1,2) [OF net] by blast+
  note d = rank_tree.root_done [OF tree root D]
  show "D = {0..<n}" by (rule d(1))
  show "fst (snd (local_reduce_buf (\<sigma> 0))) = (\<Sum>i\<in>{0..<n}. local_objects_processed (\<sigma> i))"
    using res root d by (simp add: sync_result_def)
  show "\<exists>x c. circ (\<sigma> 0) = fin x (with_data x c) \<and> dat x \<and> h x = (\<Sum>i\<in>{0..<n}. h (own (user (circ (\<sigma> i)))))"
    using res root d by (auto simp: sync_result_def)
qed

text \<open>The final reduction alone, from any states.\<close>

lemma sync_steps_net:
  assumes tree: "rank_tree n par chl" "spans n par chl \<sigma>0" and cb: "reduces_with E cb dat own comb fin" and h: "measures dat h comb"
    and run: "(sync_step E M cb n)\<^sup>*\<^sup>* ({}, \<sigma>0, w0) (D, \<sigma>, w)" and p: "\<forall>a b. pend w0 (a, b, TAG_REDUCE) = []"
  shows "(\<exists>T X. reduce_net n chl T X (\<lambda>_. Finished) D \<sigma> (pend w) \<and> sync_result par dat own h fin T X D \<sigma>) \<and> spans n par chl \<sigma>
    \<and> (\<forall>j. local_objects_processed (\<sigma> j) = local_objects_processed (\<sigma>0 j) \<and> own (user (circ (\<sigma> j))) = own (user (circ (\<sigma>0 j))))"
  using run
proof (induction "(D, \<sigma>, w)" arbitrary: D \<sigma> w rule: rtranclp_induct)
  case base
  have "reduce_net n chl T X (\<lambda>_. Finished) {} \<sigma>0 (pend w0)" for T X
  proof (rule net_start [OF p])
    show "0 \<le> c \<and> c < n \<and> Finished = Finished" if "0 \<le> q" "q < n" "c \<in> set (chl q)" for q c
      using rank_tree.child_bounds [OF tree(1) that] that by simp
  qed (simp add: reducing_def)
  with tree(2) show ?case by simp
next
  case (step c)
  obtain D1 \<sigma>1 w1 where c: "c = (D1, \<sigma>1, w1)" by (cases c)
  from step.hyps(3) [OF c] obtain T X where net: "reduce_net n chl T X (\<lambda>_. Finished) D1 \<sigma>1 (pend w1)"
    and res: "sync_result par dat own h fin T X D1 \<sigma>1" and sp: "spans n par chl \<sigma>1"
    and same: "\<forall>j. local_objects_processed (\<sigma>1 j) = local_objects_processed (\<sigma>0 j) \<and> own (user (circ (\<sigma>1 j))) = own (user (circ (\<sigma>0 j)))"
    by blast
  from step.hyps(2) [unfolded c] show ?case
  proof cases
    case (sync i s')
    note e = sync_net [where \<sigma> = \<sigma>1 and i = i and ph = "\<lambda>_. Finished" and w = w1 and s' = s' and w' = w, OF tree(1) sp cb h net res sync(3-5) refl sync(6)]
    have "spans n par chl (\<sigma>1(i := s'))" using sp e(4,5) by (simp add: spans_def)
    with e(1-3) same show ?thesis unfolding sync(1,2) by auto
  qed
qed

lemma final_total:
  assumes tree: "rank_tree n par chl" and "spans n par chl \<sigma>0" "reduces_with E cb dat own comb fin" "measures dat h comb"
    "(sync_step E M cb n)\<^sup>*\<^sup>* ({}, \<sigma>0, w0) (D, \<sigma>, w)" "\<forall>a b. pend w0 (a, b, TAG_REDUCE) = []" and root: "0 \<in> D"
  shows "D = {0..<n}" "fst (snd (local_reduce_buf (\<sigma> 0))) = (\<Sum>i\<in>{0..<n}. local_objects_processed (\<sigma>0 i))"
    "\<exists>x c. circ (\<sigma> 0) = fin x (with_data x c) \<and> dat x \<and> h x = (\<Sum>i\<in>{0..<n}. h (own (user (circ (\<sigma>0 i)))))"
proof -
  obtain T X where net: "reduce_net n chl T X (\<lambda>_. Finished) D \<sigma> (pend w)" and res: "sync_result par dat own h fin T X D \<sigma>"
    and same: "\<forall>j. local_objects_processed (\<sigma> j) = local_objects_processed (\<sigma>0 j) \<and> own (user (circ (\<sigma> j))) = own (user (circ (\<sigma>0 j)))"
    using sync_steps_net [OF assms(1-6)] by blast
  note r = root_result [OF tree net res root]
  show "D = {0..<n}" by (rule r(1))
  show "fst (snd (local_reduce_buf (\<sigma> 0))) = (\<Sum>i\<in>{0..<n}. local_objects_processed (\<sigma>0 i))"
    "\<exists>x c. circ (\<sigma> 0) = fin x (with_data x c) \<and> dat x \<and> h x = (\<Sum>i\<in>{0..<n}. h (own (user (circ (\<sigma>0 i)))))"
    using r(2,3) same by simp_all
qed

end

section \<open>An example\<close>

text \<open>The two processes of the example have processed 5 and 7 objects; each brings the byte 3,
  and the bytes are added.\<close>

definition adding_callbacks :: "unit callbacks" where
  "adding_callbacks = demo_callbacks\<lparr>
     reduceInitCallback := Some (\<lambda>c. Inr (reduce demo_env [3] c)),
     reduceOperationCallback := Some (\<lambda>c b1 n1 b2 n2.
       Inr (reduce demo_env [List.hd (the b1) + List.hd (the b2)] c))\<rparr>"

lemma adding_reduces:
  "reduces_with demo_env adding_callbacks sized (\<lambda>_. [3]) (\<lambda>x y. [List.hd x + List.hd y]) (\<lambda>_ c. c)"
  by (simp add: reduces_with_def adding_callbacks_def demo_callbacks_def sized_def demo_env_def INT_MAX_def)

lemma adding_measures: "measures sized List.hd (\<lambda>x y. [List.hd x + List.hd y])"
  by (simp add: measures_def)

definition total_state :: "int \<Rightarrow> unit state" where
  "total_state i = (demo_state i)\<lparr>local_objects_processed := (if i = 0 then 5 else 7)\<rparr>"

definition sync_of :: "int \<Rightarrow> int set \<times> (int \<Rightarrow> unit state) \<times> fifo \<Rightarrow> int set \<times> (int \<Rightarrow> unit state) \<times> fifo" where
  "sync_of i c = (case c of (D, \<sigma>, w) \<Rightarrow>
     (case projr (reduceSync demo_env fifo_mpi adding_callbacks (local_objects_processed (\<sigma> i)) (\<sigma> i) w) of
       (s, w) \<Rightarrow> (insert i D, \<sigma>(i := s), w)))"

lemma sync_of_step:
  assumes "0 \<le> i" "i < 2" "i \<notin> D"
    "\<not> isl (reduceSync demo_env fifo_mpi adding_callbacks (local_objects_processed (\<sigma> i)) (\<sigma> i) w)"
  shows "sync_step demo_env fifo_mpi adding_callbacks 2 (D, \<sigma>, w) (sync_of i (D, \<sigma>, w))"
proof -
  obtain s' w' where r: "reduceSync demo_env fifo_mpi adding_callbacks (local_objects_processed (\<sigma> i)) (\<sigma> i) w = Inr (s', w')"
    using assms(4) unfolding isl_def by (metis sumE prod.exhaust)
  from sync_step.sync [where \<sigma> = \<sigma> and i = i and cb = adding_callbacks, OF assms(1-3) r] r show ?thesis by (simp add: sync_of_def)
qed

definition sync_end :: "int set \<times> (int \<Rightarrow> unit state) \<times> fifo" where
  "sync_end = sync_of 0 (sync_of 1 ({}, total_state, fifo_new 2))"

lemma sync_run: "(sync_step demo_env fifo_mpi adding_callbacks 2)\<^sup>*\<^sup>* ({}, total_state, fifo_new 2) sync_end"
proof -
  obtain D1 \<sigma>1 w1 where c1: "sync_of 1 ({}, total_state, fifo_new 2) = (D1, \<sigma>1, w1)" by (rule prod_cases3)
  have "\<not> isl (reduceSync demo_env fifo_mpi adding_callbacks (local_objects_processed (total_state 1)) (total_state 1) (fifo_new 2))"
    by code_simp
  then have one: "sync_step demo_env fifo_mpi adding_callbacks 2 ({}, total_state, fifo_new 2) (D1, \<sigma>1, w1)"
    using sync_of_step [of 1 "{}" total_state "fifo_new 2"] c1 by simp
  have "case sync_of 1 ({}, total_state, fifo_new 2) of (D, \<sigma>, w) \<Rightarrow> 0 \<notin> D
      \<and> \<not> isl (reduceSync demo_env fifo_mpi adding_callbacks (local_objects_processed (\<sigma> 0)) (\<sigma> 0) w)"
    by code_simp
  then have "sync_step demo_env fifo_mpi adding_callbacks 2 (D1, \<sigma>1, w1) (sync_of 0 (D1, \<sigma>1, w1))"
    using sync_of_step [of 0 D1 \<sigma>1 w1] c1 by simp
  with one show ?thesis by (simp add: sync_end_def c1)
qed

lemma total_spans: "spans 2 (kary_parent 64) (kary_children 64 2) total_state"
  using start_spans [OF demo_starts demo_env_ok demo_tree] by (simp add: spans_def total_state_def)

end
