(* ===== verification/Circle_Background.thy ===== *)
theory Circle_Background
  imports Circle_Total
begin

text \<open>
  The background reduction, as a protocol.  \<open>reduceCheck\<close> keeps the invariant of
  \<open>reduce_net\<close>: between a process and its child there is at most one request, one reduction in
  progress or one reply, and the process waits for exactly the children it has asked and not
  heard from.  The rest of the program does not touch it.
\<close>

section \<open>Steps that leave reductions alone\<close>

definition reduction_same ::
  "(int \<Rightarrow> 'u state) \<Rightarrow> (channel \<Rightarrow> payload list) \<Rightarrow> (int \<Rightarrow> 'u state) \<Rightarrow> (channel \<Rightarrow> payload list) \<Rightarrow> bool" where
  "reduction_same \<sigma> p \<sigma>' p' \<longleftrightarrow> (\<forall>j. undisturbed (\<sigma> j) (\<sigma>' j)) \<and> (\<forall>a b. p' (a, b, TAG_REDUCE) = p (a, b, TAG_REDUCE))"

lemma transfer_same:
  assumes "transfer n \<sigma> p \<sigma>' p'"
  shows "reduction_same \<sigma> p \<sigma>' p'"
  using assms
proof cases
  case idle
  then show ?thesis by (simp add: reduction_same_def)
next
  case (served i D xs g q oc sd)
  then show ?thesis
    by (auto simp: reduction_same_def undisturbed_def after_replies_def requests_taken_def serve_update_def set_queue_def)
next
  case (receipted i wo tf)
  have "p' (a, b, TAG_REDUCE) = p (a, b, TAG_REDUCE)" for a b
    by (rule only_channelsD [OF receipted(5)]) auto
  then show ?thesis unfolding receipted(1) by (simp add: reduction_same_def undisturbed_def)
next
  case (asking i s')
  from asking(5) show ?thesis unfolding asking(1)
    by cases (auto simp: reply_from_def reduction_same_def undisturbed_def set_queue_def)
qed

lemma token_same:
  assumes "s' = token_update lc tb tp tr (\<sigma> i)" "\<And>a b t. t \<noteq> TAG_TOKEN \<Longrightarrow> p' (a, b, t) = p (a, b, t)"
  shows "reduction_same \<sigma> p (\<sigma>(i := s')) p'"
  using assms(2) unfolding assms(1) by (simp add: reduction_same_def undisturbed_def token_update_def)

lemma process_same:
  assumes "process_one cb (\<sigma> i) = Inr s'"
  shows "reduction_same \<sigma> p (\<sigma>(i := s')) p"
  using assms by (auto simp: process_one_def reduction_same_def undisturbed_def elim!: bind_res_InrE)

lemma reduction_same_trans: "reduction_same \<sigma> p \<sigma>1 p1 \<Longrightarrow> reduction_same \<sigma>1 p1 \<sigma>2 p2 \<Longrightarrow> reduction_same \<sigma> p \<sigma>2 p2"
  unfolding reduction_same_def by (metis undisturbed_trans)

lemma net_cong:
  assumes "reduction_same \<sigma> p \<sigma>' p'"
  shows "reduce_net n chl T X ph D \<sigma>' p' = reduce_net n chl T X ph D \<sigma> p"
proof -
  have "p' (a, b, TAG_REDUCE) = p (a, b, TAG_REDUCE)" "reducing ph \<sigma>' j = reducing ph \<sigma> j"
    "reduce_replies (\<sigma>' j) = reduce_replies (\<sigma> j)" for a b j
    using assms by (simp_all add: reduction_same_def undisturbed_def reducing_def)
  then show ?thesis unfolding reduce_net_def engaged_def waiting_def by simp
qed

context mpi_laws
begin

lemma ring_step_same:
  assumes E: "env_ok E n" and pr: "proto n \<sigma> (pend w)" and st: "ring_step E M cb n (\<sigma>, w) (\<sigma>', w')"
  shows "reduction_same \<sigma> (pend w) \<sigma>' (pend w')"
  using st unfolding ring_step_def work_step_rel_def
proof (elim disjE)
  assume "exchange_step E M n (\<sigma>, w) (\<sigma>', w')"
  then show ?thesis by (rule transfer_same [OF exchange_transfer [OF E pr]])
next
  assume "process_step cb n (\<sigma>, w) (\<sigma>', w')"
  then show ?thesis by cases (auto intro: process_same)
next
  assume "token_step E M n (\<sigma>, w) (\<sigma>', w')"
  then show ?thesis
  proof cases
    case (check i rc s1 w1 st s')
    let ?\<sigma> = "\<sigma>(i := s1)"
    have ex: "exchange_step E M n (\<sigma>, w) (?\<sigma>, w1)"
      by (rule exchange_step.request [where cleanup = False]) (use check in simp_all)
    have ck: "checkForTerm M (?\<sigma> i) w1 = Inr (st, s', w')" using check(7) by simp
    obtain lc tb tp tr where s': "s' = token_update lc tb tp tr (?\<sigma> i)"
      using checkForTerm_frame(1) [OF ck] by blast
    have "reduction_same ?\<sigma> (pend w1) (?\<sigma>(i := s')) (pend w')"
      by (rule token_same [where \<sigma> = ?\<sigma> and i = i and p = "pend w1" and p' = "pend w'", OF s' checkForTerm_frame(2) [OF ck]])
    then show ?thesis using reduction_same_trans [OF transfer_same [OF exchange_transfer [OF E pr ex]]] check(1) by simp
  next
    case (drain i s')
    obtain lc tb tp tr where s': "s' = token_update lc tb tp tr (\<sigma> i)" using drain_frame(1) [OF drain(5)] by blast
    show ?thesis unfolding drain(1)
      by (rule token_same [where \<sigma> = \<sigma> and i = i and p = "pend w" and p' = "pend w'", OF s' drain_frame(2) [OF drain(5)]])
  qed
qed

end

section \<open>A change at one process\<close>

lemma net_change:
  assumes tree: "rank_tree n par chl" and net: "reduce_net n chl T X ph D \<sigma> p" and i: "0 \<le> i" "i < n" "ph i \<noteq> Finished"
    and far: "\<And>a b. a \<noteq> i \<Longrightarrow> b \<noteq> i \<Longrightarrow> p' (a, b, TAG_REDUCE) = p (a, b, TAG_REDUCE)"
    and kids: "\<And>c. c \<in> set (chl i) \<Longrightarrow> engaged ph \<sigma> p' i c \<le> 1 \<and> (p' (c, i, TAG_REDUCE) = [] \<or> reply (p' (c, i, TAG_REDUCE)))"
    and up: "\<And>q. par i = Some q \<Longrightarrow> engaged ph (\<sigma>(i := s')) p' q i = engaged ph \<sigma> p q i
      \<and> (p' (i, q, TAG_REDUCE) = [] \<or> reply (p' (i, q, TAG_REDUCE)))"
    and wait: "int (\<Sum>c\<in>set (chl i). engaged ph \<sigma> p' i c) = waiting chl ph (\<sigma>(i := s')) i"
  shows "reduce_net n chl T X ph D (\<sigma>(i := s')) p'"
proof -
  let ?\<sigma> = "\<sigma>(i := s')"
  have iD: "i \<notin> D" using reduce_netD(3) [OF net] i(3) by blast
  have cD: "c \<notin> D" "c \<noteq> i" if "c \<in> set (chl i)" for c
    using reduce_netD(3,4) [OF net] i that rank_tree.child_bounds [OF tree i(1,2) that] by blast+
  have edge: "par c = Some q" "c \<noteq> q" if "0 \<le> q" "q < n" "c \<in> set (chl q)" for q c
    using rank_tree.child_bounds [OF tree that] by auto
  have red: "reducing ph ?\<sigma> c = reducing ph \<sigma> c" if "c \<noteq> i" for c using that by (simp add: reducing_def)
  have same: "engaged ph ?\<sigma> p' q c = engaged ph \<sigma> p q c" if "q \<noteq> i" "c \<noteq> i" for q c
    using that far by (simp add: engaged_def red)
  have own: "engaged ph ?\<sigma> p' i c = engaged ph \<sigma> p' i c" if "c \<in> set (chl i)" for c
    using cD(2) [OF that] by (simp add: engaged_def red)
  have other: "engaged ph ?\<sigma> p' q c = engaged ph \<sigma> p q c" if "0 \<le> q" "q < n" "c \<in> set (chl q)" "q \<noteq> i" for q c
    using same [OF that(4)] up edge(1) [OF that(1-3)] by (cases "c = i") auto
  show ?thesis
  proof (rule reduce_netI, goal_cases)
    case 1
    show ?case by (rule reduce_netD(1) [OF net])
  next
    case (2 j)
    then show ?case using reduce_netD(2,3) [OF net] by blast
  next
    case (3 q c)
    then show ?case by (rule reduce_netD(4) [OF net])
  next
    case (4 q c)
    then have "q \<noteq> i" "c \<noteq> i" using cD iD by blast+
    with reduce_netD(5,6) [OF net 4] far show ?case by simp
  next
    case (5 q c)
    show ?case
    proof (cases "q = i")
      case True
      with kids own 5(3) show ?thesis by simp
    next
      case False
      have "p' (c, q, TAG_REDUCE) = [] \<or> reply (p' (c, q, TAG_REDUCE))"
        using False up edge(1) [OF 5(1-3)] far reduce_netD(8) [OF net 5] by (cases "c = i") auto
      with other [OF 5(1-3) False] reduce_netD(7) [OF net 5] show ?thesis by simp
    qed
  next
    case (6 q)
    show ?case
    proof (cases "q = i")
      case True
      have eq: "set (chl i) - D = set (chl i)" using cD(1) by blast
      have "(\<Sum>c\<in>set (chl i). engaged ph ?\<sigma> p' i c) = (\<Sum>c\<in>set (chl i). engaged ph \<sigma> p' i c)"
        by (rule sum.cong) (use own in auto)
      with wait show ?thesis unfolding True eq by simp
    next
      case False
      have "(\<Sum>c\<in>set (chl q) - D. engaged ph ?\<sigma> p' q c) = (\<Sum>c\<in>set (chl q) - D. engaged ph \<sigma> p q c)"
        by (rule sum.cong) (use other 6 False in auto)
      with reduce_netD(9) [OF net 6] False show ?thesis by (simp add: waiting_def red)
    qed
  qed
qed

section \<open>The parts of a reduction\<close>

definition keeps_place :: "'u state \<Rightarrow> 'u state \<Rightarrow> bool" where
  "keeps_place s s' \<longleftrightarrow> rank s' = rank s \<and> tree s' = tree s \<and> reduce_outstanding s' = reduce_outstanding s"

lemma keeps_place_refl [simp]: "keeps_place s s"
  by (simp add: keeps_place_def)

context mpi_laws
begin

lemma reduce_operation_frame:
  assumes "reduce_operation cb b k s = Inr s'"
  shows "\<exists>c. s' = s\<lparr>circ := c\<rparr>"
  using assms by (auto simp: reduce_operation_def elim!: bind_res_InrE split: option.splits) (metis state.surjective state.update_convs(1))

lemma reduce_init_frame:
  assumes "reduce_init cb s = Inr s'"
  shows "\<exists>c. s' = s\<lparr>circ := c\<rparr>"
  using assms by (auto simp: reduce_init_def elim!: bind_res_InrE split: option.splits) (metis state.surjective state.update_convs(1))

lemma reduce_finalize_frame:
  assumes "reduce_finalize cb s = Inr s'"
  shows "\<exists>c. s' = s\<lparr>circ := c\<rparr>"
  using assms by (auto simp: reduce_finalize_def elim!: bind_res_InrE split: option.splits) (metis state.surjective state.update_convs(1))

text \<open>The reply to the parent.\<close>

lemma send_partial_reply:
  assumes "send_partial M (\<lambda>v. v = MSG_VALID) q s w = Inr (s', w')"
  shows "\<exists>r l. reply r \<and> s' = s\<lparr>local_reduce_buf := l\<rparr>
    \<and> pend w' = (pend w)((rank s, q, TAG_REDUCE) := pend w (rank s, q, TAG_REDUCE) @ r)"
proof -
  obtain v tot b where l: "local_reduce_buf s = (v, tot, b)" by (rule prod_cases3)
  let ?n = "to_int32 (reduce_buf_size (circ s))" and ?k = "(rank s, q, TAG_REDUCE)"
  let ?s = "s\<lparr>local_reduce_buf := (v, tot, ?n)\<rparr>"
  obtain w1 where w1: "send M (rank s) q TAG_REDUCE (Longs [v, tot, ?n]) w = Inr w1"
    and rest: "(if ?n > 0 \<and> v = MSG_VALID then bind_res (send_user_data M q ?n ?s w1) (\<lambda>w. Inr (?s, w)) else Inr (?s, w1)) = Inr (s', w')"
    using assms l unfolding send_partial_def Let_def by (auto simp del: MSG_VALID_def elim!: bind_res_InrE)
  note p1 = send_Inr [OF w1]
  show ?thesis
  proof (cases "?n > 0 \<and> v = MSG_VALID")
    case True
    then obtain x where x: "send M (rank s) q TAG_REDUCE (Bytes x) w1 = Inr w'" "s' = ?s"
      using rest unfolding send_user_data_def
      by (auto simp del: MSG_VALID_def simp: guard_res_def split: option.splits if_splits elim!: bind_res_InrE)
    have "?n \<le> INT_MAX"
      using mod_less_divisor [of 4294967296 "reduce_buf_size (circ s)"]
      by (simp add: to_int32_def Let_def to_u32_def INT_MAX_def del: mod_less_divisor)
    then have "reply [Longs [v, tot, ?n], Bytes x]"
      using True by (auto simp: reply_def to_size_def INT_MAX_def)
    moreover have "pend w' = (pend w)(?k := pend w ?k @ [Longs [v, tot, ?n], Bytes x])"
      using send_Inr [OF x(1)] p1 by simp
    ultimately show ?thesis using x(2) by blast
  next
    case False
    then have "s' = ?s" "w' = w1" using rest by auto
    moreover have "reply [Longs [v, tot, ?n]]" by (auto simp: reply_def)
    ultimately show ?thesis using p1 by blast
  qed
qed

text \<open>The reply of a child: nothing happens, or it is taken whole.\<close>

lemma recv_user_data_rest:
  assumes "recv_user_data E M me c sz w = Inr (x, w')"
  shows "if to_size sz > 0 then \<exists>y ys. pend w (c, me, TAG_REDUCE) = y # ys \<and> pend w' = (pend w)((c, me, TAG_REDUCE) := ys)
    else pend w' = pend w"
proof (cases "to_size sz > 0")
  case True
  then obtain y w1 where "recv M me c TAG_REDUCE w = Inr (y, w1)" "w1 = w'"
    using assms unfolding recv_user_data_def Let_def
    by (auto simp: guard_res_def split: if_splits elim!: bind_res_InrE)
  with True show ?thesis by (auto elim!: recv_Inr)
next
  case False
  with assms show ?thesis by (simp add: recv_user_data_def)
qed

lemma reduce_child_effect:
  assumes run: "reduce_child E M cb c s w = Inr (s', w')"
    and p: "pend w (c, rank s, TAG_REDUCE) = [] \<or> reply (pend w (c, rank s, TAG_REDUCE))"
  shows "s' = s \<and> pend w' = pend w
    \<or> pend w (c, rank s, TAG_REDUCE) \<noteq> [] \<and> pend w' = (pend w)((c, rank s, TAG_REDUCE) := [])
      \<and> keeps_place s s' \<and> reduce_replies s' = reduce_replies s + 1"
proof -
  let ?k = "(c, rank s, TAG_REDUCE)"
  obtain r w1 where probe: "MPI_Iprobe M (rank s) (Some c) TAG_REDUCE w = (r, w1)" by fastforce
  show ?thesis
  proof (cases r)
    case None
    with run probe iprobe_pend [OF probe] show ?thesis by (simp add: reduce_child_def)
  next
    case (Some st)
    obtain v tot b where l: "local_reduce_buf s = (v, tot, b)" by (rule prod_cases3)
    from run probe Some obtain x w2 valid cnt sz where
      x: "recv M (rank s) c TAG_REDUCE w1 = Inr (x, w2)" "as_longs3 x = Inr (valid, cnt, sz)" and
      rest: "(if valid = MSG_INVALID then Inr (s\<lparr>reduce_replies := reduce_replies s + 1, local_reduce_buf := (MSG_INVALID, tot, b)\<rparr>, w2)
        else bind_res (recv_user_data E M (rank s) c sz w2) (\<lambda>(inbuf, w).
          bind_res (if v = MSG_VALID then reduce_operation cb inbuf (to_size sz)
              (s\<lparr>reduce_replies := reduce_replies s + 1, local_reduce_buf := (v, tot + cnt, b)\<rparr>)
            else Inr (s\<lparr>reduce_replies := reduce_replies s + 1, local_reduce_buf := (v, tot + cnt, b)\<rparr>)) (\<lambda>s. Inr (s, w)))) = Inr (s', w')"
      unfolding reduce_child_def Let_def l
      by (auto simp: l simp del: MSG_VALID_def MSG_INVALID_def cong: if_cong elim!: bind_res_InrE)
    from x(1) obtain xs where xs: "pend w1 ?k = x # xs" "pend w2 = (pend w1)(?k := xs)" by (rule recv_Inr)
    have pw: "pend w1 = pend w" by (rule iprobe_pend [OF probe])
    have hd: "x = Longs [valid, cnt, sz]" using x(2) by (cases x rule: as_longs3.cases) auto
    have "reply (x # xs)" using p xs(1) pw by simp
    then have shape: "xs = [] \<or> valid \<noteq> MSG_INVALID \<and> to_size sz > 0 \<and> (\<exists>y. xs = [Bytes y])"
      unfolding reply_def hd by auto
    show ?thesis
    proof (cases "valid = MSG_INVALID")
      case True
      with rest have "s' = s\<lparr>reduce_replies := reduce_replies s + 1, local_reduce_buf := (MSG_INVALID, tot, b)\<rparr>" "w' = w2"
        by auto
      with True shape xs pw show ?thesis by (simp add: keeps_place_def)
    next
      case False
      with rest obtain y w3 where y: "recv_user_data E M (rank s) c sz w2 = Inr (y, w3)" and
        op: "(if v = MSG_VALID then reduce_operation cb y (to_size sz)
              (s\<lparr>reduce_replies := reduce_replies s + 1, local_reduce_buf := (v, tot + cnt, b)\<rparr>)
            else Inr (s\<lparr>reduce_replies := reduce_replies s + 1, local_reduce_buf := (v, tot + cnt, b)\<rparr>)) = Inr s'" "w' = w3"
        by (auto simp del: MSG_VALID_def MSG_INVALID_def elim!: bind_res_InrE)
      have "keeps_place s s' \<and> reduce_replies s' = reduce_replies s + 1"
        using op(1) by (auto simp: keeps_place_def dest!: reduce_operation_frame split: if_splits)
      moreover have "pend w' = (pend w)(?k := [])"
        using recv_user_data_rest [OF y] shape xs pw op(2) by (auto split: if_splits)
      ultimately show ?thesis using xs(1) pw by simp
    qed
  qed
qed

text \<open>A request of the parent.\<close>

lemma reduce_start_effect:
  assumes "reduce_start M cleanup now s w = Inr (b, w')"
  shows "if b then (case getParentRank (tree s) of None \<Rightarrow> pend w' = pend w
      | Some q \<Rightarrow> \<exists>x xs. pend w (q, rank s, TAG_REDUCE) = x # xs \<and> pend w' = (pend w)((q, rank s, TAG_REDUCE) := xs))
    else pend w' = pend w"
proof (cases "now \<ge> reduce_time_last s + reduce_time_interval s \<or> cleanup")
  case time: True
  show ?thesis
  proof (cases "getParentRank (tree s)")
    case None
    with assms time show ?thesis by (simp add: reduce_start_def)
  next
    case (Some q)
    obtain r w1 where probe: "MPI_Iprobe M (rank s) (Some q) TAG_REDUCE w = (r, w1)" by fastforce
    show ?thesis
    proof (cases r)
      case None
      with assms time Some probe iprobe_pend [OF probe] show ?thesis by (simp add: reduce_start_def)
    next
      case (Some st)
      with assms time \<open>getParentRank (tree s) = Some q\<close> probe obtain x where
        x: "recv M (rank s) q TAG_REDUCE w1 = Inr (x, w')" "b"
        by (auto simp: reduce_start_def elim!: bind_res_InrE)
      with iprobe_pend [OF probe] \<open>getParentRank (tree s) = Some q\<close> show ?thesis by (auto elim!: recv_Inr)
    qed
  qed
next
  case False
  with assms show ?thesis by (simp add: reduce_start_def)
qed

end

section \<open>One run of \<open>reduceCheck\<close>\<close>

text \<open>A child's reply is taken.\<close>

lemma net_child:
  assumes tree: "rank_tree n par chl" and net: "reduce_net n chl T X ph D (\<sigma>(i := s)) p"
    and i: "0 \<le> i" "i < n" "ph i \<noteq> Finished" and c: "c \<in> set (chl i)" and ne: "p (c, i, TAG_REDUCE) \<noteq> []"
    and out: "reduce_outstanding s" "reduce_outstanding s'" "reduce_replies s' = reduce_replies s + 1"
  shows "reduce_net n chl T X ph D (\<sigma>(i := s')) (p((c, i, TAG_REDUCE) := []))"
proof -
  let ?\<sigma> = "\<sigma>(i := s)" and ?p = "p((c, i, TAG_REDUCE) := [])"
  have bounds: "i < d" "d < n" "par d = Some i" if "d \<in> set (chl i)" for d
    using rank_tree.child_bounds [OF tree i(1,2) that] by auto
  have D: "d \<notin> D" if "d \<in> set (chl i)" for d using reduce_netD(3,4) [OF net] i that by blast
  have iD: "i \<notin> D" using reduce_netD(3) [OF net] i(3) by blast
  have one: "engaged ph ?\<sigma> p i c = 1" using reduce_netD(7) [OF net i(1,2) c D [OF c]] ne by (simp add: engaged_def)
  have zero: "engaged ph ?\<sigma> ?p i c = 0"
    using one ne bounds(1) [OF c] unfolding engaged_def by (auto split: if_splits)
  have oth: "engaged ph ?\<sigma> ?p i d = engaged ph ?\<sigma> p i d" if "d \<noteq> c" for d
    using that bounds(1) [OF c] by (auto simp: engaged_def)
  have rest: "(\<Sum>d\<in>set (chl i) - {c}. engaged ph ?\<sigma> ?p i d) = (\<Sum>d\<in>set (chl i) - {c}. engaged ph ?\<sigma> p i d)"
    by (rule sum.cong) (use oth in auto)
  have "(\<Sum>d\<in>set (chl i). engaged ph ?\<sigma> ?p i d) + 1 = (\<Sum>d\<in>set (chl i). engaged ph ?\<sigma> p i d)"
    using one zero rest by (simp add: sum.remove [OF finite_set c])
  moreover have "set (chl i) - D = set (chl i)" using D by blast
  then have "int (\<Sum>d\<in>set (chl i). engaged ph ?\<sigma> p i d) = int (length (chl i)) - reduce_replies s"
    using reduce_netD(9) [OF net i(1,2) iD] i(3) out(1) by (simp add: waiting_def reducing_def del: of_nat_sum)
  ultimately have sum: "int (\<Sum>d\<in>set (chl i). engaged ph ?\<sigma> ?p i d) = int (length (chl i)) - (reduce_replies s + 1)"
    by linarith
  have "reduce_net n chl T X ph D (?\<sigma>(i := s')) ?p"
  proof (rule net_change [where \<sigma> = ?\<sigma> and i = i and p' = ?p, OF tree net i])
    show "?p (a, b, TAG_REDUCE) = p (a, b, TAG_REDUCE)" if "a \<noteq> i" "b \<noteq> i" for a b using that by simp
    show "engaged ph ?\<sigma> ?p i d \<le> 1 \<and> (?p (d, i, TAG_REDUCE) = [] \<or> reply (?p (d, i, TAG_REDUCE)))"
      if d: "d \<in> set (chl i)" for d
      using reduce_netD(7,8) [OF net i(1,2) d D [OF d]] zero oth [of d] by (cases "d = c") auto
    show "engaged ph (?\<sigma>(i := s')) ?p q i = engaged ph ?\<sigma> p q i \<and> (?p (i, q, TAG_REDUCE) = [] \<or> reply (?p (i, q, TAG_REDUCE)))"
      if q: "par i = Some q" for q
    proof -
      have "0 \<le> q" "q < i" "i \<in> set (chl q)" using rank_tree.par_range [OF tree i(1,2) q] by auto
      moreover have "q \<noteq> c" using bounds(1) [OF c] \<open>q < i\<close> by simp
      ultimately show ?thesis
        using reduce_netD(8) [OF net _ _ _ iD, of q] i(2) out(1,2) bounds(1) [OF c] by (auto simp: engaged_def reducing_def)
    qed
    show "int (\<Sum>d\<in>set (chl i). engaged ph ?\<sigma> ?p i d) = waiting chl ph (?\<sigma>(i := s')) i"
      using sum out(2,3) i(3) by (simp add: waiting_def reducing_def del: of_nat_sum)
  qed
  then show ?thesis by simp
qed

text \<open>A process that is not past the barrier, and its neighbours in the tree.\<close>

lemma net_place:
  assumes tree: "rank_tree n par chl" and net: "reduce_net n chl T X ph D (\<sigma>(i := s)) p" and i: "0 \<le> i" "i < n" "ph i \<noteq> Finished"
  shows "d \<in> set (chl i) \<Longrightarrow> d \<notin> D \<and> i < d"
    "int (\<Sum>d\<in>set (chl i). engaged ph (\<sigma>(i := s)) p i d)
      = (if reduce_outstanding s then int (length (chl i)) - reduce_replies s else 0)"
    "d \<in> set (chl i) \<Longrightarrow> engaged ph (\<sigma>(i := s)) p i d \<le> 1"
    "d \<in> set (chl i) \<Longrightarrow> p (d, i, TAG_REDUCE) = [] \<or> reply (p (d, i, TAG_REDUCE))"
    "par i = Some q \<Longrightarrow> q < i" "par i = Some q \<Longrightarrow> engaged ph (\<sigma>(i := s)) p q i \<le> 1"
    "par i = Some q \<Longrightarrow> p (i, q, TAG_REDUCE) = [] \<or> reply (p (i, q, TAG_REDUCE))"
proof -
  have iD: "i \<notin> D" using reduce_netD(3) [OF net] i(3) by blast
  have D: "d \<notin> D \<and> i < d" if "d \<in> set (chl i)" for d
    using reduce_netD(3,4) [OF net] i that rank_tree.child_bounds [OF tree i(1,2) that] by blast
  then have eq: "set (chl i) - D = set (chl i)" by blast
  show "d \<in> set (chl i) \<Longrightarrow> d \<notin> D \<and> i < d" by (rule D)
  show "int (\<Sum>d\<in>set (chl i). engaged ph (\<sigma>(i := s)) p i d)
      = (if reduce_outstanding s then int (length (chl i)) - reduce_replies s else 0)"
    using reduce_netD(9) [OF net i(1,2) iD] i(3) unfolding eq by (simp add: waiting_def reducing_def)
  show "d \<in> set (chl i) \<Longrightarrow> engaged ph (\<sigma>(i := s)) p i d \<le> 1"
    "d \<in> set (chl i) \<Longrightarrow> p (d, i, TAG_REDUCE) = [] \<or> reply (p (d, i, TAG_REDUCE))"
    using reduce_netD(7,8) [OF net i(1,2)] D by blast+
  show "par i = Some q \<Longrightarrow> q < i" using rank_tree.par_range [OF tree i(1,2)] by blast
  have up: "0 \<le> q \<and> q < n \<and> i \<in> set (chl q)" if "par i = Some q"
    using rank_tree.par_range [OF tree i(1,2) that] i(2) by auto
  show "par i = Some q \<Longrightarrow> engaged ph (\<sigma>(i := s)) p q i \<le> 1"
    using reduce_netD(7) [OF net _ _ _ iD, of q] up by blast
  show "par i = Some q \<Longrightarrow> p (i, q, TAG_REDUCE) = [] \<or> reply (p (i, q, TAG_REDUCE))"
    using reduce_netD(8) [OF net _ _ _ iD, of q] up by blast
qed

lemma reply_ne: "reply r \<Longrightarrow> r \<noteq> []"
  by (auto simp: reply_def)

text \<open>The reduction is complete; a process other than the root sends its reply.\<close>

lemma net_complete:
  assumes tree: "rank_tree n par chl" and net: "reduce_net n chl T X ph D (\<sigma>(i := s)) p"
    and i: "0 \<le> i" "i < n" "ph i \<noteq> Finished"
    and out: "reduce_outstanding s" "reduce_replies s = int (length (chl i))" "\<not> reduce_outstanding s'" and r: "reply r"
    and p': "p' = (case par i of None \<Rightarrow> p | Some q \<Rightarrow> p((i, q, TAG_REDUCE) := p (i, q, TAG_REDUCE) @ r))"
  shows "reduce_net n chl T X ph D (\<sigma>(i := s')) p'"
proof -
  let ?\<sigma> = "\<sigma>(i := s)"
  note f = net_place [OF tree net i]
  have "(\<Sum>d\<in>set (chl i). engaged ph ?\<sigma> p i d) = 0" using f(2) out by (simp del: of_nat_sum)
  then have z: "engaged ph ?\<sigma> p i d = 0" if "d \<in> set (chl i)" for d using that by simp
  have pk: "p' (i, d, TAG_REDUCE) = p (i, d, TAG_REDUCE)" "p' (d, i, TAG_REDUCE) = p (d, i, TAG_REDUCE)"
    if "d \<in> set (chl i)" for d
    using f(1) [OF that] f(5) unfolding p' by (auto split: option.split)
  have z': "engaged ph ?\<sigma> p' i d = 0" if "d \<in> set (chl i)" for d
    using z [OF that] by (simp add: engaged_def pk [OF that])
  have "reduce_net n chl T X ph D (?\<sigma>(i := s')) p'"
  proof (rule net_change [where \<sigma> = ?\<sigma> and i = i and p' = p', OF tree net i])
    show "p' (a, b, TAG_REDUCE) = p (a, b, TAG_REDUCE)" if "a \<noteq> i" "b \<noteq> i" for a b
      using that by (simp add: p' split: option.split)
    show "engaged ph ?\<sigma> p' i d \<le> 1 \<and> (p' (d, i, TAG_REDUCE) = [] \<or> reply (p' (d, i, TAG_REDUCE)))"
      if d: "d \<in> set (chl i)" for d
      using z' [OF d] f(4) [OF d] pk [OF d] by simp
    show "engaged ph (?\<sigma>(i := s')) p' q i = engaged ph ?\<sigma> p q i \<and> (p' (i, q, TAG_REDUCE) = [] \<or> reply (p' (i, q, TAG_REDUCE)))"
      if q: "par i = Some q" for q
      using f(5,6) [OF q] q out i(3) r reply_ne [OF r]
      by (auto simp: engaged_def reducing_def p' split: if_splits)
    show "int (\<Sum>d\<in>set (chl i). engaged ph ?\<sigma> p' i d) = waiting chl ph (?\<sigma>(i := s')) i"
      using out(3) z' by (simp add: waiting_def reducing_def)
  qed
  then show ?thesis by simp
qed

text \<open>A request of the parent is answered with a refusal.\<close>

lemma net_refuse:
  assumes tree: "rank_tree n par chl" and net: "reduce_net n chl T X ph D (\<sigma>(i := s)) p"
    and i: "0 \<le> i" "i < n" "ph i \<noteq> Finished"
    and out: "\<not> reduce_outstanding s" "\<not> reduce_outstanding s'" and r: "reply r"
    and q: "par i = Some q" "p (q, i, TAG_REDUCE) = x # xs"
    and p': "p' = p((q, i, TAG_REDUCE) := xs, (i, q, TAG_REDUCE) := p (i, q, TAG_REDUCE) @ r)"
  shows "reduce_net n chl T X ph D (\<sigma>(i := s')) p'"
proof -
  let ?\<sigma> = "\<sigma>(i := s)"
  note f = net_place [OF tree net i]
  have "(\<Sum>d\<in>set (chl i). engaged ph ?\<sigma> p i d) = 0" using f(2) out by (simp del: of_nat_sum)
  then have z: "engaged ph ?\<sigma> p i d = 0" if "d \<in> set (chl i)" for d using that by simp
  have pk: "p' (i, d, TAG_REDUCE) = p (i, d, TAG_REDUCE)" "p' (d, i, TAG_REDUCE) = p (d, i, TAG_REDUCE)"
    if "d \<in> set (chl i)" for d
    using f(1) [OF that] f(5) [OF q(1)] unfolding p' by auto
  have z': "engaged ph ?\<sigma> p' i d = 0" if "d \<in> set (chl i)" for d
    using z [OF that] by (simp add: engaged_def pk [OF that])
  have "reduce_net n chl T X ph D (?\<sigma>(i := s')) p'"
  proof (rule net_change [where \<sigma> = ?\<sigma> and i = i and p' = p', OF tree net i])
    show "p' (a, b, TAG_REDUCE) = p (a, b, TAG_REDUCE)" if "a \<noteq> i" "b \<noteq> i" for a b
      using that by (simp add: p')
    show "engaged ph ?\<sigma> p' i d \<le> 1 \<and> (p' (d, i, TAG_REDUCE) = [] \<or> reply (p' (d, i, TAG_REDUCE)))"
      if d: "d \<in> set (chl i)" for d
      using z' [OF d] f(4) [OF d] pk [OF d] by simp
    show "engaged ph (?\<sigma>(i := s')) p' q' i = engaged ph ?\<sigma> p q' i \<and> (p' (i, q', TAG_REDUCE) = [] \<or> reply (p' (i, q', TAG_REDUCE)))"
      if "par i = Some q'" for q'
    proof -
      have eq: "q' = q" using that q(1) by simp
      show ?thesis
        using f(5,6) [OF q(1)] q(2) out r reply_ne [OF r] unfolding eq
        by (auto simp: engaged_def reducing_def p' split: if_splits)
    qed
    show "int (\<Sum>d\<in>set (chl i). engaged ph ?\<sigma> p' i d) = waiting chl ph (?\<sigma>(i := s')) i"
      using out z' by (simp add: waiting_def reducing_def)
  qed
  then show ?thesis by simp
qed

text \<open>A process begins: on its own if it is the root, else at its parent's request.  It asks its
  children.\<close>

lemma net_begin:
  assumes tree: "rank_tree n par chl" and net: "reduce_net n chl T X ph D (\<sigma>(i := s)) p"
    and i: "0 \<le> i" "i < n" "ph i \<noteq> Finished"
    and out: "\<not> reduce_outstanding s" "reduce_outstanding s'" "reduce_replies s' = 0"
    and p1: "case par i of None \<Rightarrow> p1 = p | Some q \<Rightarrow> \<exists>x xs. p (q, i, TAG_REDUCE) = x # xs \<and> p1 = p((q, i, TAG_REDUCE) := xs)"
    and p': "\<And>k. p' k = (if \<exists>d \<in> set (chl i). k = (i, d, TAG_REDUCE) then p1 k @ [y] else p1 k)"
  shows "reduce_net n chl T X ph D (\<sigma>(i := s')) p'"
proof -
  let ?\<sigma> = "\<sigma>(i := s)"
  note f = net_place [OF tree net i]
  have "(\<Sum>d\<in>set (chl i). engaged ph ?\<sigma> p i d) = 0" using f(2) out by (simp del: of_nat_sum)
  then have z: "engaged ph ?\<sigma> p i d = 0" if "d \<in> set (chl i)" for d using that by simp
  have pd: "p1 (d, i, TAG_REDUCE) = p (d, i, TAG_REDUCE)" "p1 (i, d, TAG_REDUCE) = p (i, d, TAG_REDUCE)"
    if "d \<in> set (chl i)" for d
    using f(1) [OF that] f(5) p1 by (auto split: option.splits)
  have pk: "p' (i, d, TAG_REDUCE) = p (i, d, TAG_REDUCE) @ [y]" "p' (d, i, TAG_REDUCE) = p (d, i, TAG_REDUCE)"
    if "d \<in> set (chl i)" for d
    using f(1) that pd [OF that] by (force simp: p')+
  have z': "engaged ph ?\<sigma> p' i d = 1" if "d \<in> set (chl i)" for d
    using z [OF that] by (simp add: engaged_def pk [OF that])
  have "(\<Sum>d\<in>set (chl i). engaged ph ?\<sigma> p' i d) = card (set (chl i))" using z' by simp
  also have "\<dots> = length (chl i)" by (rule distinct_card [OF rank_tree.child_distinct [OF tree]])
  finally have sum: "(\<Sum>d\<in>set (chl i). engaged ph ?\<sigma> p' i d) = length (chl i)" .
  have "reduce_net n chl T X ph D (?\<sigma>(i := s')) p'"
  proof (rule net_change [where \<sigma> = ?\<sigma> and i = i and p' = p', OF tree net i])
    show "p' (a, b, TAG_REDUCE) = p (a, b, TAG_REDUCE)" if "a \<noteq> i" "b \<noteq> i" for a b
      using that p1 by (auto simp: p' split: option.splits)
    show "engaged ph ?\<sigma> p' i d \<le> 1 \<and> (p' (d, i, TAG_REDUCE) = [] \<or> reply (p' (d, i, TAG_REDUCE)))"
      if d: "d \<in> set (chl i)" for d
      using z' [OF d] f(4) [OF d] pk [OF d] by simp
    show "engaged ph (?\<sigma>(i := s')) p' q i = engaged ph ?\<sigma> p q i \<and> (p' (i, q, TAG_REDUCE) = [] \<or> reply (p' (i, q, TAG_REDUCE)))"
      if q: "par i = Some q" for q
    proof -
      obtain x xs where x: "p (q, i, TAG_REDUCE) = x # xs" "p1 = p((q, i, TAG_REDUCE) := xs)" using p1 q by auto
      have "q \<notin> set (chl i)" "i \<notin> set (chl i)" using f(1) f(5) [OF q] by force+
      then have "p' (q, i, TAG_REDUCE) = xs" "p' (i, q, TAG_REDUCE) = p (i, q, TAG_REDUCE)"
        using f(5) [OF q] x(2) by (auto simp: p')
      with f(6,7) [OF q] x(1) out i(3) show ?thesis by (auto simp: engaged_def reducing_def)
    qed
    show "int (\<Sum>d\<in>set (chl i). engaged ph ?\<sigma> p' i d) = waiting chl ph (?\<sigma>(i := s')) i"
      using out i(3) unfolding sum by (simp add: waiting_def reducing_def)
  qed
  then show ?thesis by simp
qed

text \<open>The invariant in a state of one process in the middle of \<open>reduceCheck\<close>.\<close>

definition net_of ::
  "int \<Rightarrow> (int \<Rightarrow> int option) \<Rightarrow> (int \<Rightarrow> int list) \<Rightarrow> (int \<Rightarrow> int) \<Rightarrow> (int \<Rightarrow> byte list) \<Rightarrow> (int \<Rightarrow> phase) \<Rightarrow> int set
    \<Rightarrow> (int \<Rightarrow> 'u state) \<Rightarrow> int \<Rightarrow> 'u state \<Rightarrow> (channel \<Rightarrow> payload list) \<Rightarrow> bool" where
  "net_of n par chl T X ph D \<sigma> i s p \<longleftrightarrow> in_tree par chl i s \<and> reduce_net n chl T X ph D (\<sigma>(i := s)) p"

lemma net_ofI:
  assumes "in_tree par chl i s" "keeps_place s s'" "reduce_net n chl T X ph D (\<sigma>(i := s')) p"
  shows "net_of n par chl T X ph D \<sigma> i s' p"
  using assms by (simp add: net_of_def in_tree_def keeps_place_def)

context mpi_laws
begin

lemma reduce_children_net:
  assumes tree: "rank_tree n par chl" and i: "0 \<le> i" "i < n" "ph i \<noteq> Finished"
  shows "net_of n par chl T X ph D \<sigma> i s (pend w) \<Longrightarrow> reduce_outstanding s \<Longrightarrow> set cs \<subseteq> set (chl i) \<Longrightarrow>
    results (reduce_children E M cb cs s w)
      (\<lambda>(s', w'). net_of n par chl T X ph D \<sigma> i s' (pend w') \<and> reduce_outstanding s')"
proof (induction cs arbitrary: s w)
  case (Cons c cs)
  have it: "in_tree par chl i s" and net: "reduce_net n chl T X ph D (\<sigma>(i := s)) (pend w)" and rk: "rank s = i"
    using Cons.prems(1) by (simp_all add: net_of_def in_tree_def)
  have c: "c \<in> set (chl i)" using Cons.prems(3) by simp
  have "results (reduce_child E M cb c s w)
      (\<lambda>(s', w'). net_of n par chl T X ph D \<sigma> i s' (pend w') \<and> reduce_outstanding s')"
    unfolding results_def
  proof (intro allI impI, clarify)
    fix s' w' assume run: "reduce_child E M cb c s w = Inr (s', w')"
    have "pend w (c, rank s, TAG_REDUCE) = [] \<or> reply (pend w (c, rank s, TAG_REDUCE))"
      using net_place(4) [OF tree net i c] rk by simp
    from reduce_child_effect [OF run this]
    show "net_of n par chl T X ph D \<sigma> i s' (pend w') \<and> reduce_outstanding s'"
    proof
      assume "s' = s \<and> pend w' = pend w"
      with Cons.prems(1,2) show ?thesis by simp
    next
      assume t: "pend w (c, rank s, TAG_REDUCE) \<noteq> [] \<and> pend w' = (pend w)((c, rank s, TAG_REDUCE) := [])
        \<and> keeps_place s s' \<and> reduce_replies s' = reduce_replies s + 1"
      then have o': "reduce_outstanding s'" using Cons.prems(2) by (simp add: keeps_place_def)
      with t net_child [where s = s and s' = s' and \<sigma> = \<sigma>, OF tree net i c _ Cons.prems(2) o'] net_ofI [OF it, of s'] rk
      show ?thesis by simp
    qed
  qed
  then show ?case
    using Cons.IH Cons.prems(3) by (auto intro!: results_seq)
qed simp

lemma reduce_complete_net:
  assumes tree: "rank_tree n par chl" and i: "0 \<le> i" "i < n" "ph i \<noteq> Finished"
    and net: "net_of n par chl T X ph D \<sigma> i s (pend w)" and out: "reduce_outstanding s" "reduce_replies s = getChildrenCount (tree s)"
    and run: "reduce_complete M cb k s w = Inr (s', w')"
  shows "net_of n par chl T X ph D \<sigma> i s' (pend w')" "\<not> reduce_outstanding s'"
proof -
  obtain v tot b where l: "local_reduce_buf s = (v, tot, b)" by (rule prod_cases3)
  let ?s = "s\<lparr>local_reduce_buf := (v, tot + k, b)\<rparr>"
  have it: "rank s = i" "getParentRank (tree s) = par i" "getChildrenCount (tree s) = int (length (chl i))"
    and nt: "reduce_net n chl T X ph D (\<sigma>(i := s)) (pend w)"
    using net by (simp_all add: net_of_def in_tree_def)
  have "\<exists>r. rank s' = rank s \<and> tree s' = tree s \<and> \<not> reduce_outstanding s' \<and> reply r
      \<and> pend w' = (case par i of None \<Rightarrow> pend w | Some q \<Rightarrow> (pend w)((i, q, TAG_REDUCE) := pend w (i, q, TAG_REDUCE) @ r))"
  proof (cases "par i")
    case None
    then obtain s1 where "(if v = MSG_VALID then reduce_finalize cb ?s else Inr ?s) = Inr s1"
      "s' = s1\<lparr>reduce_outstanding := False\<rparr>" "w' = w"
      using run it(2) unfolding reduce_complete_def l by (auto simp: Let_def simp del: MSG_VALID_def elim!: bind_res_InrE)
    moreover from this(1) have "\<exists>c. s1 = ?s\<lparr>circ := c\<rparr>"
      using reduce_finalize_frame [of cb ?s s1] by (cases "v = MSG_VALID") (auto intro: exI [of _ "circ s"])
    moreover have "reply [Longs [0, 0, 0]]" by (auto simp: reply_def)
    ultimately show ?thesis using None by auto
  next
    case (Some q)
    then obtain s1 where "send_partial M (\<lambda>v. v = MSG_VALID) q ?s w = Inr (s1, w')" "s' = s1\<lparr>reduce_outstanding := False\<rparr>"
      using run it(2) unfolding reduce_complete_def l by (auto simp: Let_def simp del: MSG_VALID_def elim!: bind_res_InrE)
    moreover from send_partial_reply [OF this(1)] obtain r l where "reply r" "s1 = ?s\<lparr>local_reduce_buf := l\<rparr>"
      "pend w' = (pend w)((i, q, TAG_REDUCE) := pend w (i, q, TAG_REDUCE) @ r)" using it(1) by auto
    ultimately show ?thesis using Some by (intro exI [of _ r]) simp
  qed
  then obtain r where s': "rank s' = rank s" "tree s' = tree s" "\<not> reduce_outstanding s'" and r: "reply r"
    and p': "pend w' = (case par i of None \<Rightarrow> pend w | Some q \<Rightarrow> (pend w)((i, q, TAG_REDUCE) := pend w (i, q, TAG_REDUCE) @ r))"
    by (elim exE conjE)
  have "reduce_net n chl T X ph D (\<sigma>(i := s')) (pend w')"
    by (rule net_complete [where s = s, OF tree nt i out(1) _ _ r p']) (use out(2) it(3) s' in simp_all)
  then show "net_of n par chl T X ph D \<sigma> i s' (pend w')" using net s' by (simp add: net_of_def in_tree_def)
  show "\<not> reduce_outstanding s'" by (rule s'(3))
qed

lemma reduce_idle_net:
  assumes tree: "rank_tree n par chl" and i: "0 \<le> i" "i < n" "ph i \<noteq> Finished"
    and net: "net_of n par chl T X ph D \<sigma> i s (pend w)" and out: "\<not> reduce_outstanding s"
    and run: "reduceCheck E M cb k cleanup s w = Inr (s', w')"
  shows "net_of n par chl T X ph D \<sigma> i s' (pend w')" "cleanup \<longrightarrow> \<not> reduce_outstanding s'"
proof -
  have it: "rank s = i" "getParentRank (tree s) = par i" "child_list (tree s) = chl i" "in_tree par chl i s"
    and nt: "reduce_net n chl T X ph D (\<sigma>(i := s)) (pend w)"
    using net by (simp_all add: net_of_def in_tree_def)
  obtain now w1 where clock: "MPI_Wtime M (rank s) w = (now, w1)" by fastforce
  obtain start w2 where st: "reduce_start M cleanup now s w1 = Inr (start, w2)" and
    rest: "(if start \<and> cleanup then
        (case getParentRank (tree s) of None \<Rightarrow> Inr (s, w2)
        | Some p \<Rightarrow> (case local_reduce_buf s of (_, tot, b) \<Rightarrow>
            bind_res (send M (rank s) p TAG_REDUCE (Longs [MSG_INVALID, tot, b]) w2) (\<lambda>w.
              Inr (s\<lparr>local_reduce_buf := (MSG_INVALID, tot, b)\<rparr>, w))))
      else if start then
        bind_res (reduce_init cb (s\<lparr>reduce_time_last := now, reduce_outstanding := True,
            reduce_replies := 0, local_reduce_buf := (MSG_VALID, 0, 0)\<rparr>)) (\<lambda>s.
        bind_res (send_each M (rank s) TAG_REDUCE Empty (child_list (tree s)) w2) (\<lambda>w. Inr (s, w)))
      else Inr (s, w2)) = Inr (s', w')"
    using run out unfolding reduceCheck_def clock by (auto simp del: MSG_VALID_def MSG_INVALID_def elim!: bind_res_InrE)
  have pw: "pend w1 = pend w" by (rule wtime_law [OF clock])
  note e = reduce_start_effect [OF st, unfolded pw it]
  have "net_of n par chl T X ph D \<sigma> i s' (pend w') \<and> (cleanup \<longrightarrow> \<not> reduce_outstanding s')"
  proof (cases start)
    case False
    with rest e net out show ?thesis by simp
  next
    case start: True
    show ?thesis
    proof (cases cleanup)
      case cleanup: True
      show ?thesis
      proof (cases "par i")
        case None
        with rest e net out start cleanup it(2) show ?thesis by simp
      next
        case (Some q)
        obtain x xs where x: "pend w (q, i, TAG_REDUCE) = x # xs" "pend w2 = (pend w)((q, i, TAG_REDUCE) := xs)"
          using e Some start by auto
        obtain v tot b where l: "local_reduce_buf s = (v, tot, b)" by (rule prod_cases3)
        have sd: "send M i q TAG_REDUCE (Longs [MSG_INVALID, tot, b]) w2 = Inr w'"
          and s': "s' = s\<lparr>local_reduce_buf := (MSG_INVALID, tot, b)\<rparr>"
          using rest start cleanup Some l it(1,2) by (auto simp del: MSG_INVALID_def elim!: bind_res_InrE)
        have ne: "q \<noteq> i" using net_place(5) [OF tree nt i Some] by simp
        have "reduce_net n chl T X ph D (\<sigma>(i := s')) (pend w')"
        proof (rule net_refuse [where s = s, OF tree nt i out _ _ Some x(1)])
          show "reply [Longs [MSG_INVALID, tot, b]]" by (auto simp: reply_def)
          show "pend w' = (pend w)((q, i, TAG_REDUCE) := xs, (i, q, TAG_REDUCE) := pend w (i, q, TAG_REDUCE) @ [Longs [MSG_INVALID, tot, b]])"
            using send_Inr [OF sd] ne by (simp add: x(2))
        qed (use out s' in simp)
        then show ?thesis using net_ofI [OF it(4), of s'] out s' by (simp add: keeps_place_def)
      qed
    next
      case False
      let ?s = "s\<lparr>reduce_time_last := now, reduce_outstanding := True, reduce_replies := 0, local_reduce_buf := (MSG_VALID, 0, 0)\<rparr>"
      obtain s1 where init: "reduce_init cb ?s = Inr s1"
        and se: "send_each M (rank s1) TAG_REDUCE Empty (child_list (tree s1)) w2 = Inr w'" "s' = s1"
        using rest start False by (auto simp del: MSG_VALID_def elim!: bind_res_InrE)
      obtain c where s1: "s1 = ?s\<lparr>circ := c\<rparr>" using reduce_init_frame [OF init] by blast
      have sd: "send_each M i TAG_REDUCE Empty (chl i) w2 = Inr w'" using se(1) it by (simp add: s1)
      have "reduce_net n chl T X ph D (\<sigma>(i := s')) (pend w')"
      proof (rule net_begin [where s = s, OF tree nt i out])
        show "reduce_outstanding s'" "reduce_replies s' = 0" by (simp_all add: se(2) s1)
        show "case par i of None \<Rightarrow> pend w2 = pend w
          | Some q \<Rightarrow> \<exists>x xs. pend w (q, i, TAG_REDUCE) = x # xs \<and> pend w2 = (pend w)((q, i, TAG_REDUCE) := xs)"
          using e start by simp
        show "pend w' k = (if \<exists>d \<in> set (chl i). k = (i, d, TAG_REDUCE) then pend w2 k @ [Empty] else pend w2 k)" for k
          by (rule send_each_pend [OF sd rank_tree.child_distinct [OF tree]])
      qed
      then show ?thesis using False it by (simp add: net_of_def in_tree_def se(2) s1)
    qed
  qed
  then show "net_of n par chl T X ph D \<sigma> i s' (pend w')" "cleanup \<longrightarrow> \<not> reduce_outstanding s'" by simp_all
qed

lemma reduceCheck_net:
  assumes tree: "rank_tree n par chl" and i: "0 \<le> i" "i < n" "ph i \<noteq> Finished"
    and net: "net_of n par chl T X ph D \<sigma> i s (pend w)" and run: "reduceCheck E M cb k cleanup s w = Inr (s', w')"
  shows "net_of n par chl T X ph D \<sigma> i s' (pend w')" "cleanup \<and> reduce_outstanding s' \<longrightarrow> reduce_outstanding s"
proof -
  have "net_of n par chl T X ph D \<sigma> i s' (pend w') \<and> (cleanup \<and> reduce_outstanding s' \<longrightarrow> reduce_outstanding s)"
  proof (cases "reduce_outstanding s")
    case False
    with reduce_idle_net [OF tree i net False run] show ?thesis by simp
  next
    case True
    obtain s1 w1 where ch: "reduce_children E M cb (child_list (tree s)) s w = Inr (s1, w1)"
      and rest: "(if reduce_replies s1 = getChildrenCount (tree s1) then reduce_complete M cb k s1 w1 else Inr (s1, w1)) = Inr (s', w')"
      using run True unfolding reduceCheck_def by (auto elim!: bind_res_InrE)
    have "set (child_list (tree s)) \<subseteq> set (chl i)" using net by (simp add: net_of_def in_tree_def)
    from reduce_children_net [OF tree i net True this, where E = E and cb = cb] ch
    have one: "net_of n par chl T X ph D \<sigma> i s1 (pend w1)" "reduce_outstanding s1" by (simp_all add: results_def)
    show ?thesis
    proof (cases "reduce_replies s1 = getChildrenCount (tree s1)")
      case full: True
      then have "reduce_complete M cb k s1 w1 = Inr (s', w')" using rest by simp
      from reduce_complete_net [OF tree i one full this] True show ?thesis by simp
    next
      case False
      with rest one True show ?thesis by simp
    qed
  qed
  then show "net_of n par chl T X ph D \<sigma> i s' (pend w')" "cleanup \<and> reduce_outstanding s' \<longrightarrow> reduce_outstanding s" by simp_all
qed

end

section \<open>Steps of the program\<close>

text \<open>A process that has entered the barrier reduces no more.\<close>

definition settled :: "int \<Rightarrow> (int \<Rightarrow> phase) \<Rightarrow> (int \<Rightarrow> 'u state) \<Rightarrow> bool" where
  "settled n ph \<sigma> \<longleftrightarrow> (\<forall>j. 0 \<le> j \<longrightarrow> j < n \<longrightarrow> ph j \<noteq> Finished \<longrightarrow> barrier_started (\<sigma> j) \<longrightarrow> \<not> reduce_outstanding (\<sigma> j))"

lemma net_phase:
  assumes net: "reduce_net n chl T X ph D \<sigma> p" and red: "\<And>j. reducing ph' \<sigma> j = reducing ph \<sigma> j"
    and fin: "\<And>j. ph j = Finished \<Longrightarrow> ph' j = Finished"
    and closed: "\<And>q c. 0 \<le> q \<Longrightarrow> q < n \<Longrightarrow> c \<in> set (chl q) \<Longrightarrow> ph' c = Finished \<Longrightarrow> ph' q = Finished"
  shows "reduce_net n chl T X ph' D \<sigma> p"
proof -
  have e: "engaged ph' \<sigma> p q c = engaged ph \<sigma> p q c" "waiting chl ph' \<sigma> q = waiting chl ph \<sigma> q" for q c
    by (simp_all add: engaged_def waiting_def red)
  show ?thesis
  proof (rule reduce_netI, goal_cases)
    case 1
    show ?case by (rule reduce_netD(1) [OF net])
  next
    case (2 j)
    with reduce_netD(2,3) [OF net, of j] fin [of j] show ?case by blast
  next
    case (3 q c)
    then show ?case by (rule closed)
  next
    case (4 q c)
    with reduce_netD(5,6) [OF net 4] show ?case by blast
  next
    case (5 q c)
    with reduce_netD(7,8) [OF net 5] show ?case unfolding e by blast
  next
    case (6 q)
    then show ?case unfolding e by (rule reduce_netD(9) [OF net])
  qed
qed

context mpi_laws
begin

lemma fine_net:
  assumes tree: "rank_tree n par chl" and E: "env_ok E n" and inv: "base_inv n \<sigma> (pend w)" and sp: "spans n par chl \<sigma>"
    and i: "0 \<le> i" "i < n" "ph i \<noteq> Finished" and net: "reduce_net n chl T X ph D \<sigma> (pend w)" and set: "settled n ph \<sigma>"
    and st: "fine g E cb n i (\<sigma>, w) (\<sigma>', w')"
  shows "reduce_net n chl T X ph D \<sigma>' (pend w') \<and> settled n ph \<sigma>'"
proof -
  have sl: "sidelines \<sigma> (pend w) \<sigma>' (pend w')" using fine_base [OF E inv st] by simp
  have same: ?thesis if "reduction_same \<sigma> (pend w) \<sigma>' (pend w')"
    using net set net_cong [OF that] that sidelinesD(5) [OF sl]
    by (simp add: settled_def reduction_same_def undisturbed_def)
  from st consider "ring_step E M cb n (\<sigma>, w) (\<sigma>', w')" | "beside_step g E M pend cb n i (\<sigma>, w) (\<sigma>', w')"
    unfolding fine_step_def by blast
  then show ?thesis
  proof cases
    case 1
    then show ?thesis using inv by (intro same ring_step_same [OF E]) (simp_all add: base_inv_def)
  next
    case 2
    then show ?thesis
    proof cases
      case (beside s')
      from beside(6) show ?thesis unfolding sideways_def
      proof (elim disjE exE conjE)
        assume "undisturbed (\<sigma> i) s'" "elsewhere {TAG_TERM} (pend w) (pend w')"
        then show ?thesis unfolding beside(1)
          by (intro same [unfolded beside(1)]) (simp add: reduction_same_def elsewhere_def)
      next
        fix cleanup
        assume cl: "barrier_started (\<sigma> i) \<longrightarrow> cleanup"
          and run: "reduceCheck E M cb (local_objects_processed (\<sigma> i)) cleanup (\<sigma> i) w = Inr (s', w')"
        have "net_of n par chl T X ph D \<sigma> i (\<sigma> i) (pend w)"
          using net sp i by (simp add: net_of_def in_tree_def spans_def)
        note r = reduceCheck_net [OF tree i this run]
        have "barrier_started s' = barrier_started (\<sigma> i)" using beside(4) by (simp add: beside_def)
        with r(2) cl set have "settled n ph \<sigma>'" unfolding beside(1) settled_def by auto
        with r(1) show ?thesis unfolding beside(1) by (simp add: net_of_def)
      qed
    qed
  qed
qed

lemma fines_net:
  assumes "(fine g E cb n i)\<^sup>*\<^sup>* (\<sigma>, w) (\<sigma>', w')" "rank_tree n par chl" "env_ok E n" "base_inv n \<sigma> (pend w)" "spans n par chl \<sigma>"
    "0 \<le> i" "i < n" "ph i \<noteq> Finished" "reduce_net n chl T X ph D \<sigma> (pend w)" "settled n ph \<sigma>"
  shows "reduce_net n chl T X ph D \<sigma>' (pend w') \<and> settled n ph \<sigma>'"
  using assms(1)
proof (induction rule: rtranclp_induct2)
  case refl
  show ?case using assms(9,10) by simp
next
  case (step \<sigma>1 w1 \<sigma>2 w2)
  have b: "base_inv n \<sigma>1 (pend w1)" "sidelines \<sigma> (pend w) \<sigma>1 (pend w1)" using fines_base [OF step.hyps(1) assms(3,4)] by simp_all
  have "spans n par chl \<sigma>1" using assms(5) sidelines_spans [OF b(2)] by simp
  from fine_net [where ph = ph, OF assms(2,3) b(1) this assms(6-8) conjunct1 [OF step.IH] conjunct2 [OF step.IH] step.hyps(2)]
  show ?case .
qed

lemma barrierTest_started:
  "barrierTest M s w = Inr (b, s', w') \<Longrightarrow> b \<or> barrier_started s' \<Longrightarrow> barrier_started s"
  by (cases "barrier_started s") (simp_all add: barrierTest_def)

text \<open>A process leaves the cleanup loop only when it reduces no more.\<close>

lemma program_net:
  assumes tree: "rank_tree n par chl" and E: "env_ok E n" and cb: "callbacks_keep g cb"
    and inv: "base_program n ph \<sigma> (pend w)" and sp: "spans n par chl \<sigma>"
    and net: "reduce_net n chl T X ph D \<sigma> (pend w)" and set: "settled n ph \<sigma>"
    and st: "program_step E M cb n (ph, \<sigma>, w) (ph', \<sigma>', w')"
    and closed: "\<And>q c. 0 \<le> q \<Longrightarrow> q < n \<Longrightarrow> c \<in> set (chl q) \<Longrightarrow> ph' c = Finished \<Longrightarrow> ph' q = Finished"
  shows "reduce_net n chl T X ph' D \<sigma>' (pend w') \<and> settled n ph' \<sigma>'"
  using E cb inv st
proof (cases rule: program_parts)
  case (iterate i leave s')
  have base: "base_inv n \<sigma> (pend w)" using inv by (simp add: base_program_def)
  have ph: "ph i \<noteq> Finished" using iterate(3) by simp
  have r: "reduce_net n chl T X ph D \<sigma>' (pend w')" "settled n ph \<sigma>'"
    using fines_net [where ph = ph, OF iterate(6) tree E base sp iterate(1,2) ph net set] by simp_all
  have fin: "ph' j = Finished \<longleftrightarrow> ph j = Finished" for j using iterate(3,5) by simp
  have "reduce_net n chl T X ph' D \<sigma>' (pend w')"
    by (rule net_phase [OF r(1) _ _ closed]) (simp_all add: reducing_def fin)
  with r(2) show ?thesis by (simp add: settled_def fin)
next
  case (cleanup i b s1 w1 s')
  let ?\<sigma> = "\<sigma>(i := s1)"
  have ph: "ph i \<noteq> Finished" using cleanup(3) by simp
  have "reduction_same \<sigma> (pend w) ?\<sigma> (pend w1)"
    using cleanup(11,13) by (simp add: reduction_same_def elsewhere_def)
  then have net1: "reduce_net n chl T X ph D ?\<sigma> (pend w1)" using net net_cong by blast
  have quiet: "\<not> reduce_outstanding s1" if "b \<or> barrier_started s1"
  proof -
    have "barrier_started (entering (\<sigma> i))" by (rule barrierTest_started [OF cleanup(6) that])
    then have "\<not> reduce_outstanding (\<sigma> i)"
      using set ph cleanup(1,2) by (auto simp: entering_def ready_for_barrier_def settled_def split: if_splits)
    then show ?thesis using cleanup(13) by (simp add: undisturbed_def)
  qed
  have set1: "settled n ph ?\<sigma>" using set quiet by (simp add: settled_def)
  show ?thesis
  proof (cases b)
    case True
    then have e: "\<sigma>' = ?\<sigma>" "w' = w1" "ph' = ph(i := Finished)" using cleanup(4,5,8) by simp_all
    have "reduce_net n chl T X ph' D ?\<sigma> (pend w1)"
      by (rule net_phase [OF net1 _ _ closed]) (use quiet True in \<open>simp_all add: reducing_def e(3)\<close>)
    moreover have "settled n ph' ?\<sigma>" using set by (simp add: settled_def e(3))
    ultimately show ?thesis unfolding e(1,2) by blast
  next
    case False
    then have e: "ph' = ph" using cleanup(3,5) by (simp add: fun_upd_idem)
    have "spans n par chl ?\<sigma>" using sp cleanup(10) by (simp add: spans_def bystander_def)
    from fines_net [where ph = ph, OF cleanup(7) tree E cleanup(9) this cleanup(1,2) ph net1 set1] show ?thesis
      unfolding e .
  qed
qed

end

end
