(* ===== verification/Circle_Account.thy ===== *)
theory Circle_Account
  imports Circle_System
begin

text \<open>
  Accounting for the work, in any commutative group.  Every item has a worth and every process a
  credit, which depends on the user's data and on the number of objects it has processed.  When
  the user's process callback turns worth into credit, the worth of all items in queues and
  messages plus the credit of all processes stays the same through every step of the program.
  With the number of items its processing leads to as the worth of an item, and the number of
  objects processed as credit, this is the account of the work itself.
\<close>

section \<open>Worth and credit\<close>

definition tally :: "('i \<Rightarrow> 'm::comm_monoid_add) \<Rightarrow> 'i multiset \<Rightarrow> 'm" where
  "tally wt W = (\<Sum>x\<in>#W. wt x)"

lemma tally_simps [simp]: "tally wt {#} = 0" "tally wt (W + W') = tally wt W + tally wt W'" "tally wt {#x#} = wt x"
  by (simp_all add: tally_def)

definition credit :: "('u \<Rightarrow> int \<Rightarrow> 'm::comm_monoid_add) \<Rightarrow> int \<Rightarrow> (int \<Rightarrow> 'u state) \<Rightarrow> 'm" where
  "credit d n \<sigma> = (\<Sum>i\<in>{0..<n}. d (user (circ (\<sigma> i))) (local_objects_processed (\<sigma> i)))"

definition ledger :: "(byte list \<Rightarrow> 'm) \<Rightarrow> ('u \<Rightarrow> int \<Rightarrow> 'm::comm_monoid_add) \<Rightarrow> int \<Rightarrow> (int \<Rightarrow> 'u state)
    \<Rightarrow> (channel \<Rightarrow> payload list) \<Rightarrow> 'm" where
  "ledger wt d n \<sigma> p = tally wt (all_items n \<sigma> p) + credit d n \<sigma>"

text \<open>A call of the process callback, on a queue that is not empty, turns worth into credit.\<close>

definition settles :: "'u callbacks \<Rightarrow> (byte list \<Rightarrow> 'm::comm_monoid_add) \<Rightarrow> ('u \<Rightarrow> int \<Rightarrow> 'm) \<Rightarrow> bool" where
  "settles cb wt d \<longleftrightarrow> (\<forall>c c' k. wf_queue (queue c) \<longrightarrow> 0 < qcount (queue c) \<longrightarrow> processCallback cb c = Inr c' \<longrightarrow>
     tally wt (mset (items (queue c'))) + d (user c') (k + 1) = tally wt (mset (items (queue c))) + d (user c) k)"

lemma credit_update:
  assumes "0 \<le> i" "i < n"
  shows "credit d n (\<sigma>(i := s')) + d (user (circ (\<sigma> i))) (local_objects_processed (\<sigma> i))
    = credit d n \<sigma> + d (user (circ s')) (local_objects_processed s')"
proof -
  have i: "i \<in> {0..<n}" using assms by simp
  let ?d = "\<lambda>\<sigma> j. d (user (circ (\<sigma> j))) (local_objects_processed (\<sigma> j))"
  have "sum (?d (\<sigma>(i := s'))) ({0..<n} - {i}) = sum (?d \<sigma>) ({0..<n} - {i})" by (rule sum.cong) auto
  then show ?thesis
    by (simp add: credit_def sum.remove [OF finite_atLeastLessThan_int i] ac_simps)
qed

lemma credit_same:
  assumes "\<And>j. d (user (circ (\<sigma>' j))) = d (user (circ (\<sigma> j)))" "\<And>j. local_objects_processed (\<sigma>' j) = local_objects_processed (\<sigma> j)"
  shows "credit d n \<sigma>' = credit d n \<sigma>"
  by (simp add: credit_def assms)

text \<open>A change of one process that leaves its items, its data and its count, and of messages other
  than replies, does not touch the ledger.\<close>

lemma ledger_same:
  assumes "\<And>j. qp (\<sigma>' j) = qp (\<sigma> j)" "\<And>j. local_objects_processed (\<sigma>' j) = local_objects_processed (\<sigma> j)"
    "\<And>j. d (user (circ (\<sigma>' j))) = d (user (circ (\<sigma> j)))"
    "\<And>a b. p' (a, b, TAG_WORK_REPLY) = p (a, b, TAG_WORK_REPLY)"
  shows "ledger wt d n \<sigma>' p' = ledger wt d n \<sigma> p"
  by (simp add: ledger_def all_items_def queued_def travelling_def credit_def assms)

lemma transfer_user:
  assumes "transfer n \<sigma> p \<sigma>' p'"
  shows "user (circ (\<sigma>' j)) = user (circ (\<sigma> j))" "local_objects_processed (\<sigma>' j) = local_objects_processed (\<sigma> j)"
proof -
  have "user (circ (\<sigma>' j)) = user (circ (\<sigma> j)) \<and> local_objects_processed (\<sigma>' j) = local_objects_processed (\<sigma> j)"
    using assms
  proof cases
    case (served i D xs g q oc sd)
    then show ?thesis by (simp add: serve_update_def set_queue_def)
  next
    case (asking i s')
    from asking(5) show ?thesis unfolding asking(1) by cases (simp_all add: set_queue_def)
  qed simp_all
  then show "user (circ (\<sigma>' j)) = user (circ (\<sigma> j))" "local_objects_processed (\<sigma>' j) = local_objects_processed (\<sigma> j)"
    by simp_all
qed

section \<open>Steps\<close>

context mpi_laws
begin

lemma exchange_ledger:
  assumes "env_ok E n" "proto n \<sigma> (pend w)" "exchange_step E M n (\<sigma>, w) (\<sigma>', w')"
  shows "ledger wt d n \<sigma>' (pend w') = ledger wt d n \<sigma> (pend w)"
  using exchange_kept [OF assms] transfer_user [OF exchange_transfer [OF assms]]
  by (simp add: ledger_def credit_def)

lemma process_ledger:
  fixes d :: "'u \<Rightarrow> int \<Rightarrow> 'm::ab_group_add"
  assumes cb: "settles cb wt d" and pr: "proto n \<sigma> (pend w)" and st: "process_step cb n (\<sigma>, w) (\<sigma>', w')"
  shows "ledger wt d n \<sigma>' (pend w') = ledger wt d n \<sigma> (pend w)"
  using st
proof cases
  case (process i s')
  let ?tally = "\<lambda>s. tally wt (mset (items (qp s)))" and ?d = "\<lambda>s. d (user (circ s)) (local_objects_processed s)"
  obtain c where c: "processCallback cb (circ (\<sigma> i)) = Inr c"
    "s' = (\<sigma> i)\<lparr>circ := c, local_objects_processed := local_objects_processed (\<sigma> i) + 1\<rparr>"
    using process(7) by (auto simp: process_one_def ck_int_eq_Inr elim!: bind_res_InrE)
  have "wf_queue (qp (\<sigma> i))" using protoD(1) [OF pr process(3,4)] by (simp add: proc_ok_def)
  with cb c process(5) have one: "?tally s' + ?d s' = ?tally (\<sigma> i) + ?d (\<sigma> i)" by (simp add: settles_def)
  let ?A = "tally wt (queued n (\<sigma>(i := s')))" and ?B = "credit d n (\<sigma>(i := s'))"
  have 1: "?A + ?tally (\<sigma> i) = tally wt (queued n \<sigma>) + ?tally s'"
    using arg_cong [OF queued_update [OF process(3,4), of \<sigma> s'], of "tally wt"] by simp
  have 2: "?B + ?d (\<sigma> i) = credit d n \<sigma> + ?d s'" by (rule credit_update [OF process(3,4)])
  have "(?A + ?tally (\<sigma> i)) + (?B + ?d (\<sigma> i)) = (tally wt (queued n \<sigma>) + ?tally s') + (credit d n \<sigma> + ?d s')"
    by (simp only: 1 2)
  then have "(?A + ?B) + (?tally (\<sigma> i) + ?d (\<sigma> i)) = (tally wt (queued n \<sigma>) + credit d n \<sigma>) + (?tally s' + ?d s')"
    by (simp only: add.assoc add.commute add.left_commute)
  then have "?A + ?B = tally wt (queued n \<sigma>) + credit d n \<sigma>"
    unfolding one by simp
  then show ?thesis unfolding process(1,2) ledger_def all_items_def by (simp add: ac_simps)
qed

lemma bystander_ledger:
  assumes "bystander d (\<sigma> i) s'" "elsewhere T p p'" "T \<inter> work_tags = {}"
  shows "ledger wt d n (\<sigma>(i := s')) p' = ledger wt d n \<sigma> p"
  using assms(1) elsewhere_work(2) [OF assms(2,3)] by (intro ledger_same) (auto simp: bystander_def)

lemma token_ledger:
  assumes "s' = token_update lc tb tp tr (\<sigma> i)" "\<And>a b t. t \<noteq> TAG_TOKEN \<Longrightarrow> p' (a, b, t) = p (a, b, t)"
  shows "ledger wt d n (\<sigma>(i := s')) p' = ledger wt d n \<sigma> p"
  unfolding assms(1) by (rule ledger_same) (simp_all add: token_update_def assms(2))

lemma fine_ledger:
  fixes d :: "'u \<Rightarrow> int \<Rightarrow> 'm::ab_group_add"
  assumes E: "env_ok E n" and cb: "settles cb wt d" and inv: "base_inv n \<sigma> (pend w)" and st: "fine d E cb n i (\<sigma>, w) (\<sigma>', w')"
  shows "ledger wt d n \<sigma>' (pend w') = ledger wt d n \<sigma> (pend w)"
proof -
  have pr: "proto n \<sigma> (pend w)" using inv by (simp add: base_inv_def)
  from st consider "exchange_step E M n (\<sigma>, w) (\<sigma>', w')" | "process_step cb n (\<sigma>, w) (\<sigma>', w')"
    | "beside_step d E M pend cb n i (\<sigma>, w) (\<sigma>', w')" | "token_step E M n (\<sigma>, w) (\<sigma>', w')"
    unfolding fine_step_def ring_step_def work_step_rel_def by blast
  then show ?thesis
  proof cases
    case 1 then show ?thesis by (rule exchange_ledger [OF E pr])
  next
    case 2 then show ?thesis by (rule process_ledger [OF cb pr])
  next
    case 3
    then show ?thesis
    proof cases
      case (beside s')
      show ?thesis unfolding beside(1)
        by (rule bystander_ledger [where \<sigma> = \<sigma> and i = i, OF beside_bystander [OF beside(4)] beside(5)]) simp
    qed
  next
    case 4
    then show ?thesis
    proof cases
      case (check i rc s1 w1 st s')
      let ?\<sigma> = "\<sigma>(i := s1)"
      have ex: "exchange_step E M n (\<sigma>, w) (?\<sigma>, w1)"
        by (rule exchange_step.request [where cleanup = False]) (use check in simp_all)
      have ck: "checkForTerm M (?\<sigma> i) w1 = Inr (st, s', w')" using check(7) by simp
      obtain lc tb tp tr where s': "s' = token_update lc tb tp tr (?\<sigma> i)"
        using checkForTerm_frame(1) [OF ck] by blast
      have "ledger wt d n (?\<sigma>(i := s')) (pend w') = ledger wt d n ?\<sigma> (pend w1)"
        by (rule token_ledger [where \<sigma> = ?\<sigma> and i = i and p = "pend w1" and p' = "pend w'", OF s' checkForTerm_frame(2) [OF ck]])
      then show ?thesis using exchange_ledger [OF E pr ex] check(1) by simp
    next
      case (drain i s')
      obtain lc tb tp tr where s': "s' = token_update lc tb tp tr (\<sigma> i)" using drain_frame(1) [OF drain(5)] by blast
      show ?thesis unfolding drain(1)
        by (rule token_ledger [where \<sigma> = \<sigma> and i = i and p = "pend w" and p' = "pend w'", OF s' drain_frame(2) [OF drain(5)]])
    qed
  qed
qed

lemma fines_ledger:
  fixes d :: "'u \<Rightarrow> int \<Rightarrow> 'm::ab_group_add"
  assumes "(fine d E cb n i)\<^sup>*\<^sup>* (\<sigma>, w) (\<sigma>', w')" "env_ok E n" "settles cb wt d" "base_inv n \<sigma> (pend w)"
  shows "ledger wt d n \<sigma>' (pend w') = ledger wt d n \<sigma> (pend w)"
  using assms(1)
proof (induction rule: rtranclp_induct2)
  case (step \<sigma>1 w1 \<sigma>2 w2)
  have "base_inv n \<sigma>1 (pend w1)" using fines_base [OF step.hyps(1) assms(2,4)] by simp
  from fine_ledger [OF assms(2,3) this step.hyps(2)] step.IH show ?case by simp
qed simp

lemma program_ledger:
  fixes d :: "'u \<Rightarrow> int \<Rightarrow> 'm::ab_group_add"
  assumes E: "env_ok E n" and ok: "callbacks_keep d cb" and cb: "settles cb wt d" and inv: "base_program n ph \<sigma> (pend w)"
    and st: "program_step E M cb n (ph, \<sigma>, w) (ph', \<sigma>', w')"
  shows "ledger wt d n \<sigma>' (pend w') = ledger wt d n \<sigma> (pend w)"
  using E ok inv st
proof (cases rule: program_parts)
  case (iterate i leave s')
  show ?thesis using inv by (intro fines_ledger [OF iterate(6) E cb]) (simp add: base_program_def)
next
  case (cleanup i b s1 w1 s')
  have "ledger wt d n (\<sigma>(i := s1)) (pend w1) = ledger wt d n \<sigma> (pend w)"
    by (rule bystander_ledger [where \<sigma> = \<sigma> and i = i, OF cleanup(10,11)]) simp
  with fines_ledger [OF cleanup(7) E cb cleanup(9)] show ?thesis by simp
qed

lemma ledger_reachable:
  fixes d :: "'u \<Rightarrow> int \<Rightarrow> 'm::ab_group_add"
  assumes "(program_step E M cb n)\<^sup>*\<^sup>* (ph, \<sigma>, w) (ph', \<sigma>', w')" "env_ok E n" "callbacks_keep d cb" "settles cb wt d"
    "base_program n ph \<sigma> (pend w)"
  shows "ledger wt d n \<sigma>' (pend w') = ledger wt d n \<sigma> (pend w)"
proof -
  let ?P = "\<lambda>ph' \<sigma>' w'. ledger wt d n \<sigma>' (pend w') = ledger wt d n \<sigma> (pend w)"
  have "base_program n ph' \<sigma>' (pend w') \<and> ?P ph' \<sigma>' w'"
  proof (rule program_induct [where P = ?P, OF assms(1-3,5) refl])
    fix ph1 \<sigma>1 w1 ph2 \<sigma>2 w2
    assume a: "base_program n ph1 \<sigma>1 (pend w1)" "?P ph1 \<sigma>1 w1" "program_step E M cb n (ph1, \<sigma>1, w1) (ph2, \<sigma>2, w2)"
    show "?P ph2 \<sigma>2 w2" by (rule trans [OF program_ledger [OF assms(2-4) a(1,3)] a(2)])
  qed
  then show ?thesis by (rule conjunct2)
qed

end

section \<open>The account of the work\<close>

definition weigh :: "(byte list \<Rightarrow> nat) \<Rightarrow> byte list multiset \<Rightarrow> int" where
  "weigh wt W = int (\<Sum>x\<in>#W. wt x)"

lemma weigh_tally: "weigh wt W = tally (\<lambda>x. int (wt x)) W"
  by (induction W) (simp_all add: weigh_def tally_def)

lemma weigh_simps [simp]: "weigh wt {#} = 0" "weigh wt (W + W') = weigh wt W + weigh wt W'"
  by (simp_all add: weigh_def)

text \<open>Each call of the process callback turns one unit of weight into one processed object.\<close>

definition consumes :: "'u callbacks \<Rightarrow> (byte list \<Rightarrow> nat) \<Rightarrow> bool" where
  "consumes cb wt \<longleftrightarrow> (\<forall>c c'. wf_queue (queue c) \<longrightarrow> 0 < qcount (queue c) \<longrightarrow> processCallback cb c = Inr c' \<longrightarrow>
     weigh wt (mset (items (queue c'))) + 1 = weigh wt (mset (items (queue c))))"

definition processed :: "int \<Rightarrow> (int \<Rightarrow> 'u state) \<Rightarrow> int" where
  "processed n \<sigma> = (\<Sum>i\<in>{0..<n}. local_objects_processed (\<sigma> i))"

definition account :: "(byte list \<Rightarrow> nat) \<Rightarrow> int \<Rightarrow> (int \<Rightarrow> 'u state) \<Rightarrow> (channel \<Rightarrow> payload list) \<Rightarrow> int" where
  "account wt n \<sigma> p = weigh wt (all_items n \<sigma> p) + processed n \<sigma>"

lemma consumes_settles:
  assumes "consumes cb wt"
  shows "settles cb (\<lambda>x. int (wt x)) (\<lambda>_ k. k)"
  unfolding settles_def
proof (intro allI impI)
  fix c c' and k :: int
  assume "wf_queue (queue c)" "0 < qcount (queue c)" "processCallback cb c = Inr c'"
  with assms have "weigh wt (mset (items (queue c'))) + 1 = weigh wt (mset (items (queue c)))"
    unfolding consumes_def by blast
  then show "tally (\<lambda>x. int (wt x)) (mset (items (queue c'))) + (k + 1)
      = tally (\<lambda>x. int (wt x)) (mset (items (queue c))) + k"
    by (simp add: weigh_tally)
qed

lemma account_ledger: "account wt n \<sigma> p = ledger (\<lambda>x. int (wt x)) (\<lambda>_ k. k) n \<sigma> p"
  by (simp add: account_def ledger_def processed_def credit_def weigh_tally)

context mpi_laws
begin

lemma account_reachable:
  assumes "(program_step E M cb n)\<^sup>*\<^sup>* (ph, \<sigma>, w) (ph', \<sigma>', w')" "env_ok E n" "callbacks_ok cb" "consumes cb wt"
    "base_program n ph \<sigma> (pend w)"
  shows "account wt n \<sigma>' (pend w') = account wt n \<sigma> (pend w)"
proof -
  have "callbacks_keep (\<lambda>_ k::int. k) cb" using assms(3) by (simp add: callbacks_keep_def)
  from ledger_reachable [OF assms(1,2) this consumes_settles [OF assms(4)] assms(5)]
  show ?thesis by (simp only: account_ledger)
qed

end

section \<open>The start\<close>

lemma start_processed:
  assumes "starts_work E n \<sigma>"
  shows "processed n \<sigma> = 0"
  unfolding processed_def
proof (rule sum.neutral, intro ballI)
  fix i assume "i \<in> {0..<n}"
  then have i: "0 \<le> i" "i < n" by auto
  obtain now junk c s c' where s: "State_new E i n now junk c = Inr s" "\<sigma> i = s\<lparr>circ := c'\<rparr>"
    using assms i unfolding starts_work_def by blast
  show "local_objects_processed (\<sigma> i) = 0" using s(2) State_new_sel(24) [OF s(1)] by simp
qed

lemma start_account:
  assumes "starts_work E n \<sigma>" "\<forall>k. p k = []"
  shows "account wt n \<sigma> p = weigh wt (queued n \<sigma>)"
  using start_processed [OF assms(1)] assms(2) by (simp add: account_def all_items_def travelling_def)

section \<open>An example\<close>

text \<open>The callbacks of the example take one item at a time and make no new ones: every item
  weighs one.\<close>

lemma demo_consumes: "consumes demo_callbacks (\<lambda>_. 1)"
  unfolding consumes_def
proof (intro allI impI)
  fix c c' :: "unit circle"
  assume wf: "wf_queue (queue c)" and ne: "0 < qcount (queue c)" and cb: "processCallback demo_callbacks c = Inr c'"
  have rep: "queue_rep (queue c) (items (queue c))" by (rule wf_queue_rep [OF wf])
  then have "items (queue c) \<noteq> []" using ne queue_rep_count by fastforce
  then obtain xs x where xs: "items (queue c) = xs @ [x]" by (metis rev_exhaust)
  with rep have "queue_rep (queue c) (xs @ [x])" by simp
  from dequeue_rep [OF this] obtain q where "dequeue [] c = Inr (0, x, c\<lparr>queue := q\<rparr>)" "queue_rep q xs" by metis
  with cb have "items (queue c') = xs" by (auto simp: demo_callbacks_def dest: queue_rep_items)
  with xs show "weigh (\<lambda>_. 1) (mset (items (queue c'))) + 1 = weigh (\<lambda>_. 1) (mset (items (queue c)))"
    by (simp add: weigh_def)
qed

end
