(* ===== verification/Circle_Whole.thy ===== *)
theory Circle_Whole
  imports Circle_Background Circle_Account
begin

text \<open>
  The whole run of all processes: the iterations of the two loops of \<open>mainLoop\<close> and, for the
  processes that are past them, the final reduction, in any interleaving.  The invariants of
  the other theories are put together; when the root is done with the final reduction, it has
  the sum of what all the work there was at the start is worth.
\<close>

section \<open>Steps\<close>

text \<open>A configuration: the phases of the processes, those that are done with the final reduction,
  the states and the network.\<close>

type_synonym ('u, 'w) system = "(int \<Rightarrow> phase) \<times> int set \<times> (int \<Rightarrow> 'u state) \<times> 'w"

inductive system_step :: "env \<Rightarrow> 'w mpi \<Rightarrow> 'u callbacks \<Rightarrow> int \<Rightarrow> ('u, 'w) system \<Rightarrow> ('u, 'w) system \<Rightarrow> bool"
  for E M cb n where
  loops: "program_step E M cb n (ph, \<sigma>, w) (ph', \<sigma>', w') \<Longrightarrow> system_step E M cb n (ph, D, \<sigma>, w) (ph', D, \<sigma>', w')"
| final: "0 \<le> i \<Longrightarrow> i < n \<Longrightarrow> i \<notin> D \<Longrightarrow> ph i = Finished \<Longrightarrow> reduce_enabled (\<sigma> i) \<Longrightarrow>
    reduceSync E M cb (local_objects_processed (\<sigma> i)) (\<sigma> i) w = Inr (s', w') \<Longrightarrow>
    system_step E M cb n (ph, D, \<sigma>, w) (ph, insert i D, \<sigma>(i := s'), w')"

inductive_cases system_stepE: "system_step E M cb n (ph, D, \<sigma>, w) c"

section \<open>The final reduction beside the exchange\<close>

context mpi_laws
begin

lemma sync_child_aside:
  assumes "callbacks_keep g cb"
  shows "aside g {TAG_REDUCE} s w (sync_child E M cb c s w)"
proof -
  have op: "aside g {TAG_REDUCE} s w (bind_res (reduce_operation cb b k s') (\<lambda>s. Inr (s, w')))"
    if "beside g s s'" "elsewhere {TAG_REDUCE} (pend w) (pend w')" for b k s' w'
    using that by (auto intro!: results_seq [OF reduce_calls(2) [OF assms]] intro: beside_trans)
  show ?thesis
    unfolding sync_child_def Let_def
    apply (rule results_seq [OF recv_elsewhere [where p = "pend w" and T = "{TAG_REDUCE}"]], simp, simp, clarify)
    apply (rule results_bind, clarify)
    apply (auto split: prod.split intro!: results_seq [OF recv_user_data_elsewhere [where p = "pend w"]] op)
    done
qed

lemma sync_children_aside:
  assumes "callbacks_keep g cb"
  shows "aside g {TAG_REDUCE} s w (sync_children E M cb cs s w)"
proof (induction cs arbitrary: s w)
  case (Cons c cs)
  show ?case
    by (simp, rule results_seq [OF sync_child_aside [OF assms]]) (auto intro: aside_trans [OF Cons.IH])
qed simp

lemma reduceSync_aside:
  assumes "callbacks_keep g cb"
  shows "aside g {TAG_REDUCE} s w (reduceSync E M cb k s w)"
proof -
  let ?s = "s\<lparr>local_reduce_buf := (MSG_VALID, k, 0)\<rparr>"
  have init: "results (reduce_init cb ?s) (beside g s)"
    using reduce_calls(1) [OF assms, of ?s] by (auto simp: results_def beside_def bystander_def)
  have up: "aside g {TAG_REDUCE} s w (case getParentRank (tree s2) of
        Some p \<Rightarrow> send_partial M (\<lambda>_. True) p s2 w2
      | None \<Rightarrow> bind_res (reduce_finalize cb s2) (\<lambda>s. Inr (s, w2)))"
    if "beside g s s2" "elsewhere {TAG_REDUCE} (pend w) (pend w2)" for s2 w2
  proof (cases "getParentRank (tree s2)")
    case None
    with that show ?thesis
      by (auto intro!: results_seq [OF reduce_calls(3) [OF assms]] intro: beside_trans)
  next
    case (Some q)
    with that show ?thesis by (auto intro: aside_trans [OF send_partial_aside])
  qed
  have kids: "aside g {TAG_REDUCE} s w (sync_children E M cb cs s1 w)" if "beside g s s1" for cs s1
    by (rule aside_trans [OF sync_children_aside [OF assms]]) (use that in simp_all)
  show ?thesis
    unfolding reduceSync_def
    apply (rule results_seq [OF init])
    apply (rule results_seq [OF kids], assumption, clarify)
    apply (rule up)
     apply assumption+
    done
qed

end

section \<open>The invariant of the whole run\<close>

definition system_inv ::
  "int \<Rightarrow> (int \<Rightarrow> int option) \<Rightarrow> (int \<Rightarrow> int list) \<Rightarrow> (byte list \<Rightarrow> bool) \<Rightarrow> ('u \<Rightarrow> byte list) \<Rightarrow> (byte list \<Rightarrow> 'm::comm_monoid_add)
    \<Rightarrow> (byte list \<Rightarrow> 'u circle \<Rightarrow> 'u circle) \<Rightarrow> (int \<Rightarrow> phase) \<Rightarrow> int set \<Rightarrow> (int \<Rightarrow> 'u state) \<Rightarrow> (channel \<Rightarrow> payload list) \<Rightarrow> bool" where
  "system_inv n par chl dat own h fin ph D \<sigma> p \<longleftrightarrow>
     base_program n ph \<sigma> p \<and> spans n par chl \<sigma> \<and> bar_inv n par chl (bar_of ph \<sigma> p) \<and> settled n ph \<sigma>
     \<and> (\<exists>T X. reduce_net n chl T X ph D \<sigma> p \<and> sync_result par dat own h fin T X D \<sigma>)"

lemma bar_closed:
  assumes "rank_tree n par chl" "bar_inv n par chl (bar_of ph \<sigma> p)" "0 \<le> q" "q < n" "c \<in> set (chl q)" "ph c = Finished"
  shows "ph q = Finished"
  using bar_invD(7) [OF assms(2), of c q] rank_tree.child_bounds [OF assms(1,3-5)] assms(3,6) by (simp add: bar_of_def)

context mpi_laws
begin

lemma loops_inv:
  assumes tree: "rank_tree n par chl" and E: "env_ok E n" and cb: "callbacks_keep g cb"
    and inv: "system_inv n par chl dat own h fin ph D \<sigma> (pend w)" and st: "program_step E M cb n (ph, \<sigma>, w) (ph', \<sigma>', w')"
  shows "system_inv n par chl dat own h fin ph' D \<sigma>' (pend w')"
proof -
  obtain T X where base: "base_program n ph \<sigma> (pend w)" and sp: "spans n par chl \<sigma>" and bar: "bar_inv n par chl (bar_of ph \<sigma> (pend w))"
    and set: "settled n ph \<sigma>" and net: "reduce_net n chl T X ph D \<sigma> (pend w)" and res: "sync_result par dat own h fin T X D \<sigma>"
    using inv unfolding system_inv_def by blast
  note base' = program_base [OF E cb base st]
  note sim = program_sim [OF E cb base sp rank_tree.child_distinct [OF tree] st]
  have bar': "bar_inv n par chl (bar_of ph' \<sigma>' (pend w'))"
    by (rule rank_tree.bar_steps_inv [OF tree conjunct1 [OF sim] bar])
  have net': "reduce_net n chl T X ph' D \<sigma>' (pend w') \<and> settled n ph' \<sigma>'"
    by (rule program_net [OF tree E cb base sp net set st]) (rule bar_closed [OF tree bar'])
  have "\<sigma>' j = \<sigma> j" if "j \<in> D" for j
    using st reduce_netD(3) [OF net that] by cases auto
  then have "sync_result par dat own h fin T X D \<sigma>'" using res sync_result_cong by blast
  with base' conjunct2 [OF sim] bar' net' show ?thesis unfolding system_inv_def by blast
qed

lemma final_inv:
  assumes tree: "rank_tree n par chl" and cb: "callbacks_keep g cb" and rw: "reduces_with E cb dat own comb fin"
    and h: "measures dat h comb" and inv: "system_inv n par chl dat own h fin ph D \<sigma> (pend w)"
    and i: "0 \<le> i" "i < n" "i \<notin> D" "ph i = Finished"
    and run: "reduceSync E M cb (local_objects_processed (\<sigma> i)) (\<sigma> i) w = Inr (s', w')"
  shows "system_inv n par chl dat own h fin ph (insert i D) (\<sigma>(i := s')) (pend w')"
proof -
  obtain T X where base: "base_program n ph \<sigma> (pend w)" and sp: "spans n par chl \<sigma>" and bar: "bar_inv n par chl (bar_of ph \<sigma> (pend w))"
    and set: "settled n ph \<sigma>" and net: "reduce_net n chl T X ph D \<sigma> (pend w)" and res: "sync_result par dat own h fin T X D \<sigma>"
    using inv unfolding system_inv_def by blast
  have b: "beside g (\<sigma> i) s'" "elsewhere {TAG_REDUCE} (pend w) (pend w')"
    using reduceSync_aside [OF cb, where s = "\<sigma> i" and w = w and E = E and k = "local_objects_processed (\<sigma> i)"] run
    by (simp_all add: results_def)
  have wt: "{TAG_REDUCE} \<inter> work_tags = {}" by (simp add: work_tags_def)
  have "base_inv n (\<sigma>(i := s')) (pend w')"
    by (rule bystander_base [where \<sigma> = \<sigma> and i = i, OF _ beside_bystander [OF b(1)] b(2) wt]) (use base in \<open>simp_all add: base_program_def\<close>)
  then have base': "base_program n ph (\<sigma>(i := s')) (pend w')"
    using base b(1) by (simp add: base_program_def beside_def bystander_def)
  have sl: "sidelines \<sigma> (pend w) (\<sigma>(i := s')) (pend w')"
    by (rule beside_sidelines [where \<sigma> = \<sigma> and i = i, OF b(1) elsewhere_mono [OF b(2)]]) simp
  have set': "settled n ph (\<sigma>(i := s'))" using set i(4) by (simp add: settled_def)
  from sync_net(1) [where \<sigma> = \<sigma> and i = i and ph = ph, OF tree sp rw h net res i run] base' set' bar sp
  show ?thesis unfolding system_inv_def by (simp only: sidelines_bar [OF sl] sidelines_spans [OF sl])
qed

lemma start_system:
  assumes tree: "rank_tree n par chl" and st: "starts_work E n \<sigma>" and E: "env_ok E n" and net: "\<forall>k. pend w k = []" and sp: "spans n par chl \<sigma>"
  shows "system_inv n par chl dat own h fin (\<lambda>_. Working) {} \<sigma> (pend w)"
proof -
  have idle: "\<not> reduce_outstanding (\<sigma> i)" "\<not> barrier_started (\<sigma> i)" if i: "0 \<le> i" "i < n" for i
  proof -
    obtain now junk c s c' where s: "State_new E i n now junk c = Inr s" "\<sigma> i = s\<lparr>circ := c'\<rparr>"
      using st i unfolding starts_work_def by blast
    show "\<not> reduce_outstanding (\<sigma> i)" "\<not> barrier_started (\<sigma> i)" using s(2) State_new_sel(17,23) [OF s(1)] by simp_all
  qed
  have "reduce_net n chl T X (\<lambda>_. Working) {} \<sigma> (pend w)" for T X
  proof (rule net_start)
    show "0 \<le> c \<and> c < n \<and> Working = Working" if "0 \<le> q" "q < n" "c \<in> set (chl q)" for q c
      using rank_tree.child_bounds [OF tree that] that by simp
  qed (use net idle in \<open>simp_all add: reducing_def\<close>)
  moreover have "settled n (\<lambda>_. Working) \<sigma>" using idle by (simp add: settled_def)
  moreover have "bar_inv n par chl (bar_of (\<lambda>_. Working) \<sigma> (pend w))"
    by (rule rank_tree.bar_start_inv [OF tree start_bar [OF st net]])
  ultimately show ?thesis using start_base [OF st E net] sp by (simp add: system_inv_def)
qed

end

text \<open>Background reductions in runs of the loops alone: in either mode of termination detection.\<close>

lemma program_steps_inv:
  assumes laws: "mpi_laws M pend" and run: "(program_step E M cb n)\<^sup>*\<^sup>* (ph, \<sigma>, w) (ph', \<sigma>', w')" and tree: "rank_tree n par chl"
    and E: "env_ok E n" and cb: "callbacks_keep g cb" and inv: "system_inv n par chl dat own h fin ph D \<sigma> (pend w)"
  shows "system_inv n par chl dat own h fin ph' D \<sigma>' (pend w')"
  using run
proof (induction "(ph', \<sigma>', w')" arbitrary: ph' \<sigma>' w' rule: rtranclp_induct)
  case base
  show ?case using inv by simp
next
  case (step c)
  obtain ph1 \<sigma>1 w1 where c: "c = (ph1, \<sigma>1, w1)" by (cases c)
  show ?case by (rule mpi_laws.loops_inv [OF laws tree E cb step.hyps(3) [OF c] step.hyps(2) [unfolded c]])
qed

lemma reductions_reachable:
  assumes laws: "mpi_laws M pend" and E: "env_ok E n" and cb: "callbacks_ok cb" and st: "starts_work E n \<sigma>0" and net: "\<forall>k. pend w0 k = []"
    and tr: "kary_tree E n width \<sigma>0" "1 \<le> width" and run: "(program_step E M cb n)\<^sup>*\<^sup>* (\<lambda>_. Working, \<sigma>0, w0) (ph, \<sigma>, w)"
    and i: "0 \<le> i" "i < n" and c: "c \<in> set (kary_children width n i)"
  shows "engaged ph \<sigma> (pend w) i c \<le> 1
    \<and> (ph i \<noteq> Finished \<and> reduce_outstanding (\<sigma> i) \<longrightarrow>
        int (\<Sum>c\<in>set (kary_children width n i). engaged ph \<sigma> (pend w) i c) = int (length (kary_children width n i)) - reduce_replies (\<sigma> i))
    \<and> (ph i = Finished \<longrightarrow> pend w (i, c, TAG_REDUCE) = [] \<and> pend w (c, i, TAG_REDUCE) = [])"
proof -
  note T = kary_rank_tree [OF tr(2)]
  have "system_inv n (kary_parent width) (kary_children width n) (\<lambda>_. True) (\<lambda>_. []) (\<lambda>_. 0::int) (\<lambda>_ c. c) ph {} \<sigma> (pend w)"
    by (rule program_steps_inv [OF laws run T E callbacks_keep_nothing [OF cb]
          mpi_laws.start_system [OF laws T st E net start_spans [OF st E tr]]])
  then obtain T' X where nt: "reduce_net n (kary_children width n) T' X ph {} \<sigma> (pend w)"
    unfolding system_inv_def by blast
  have sum: "int (\<Sum>c\<in>set (kary_children width n i). engaged ph \<sigma> (pend w) i c) = waiting (kary_children width n) ph \<sigma> i"
    using reduce_netD(9) [OF nt i] by simp
  have "engaged ph \<sigma> (pend w) i c \<le> 1" using reduce_netD(7) [OF nt i c] by simp
  moreover have "engaged ph \<sigma> (pend w) i c = 0" if "ph i = Finished"
    using net_quiet [OF nt i _ _ c] that by (simp add: waiting_def reducing_def)
  ultimately show ?thesis using sum by (auto simp: engaged_0 waiting_def reducing_def)
qed

section \<open>All runs\<close>

text \<open>What a process brings to the final reduction is its credit.\<close>

definition worth :: "('u \<Rightarrow> byte list) \<Rightarrow> (byte list \<Rightarrow> 'm) \<Rightarrow> 'u \<Rightarrow> int \<Rightarrow> 'm" where
  "worth own h u k = h (own u)"

context mpi_eager
begin

lemma system_step_kept:
  fixes h :: "byte list \<Rightarrow> 'm::ab_group_add"
  assumes tree: "rank_tree n par chl" and E: "env_ok E n" and cb: "callbacks_keep (worth own h) cb"
    and rw: "reduces_with E cb dat own comb fin" and h: "measures dat h comb" and wt: "settles cb wt (worth own h)"
    and inv: "system_inv n par chl dat own h fin ph D \<sigma> (pend w)" and ring: "ring_program n \<sigma> (pend w)"
    and st: "system_step E M cb n (ph, D, \<sigma>, w) (ph', D', \<sigma>', w')"
  shows "system_inv n par chl dat own h fin ph' D' \<sigma>' (pend w') \<and> ring_program n \<sigma>' (pend w')
    \<and> ledger wt (worth own h) n \<sigma>' (pend w') = ledger wt (worth own h) n \<sigma> (pend w)"
  using st
proof (cases rule: system_step.cases)
  case loops
  have base: "base_program n ph \<sigma> (pend w)" using inv by (simp add: system_inv_def)
  from loops_inv [OF tree E cb inv loops(2)] program_ring [OF E cb base ring loops(2)]
    program_ledger [OF E cb wt base loops(2)] loops(1) show ?thesis by simp
next
  case (final i s')
  have b: "beside (worth own h) (\<sigma> i) s'" "elsewhere {TAG_REDUCE} (pend w) (pend w')"
    using reduceSync_aside [OF cb, where s = "\<sigma> i" and w = w and E = E and k = "local_objects_processed (\<sigma> i)"] final(9)
    by (simp_all add: results_def)
  have tags: "{TAG_REDUCE} \<inter> work_tags = {}" by (simp add: work_tags_def)
  note bs = beside_bystander [OF b(1)]
  have "ring_inv n (\<sigma>(i := s')) (pend w')"
    by (rule bystander_ring [where \<sigma> = \<sigma> and i = i, OF _ bs b(2) tags]) (use ring in \<open>simp add: ring_program_def\<close>)
  then have "ring_program n (\<sigma>(i := s')) (pend w')"
    using ring bs by (simp add: ring_program_def bystander_def)
  with final_inv [OF tree cb rw h inv final(4-7,9)]
    bystander_ledger [where \<sigma> = \<sigma> and i = i, OF bs b(2) tags] show ?thesis
    unfolding final(1-3) by blast
qed

lemma system_reachable:
  fixes h :: "byte list \<Rightarrow> 'm::ab_group_add"
  assumes tree: "rank_tree n par chl" and E: "env_ok E n" and cb: "callbacks_keep (worth own h) cb"
    and rw: "reduces_with E cb dat own comb fin" and h: "measures dat h comb" and wt: "settles cb wt (worth own h)"
    and inv: "system_inv n par chl dat own h fin ph D \<sigma> (pend w)" and ring: "ring_program n \<sigma> (pend w)"
    and run: "(system_step E M cb n)\<^sup>*\<^sup>* (ph, D, \<sigma>, w) (ph', D', \<sigma>', w')"
  shows "system_inv n par chl dat own h fin ph' D' \<sigma>' (pend w') \<and> ring_program n \<sigma>' (pend w')
    \<and> ledger wt (worth own h) n \<sigma>' (pend w') = ledger wt (worth own h) n \<sigma> (pend w)"
  using run
proof (induction "(ph', D', \<sigma>', w')" arbitrary: ph' D' \<sigma>' w' rule: rtranclp_induct)
  case base
  show ?case using inv ring by simp
next
  case (step c)
  obtain ph1 D1 \<sigma>1 w1 where c: "c = (ph1, D1, \<sigma>1, w1)" by (rule prod_cases4)
  from step.hyps(3) [OF c] have IH: "system_inv n par chl dat own h fin ph1 D1 \<sigma>1 (pend w1)" "ring_program n \<sigma>1 (pend w1)"
    "ledger wt (worth own h) n \<sigma>1 (pend w1) = ledger wt (worth own h) n \<sigma> (pend w)" by simp_all
  from system_step_kept [OF tree E cb rw h wt IH(1,2) step.hyps(2) [unfolded c]] IH(3) show ?case by simp
qed

text \<open>When the root is done with the final reduction, so are all processes, and the root has the
  worth of all the work and of the data there was at the start.\<close>

lemma system_total:
  fixes h :: "byte list \<Rightarrow> 'm::ab_group_add"
  assumes E: "env_ok E n" and cb: "callbacks_keep (worth own h) cb"
    and rw: "reduces_with E cb dat own comb fin" and h: "measures dat h comb" and wt: "settles cb wt (worth own h)"
    and st: "starts_work E n \<sigma>0" and net: "\<forall>k. pend w0 k = []" and kt: "kary_tree E n k \<sigma>0" "1 \<le> k"
    and mode: "\<forall>i. 0 \<le> i \<longrightarrow> i < n \<longrightarrow> \<not> term_tree_enabled (\<sigma>0 i)"
    and n: "0 < n" and run: "(system_step E M cb n)\<^sup>*\<^sup>* (\<lambda>_. Working, {}, \<sigma>0, w0) (ph, D, \<sigma>, w)" and root: "0 \<in> D"
  shows "D = {0..<n}" "fst (snd (local_reduce_buf (\<sigma> 0))) = (\<Sum>i\<in>{0..<n}. local_objects_processed (\<sigma> i))"
    "\<exists>x c. circ (\<sigma> 0) = fin x (with_data x c) \<and> dat x
      \<and> h x = tally wt (\<Sum>i\<in>{0..<n}. mset (items (qp (\<sigma>0 i)))) + (\<Sum>i\<in>{0..<n}. h (own (user (circ (\<sigma>0 i)))))"
proof -
  note T = kary_rank_tree [OF kt(2)]
  have "ring_program n \<sigma>0 (pend w0)" using start_ring [OF st E net n] mode by (simp add: ring_program_def)
  note r = system_reachable [OF T E cb rw h wt start_system [OF T st E net start_spans [OF st E kt]] this run]
  then obtain T' X where nt: "reduce_net n (kary_children k n) T' X ph D \<sigma> (pend w)"
    and res: "sync_result (kary_parent k) dat own h fin T' X D \<sigma>" and ring: "ring_inv n \<sigma> (pend w)" and base: "base_program n ph \<sigma> (pend w)"
    unfolding system_inv_def ring_program_def by blast
  note rr = root_result [OF T nt res root]
  show "D = {0..<n}" "fst (snd (local_reduce_buf (\<sigma> 0))) = (\<Sum>i\<in>{0..<n}. local_objects_processed (\<sigma> i))"
    by (rule rr)+
  have "ph 0 = Finished" by (rule reduce_netD(3) [OF nt root])
  moreover have "\<not> term_tree_enabled (\<sigma> 0)" using r n by (simp add: ring_program_def)
  ultimately have "token_proc (\<sigma> 0) = TERMINATE" using base n by (simp add: base_program_def)
  then have none: "all_items n \<sigma> (pend w) = {#}" using finished_items [OF ring_terminated [OF ring, of 0]] n by simp
  have "all_items n \<sigma>0 (pend w0) = (\<Sum>i\<in>{0..<n}. mset (items (qp (\<sigma>0 i))))"
    using net by (simp add: all_items_def travelling_def queued_def)
  with r none have "(\<Sum>i\<in>{0..<n}. h (own (user (circ (\<sigma> i)))))
      = tally wt (\<Sum>i\<in>{0..<n}. mset (items (qp (\<sigma>0 i)))) + (\<Sum>i\<in>{0..<n}. h (own (user (circ (\<sigma>0 i)))))"
    by (simp add: ledger_def credit_def worth_def)
  with rr(3) show "\<exists>x c. circ (\<sigma> 0) = fin x (with_data x c) \<and> dat x
      \<and> h x = tally wt (\<Sum>i\<in>{0..<n}. mset (items (qp (\<sigma>0 i)))) + (\<Sum>i\<in>{0..<n}. h (own (user (circ (\<sigma>0 i)))))"
    by simp
qed

end

section \<open>Runs by evaluation\<close>

lemma loops_steps:
  assumes "(program_step E M cb n)\<^sup>*\<^sup>* (ph, \<sigma>, w) (ph', \<sigma>', w')"
  shows "(system_step E M cb n)\<^sup>*\<^sup>* (ph, D, \<sigma>, w) (ph', D, \<sigma>', w')"
  using assms
proof (induction "(ph', \<sigma>', w')" arbitrary: ph' \<sigma>' w' rule: rtranclp_induct)
  case (step c)
  obtain ph1 \<sigma>1 w1 where c: "c = (ph1, \<sigma>1, w1)" by (cases c)
  from step.hyps(3) [OF c] system_step.loops [OF step.hyps(2) [unfolded c], of D] show ?case
    by (rule rtranclp.rtrancl_into_rtrancl)
qed simp

definition run_final :: "env \<Rightarrow> 'w mpi \<Rightarrow> 'u callbacks \<Rightarrow> int \<Rightarrow> ('u, 'w) system \<Rightarrow> ('u, 'w) system option" where
  "run_final E M cb i c = (case c of (ph, D, \<sigma>, w) \<Rightarrow>
     if ph i = Finished \<and> i \<notin> D \<and> reduce_enabled (\<sigma> i)
     then (case reduceSync E M cb (local_objects_processed (\<sigma> i)) (\<sigma> i) w of
       Inl e \<Rightarrow> None | Inr (s, w) \<Rightarrow> Some (ph, insert i D, \<sigma>(i := s), w))
     else None)"

lemma run_final_step:
  assumes "run_final E M cb i c = Some c'" "0 \<le> i" "i < n"
  shows "system_step E M cb n c c'"
proof -
  obtain ph D \<sigma> w where c: "c = (ph, D, \<sigma>, w)" by (rule prod_cases4)
  obtain s' w' where r: "ph i = Finished" "i \<notin> D" "reduce_enabled (\<sigma> i)"
    "reduceSync E M cb (local_objects_processed (\<sigma> i)) (\<sigma> i) w = Inr (s', w')" "c' = (ph, insert i D, \<sigma>(i := s'), w')"
    using assms(1) c by (auto simp: run_final_def split: if_splits sum.splits)
  show ?thesis unfolding r(5) c
    by (rule system_step.final [where ph = ph and D = D and \<sigma> = \<sigma> and w = w, OF assms(2,3) r(2,1,3,4)])
qed

end
