(* ===== verification/Circle_Example.thy ===== *)
theory Circle_Example
  imports Circle_Whole
begin

text \<open>
  The two example programs of the repository, \<open>src/examples/example.cpp\<close> and
  \<open>src/examples/example_reduction.cpp\<close>: they add up the sizes of the files in a directory.
  The file system, which they reach through \<open>ghc::filesystem\<close>, is a parameter.
\<close>

section \<open>The file system\<close>

record dir_entry =
  path :: "byte list"
  exists_status :: bool
  regular_file :: bool

text \<open>Whether \<open>/bin/\<close> exists and is a directory, what it lists, and the size of a file: none where
  \<open>file_size\<close> throws.  The files do not change during a run.\<close>

record disk =
  is_directory :: bool
  listing :: "dir_entry list"
  file_size :: "byte list \<Rightarrow> 64 word option"

section \<open>Memory of a \<open>size_t\<close>\<close>

text \<open>The bytes of a number of 64 bits, the lowest first, and the number some bytes hold.\<close>

fun le_bytes :: "nat \<Rightarrow> 64 word \<Rightarrow> byte list" where
  "le_bytes 0 w = []"
| "le_bytes (Suc n) w = ucast w # le_bytes n (drop_bit 8 w)"

fun le_word :: "byte list \<Rightarrow> 64 word" where
  "le_word [] = 0"
| "le_word (b # bs) = ucast b + 256 * le_word bs"

text \<open>Reading a \<open>size_t\<close> through a pointer.\<close>

definition read_size_t :: "byte list option \<Rightarrow> 64 word res" where
  "read_size_t buf =
     (case buf of None \<Rightarrow> Inl Undefined
      | Some b \<Rightarrow> guard_res (8 \<le> length b) Undefined (Inr (le_word (take 8 b))))"

lemma length_le_bytes [simp]: "length (le_bytes n w) = n"
  by (induction n arbitrary: w) simp_all

lemma le_word_bytes: "le_word (le_bytes n w) = take_bit (8 * n) w"
proof (induction n arbitrary: w)
  case (Suc n)
  let ?b = "ucast (ucast w :: byte) :: 64 word" and ?r = "push_bit 8 (take_bit (8 * n) (drop_bit 8 w)) :: 64 word"
  have "?b + ?r = or ?b ?r" by (rule disjunctive_add) (auto simp: bit_simps)
  also have "\<dots> = take_bit (8 * Suc n) w" by (rule bit_word_eqI) (auto simp: bit_simps)
  finally show ?case using Suc by (simp add: push_bit_eq_mult mult.commute)
qed simp

lemma le_roundtrip [simp]: "le_word (le_bytes 8 w) = w"
  by (simp add: le_word_bytes take_bit_word_eq_self)

section \<open>The callbacks\<close>

text \<open>The data of the programs: \<open>sztotal\<close> (\<open>sztotal_partial\<close>) and what the last callback prints.\<close>

record example_data =
  sztotal :: "64 word"
  printed :: "64 word list"

fun enqueue_files :: "env \<Rightarrow> dir_entry list \<Rightarrow> example_data circle \<Rightarrow> example_data circle res" where
  "enqueue_files E [] circle = Inr circle"
| "enqueue_files E (i # is) circle =
     (if \<not> exists_status i \<or> \<not> regular_file i then enqueue_files E is circle
      else bind_res (enqueue E (path i) circle) (\<lambda>(_, circle). enqueue_files E is circle))"

definition my_create_some_work :: "env \<Rightarrow> disk \<Rightarrow> example_data circle \<Rightarrow> example_data circle res" where
  "my_create_some_work E d circle = (if is_directory d then enqueue_files E (listing d) circle else Inr circle)"

definition store_in_database :: "64 word \<Rightarrow> example_data \<Rightarrow> example_data" where
  "store_in_database finished_work u = u\<lparr>sztotal := sztotal u + finished_work\<rparr>"

definition my_process_some_work :: "disk \<Rightarrow> example_data circle \<Rightarrow> example_data circle res" where
  "my_process_some_work d circle =
     bind_res (dequeue [] circle) (\<lambda>(_, my_data, circle).
       case file_size d my_data of
         None \<Rightarrow> Inl Uncaught
       | Some finished_work \<Rightarrow> Inr (circle\<lparr>user := store_in_database finished_work (user circle)\<rparr>))"

definition my_reduce_init :: "env \<Rightarrow> example_data circle \<Rightarrow> example_data circle res" where
  "my_reduce_init E circle = Inr (reduce E (le_bytes 8 (sztotal (user circle))) circle)"

definition my_reduce_op ::
  "env \<Rightarrow> example_data circle \<Rightarrow> byte list option \<Rightarrow> nat \<Rightarrow> byte list option \<Rightarrow> nat \<Rightarrow> example_data circle res" where
  "my_reduce_op E circle buf1 size1 buf2 size2 =
     bind_res (read_size_t buf1) (\<lambda>a. bind_res (read_size_t buf2) (\<lambda>b.
       Inr (reduce E (le_bytes 8 (a + b)) circle)))"

definition my_reduce_fini :: "example_data circle \<Rightarrow> byte list option \<Rightarrow> nat \<Rightarrow> example_data circle res" where
  "my_reduce_fini circle buf sz =
     bind_res (read_size_t buf) (\<lambda>sztotal. Inr (circle\<lparr>user := (user circle)\<lparr>printed := printed (user circle) @ [sztotal]\<rparr>\<rparr>))"

definition example_callbacks :: "env \<Rightarrow> disk \<Rightarrow> example_data callbacks" where
  "example_callbacks E d = \<lparr>createCallback = my_create_some_work E d, processCallback = my_process_some_work d,
     reduceInitCallback = None, reduceOperationCallback = None, reduceFinalizeCallback = None\<rparr>"

definition example_reduction_callbacks :: "env \<Rightarrow> disk \<Rightarrow> example_data callbacks" where
  "example_reduction_callbacks E d = \<lparr>createCallback = my_create_some_work E d, processCallback = my_process_some_work d,
     reduceInitCallback = Some (my_reduce_init E), reduceOperationCallback = Some (my_reduce_op E),
     reduceFinalizeCallback = Some my_reduce_fini\<rparr>"

text \<open>The objects that the two \<open>main\<close> functions build, before they call \<open>execute\<close>.\<close>

definition example_circle :: "int \<Rightarrow> nat \<Rightarrow> example_data circle" where
  "example_circle me junk = setLogLevel Info (Circle_new me DefaultFlags junk \<lparr>sztotal = 0, printed = []\<rparr>)"

definition example_reduction_circle :: "int \<Rightarrow> nat \<Rightarrow> example_data circle" where
  "example_reduction_circle me junk = setReducePeriod 10 (example_circle me junk)"

section \<open>What the callbacks do\<close>

text \<open>The files that are enqueued, and the size that a file adds.\<close>

definition chosen :: "disk \<Rightarrow> byte list list" where
  "chosen d = (if is_directory d then map path (filter (\<lambda>i. exists_status i \<and> regular_file i) (listing d)) else [])"

definition size_of :: "disk \<Rightarrow> byte list \<Rightarrow> 64 word" where
  "size_of d x = (case file_size d x of None \<Rightarrow> 0 | Some n \<Rightarrow> n)"

lemma enqueue_files_rep:
  assumes "0 < pagesize E"
  shows "queue_rep (queue c) xs \<Longrightarrow> ys = map path (filter (\<lambda>i. exists_status i \<and> regular_file i) is) \<Longrightarrow>
    \<forall>y \<in> set ys. y \<noteq> [] \<and> length y < 4294967296 \<Longrightarrow> int (length (xs @ ys)) < INT_MAX \<Longrightarrow>
    \<exists>c'. enqueue_files E is c = Inr c' \<and> queue_rep (queue c') (xs @ ys) \<and> user c' = user c"
proof (induction "is" arbitrary: c xs ys)
  case (Cons i "is")
  show ?case
  proof (cases "exists_status i \<and> regular_file i")
    case False
    with Cons.IH [OF Cons.prems(1) refl] Cons.prems(2-4) show ?thesis by auto
  next
    case True
    let ?ys = "map path (filter (\<lambda>i. exists_status i \<and> regular_file i) is)"
    have ys: "ys = path i # ?ys" using True Cons.prems(2) by simp
    obtain q where q: "enqueue E (path i) c = Inr (0, c\<lparr>queue := q\<rparr>)" "queue_rep q (xs @ [path i])"
      using enqueue_rep [OF Cons.prems(1) _ _ _ assms, of "path i"] Cons.prems(3,4) ys by auto
    have "queue_rep (queue (c\<lparr>queue := q\<rparr>)) (xs @ [path i])" using q(2) by simp
    from Cons.IH [OF this refl] Cons.prems(3,4) ys q(1) True show ?thesis by auto
  qed
qed simp

lemma read_size_t_bytes [simp]: "length b = 8 \<Longrightarrow> read_size_t (Some b) = Inr (le_word b)"
  by (simp add: read_size_t_def)

text \<open>The process callback takes an item and adds the size of its file.\<close>

lemma process_effect:
  assumes "wf_queue (queue c)" "0 < qcount (queue c)" "my_process_some_work d c = Inr c'"
  obtains xs x n where "items (queue c) = xs @ [x]" "items (queue c') = xs" "wf_queue (queue c')" "file_size d x = Some n"
    "user c' = store_in_database n (user c)"
proof -
  have rep: "queue_rep (queue c) (items (queue c))" by (rule wf_queue_rep [OF assms(1)])
  then have "items (queue c) \<noteq> []" using assms(2) queue_rep_count by fastforce
  then obtain xs x where xs: "items (queue c) = xs @ [x]" by (metis rev_exhaust)
  with rep have "queue_rep (queue c) (xs @ [x])" by simp
  from dequeue_rep [OF this] obtain q where q: "dequeue [] c = Inr (0, x, c\<lparr>queue := q\<rparr>)" "queue_rep q xs" by metis
  obtain n where "file_size d x = Some n" "c' = c\<lparr>queue := q, user := store_in_database n (user c)\<rparr>"
    using assms(3) q(1) by (auto simp: my_process_some_work_def split: option.splits)
  with that [OF xs] q(2) queue_rep_items queue_rep_wf show thesis by auto
qed

lemma example_settles:
  "settles (example_callbacks E d) (size_of d) (\<lambda>u k. sztotal u)"
  "settles (example_reduction_callbacks E d) (size_of d) (\<lambda>u k. sztotal u)"
proof -
  have one: "tally (size_of d) (mset (items (queue c'))) + sztotal (user c') = tally (size_of d) (mset (items (queue c))) + sztotal (user c)"
    if "wf_queue (queue c)" "0 < qcount (queue c)" "my_process_some_work d c = Inr c'" for c c'
  proof -
    note p = that
    obtain xs x n where "items (queue c) = xs @ [x]" "items (queue c') = xs" "wf_queue (queue c')" "file_size d x = Some n"
      "user c' = store_in_database n (user c)"
      by (rule process_effect [OF p])
    then show ?thesis by (simp add: store_in_database_def size_of_def tally_def ac_simps)
  qed
  show "settles (example_callbacks E d) (size_of d) (\<lambda>u k. sztotal u)"
    "settles (example_reduction_callbacks E d) (size_of d) (\<lambda>u k. sztotal u)"
    using one by (simp_all add: settles_def example_callbacks_def example_reduction_callbacks_def)
qed

lemma reduce_frame [simp]: "queue (reduce E b c) = queue c" "user (reduce E b c) = user c"
  by (simp_all add: reduce_def Let_def)

lemma my_reduce_op_frame: "my_reduce_op E c b m d k = Inr c' \<Longrightarrow> queue c' = queue c \<and> user c' = user c"
  by (auto simp: my_reduce_op_def elim!: bind_res_InrE)

lemma my_reduce_fini_frame: "my_reduce_fini c b m = Inr c' \<Longrightarrow> queue c' = queue c \<and> sztotal (user c') = sztotal (user c)"
  by (auto simp: my_reduce_fini_def elim!: bind_res_InrE)

lemma process_callback_ok:
  assumes "my_process_some_work d c = Inr c'" "wf_queue (queue c)" "fits (items (queue c))"
  shows "wf_queue (queue c')" "fits (items (queue c'))"
proof -
  obtain rc x c1 where dq: "dequeue [] c = Inr (rc, x, c1)" "queue c' = queue c1"
    using assms(1) by (auto simp: my_process_some_work_def elim!: bind_res_InrE split: option.splits)
  obtain q where "pop [] (queue c) = Inr (rc, x, q)" "queue c1 = q"
    using dq(1) by (auto simp: dequeue_def elim!: bind_res_InrE)
  with pop_kept [OF this(1) assms(2,3)] dq(2) show "wf_queue (queue c')" "fits (items (queue c'))" by simp_all
qed

lemma example_keep:
  "callbacks_keep (\<lambda>u (k::int). sztotal u) (example_callbacks E d)"
  "callbacks_keep (\<lambda>u (k::int). sztotal u) (example_reduction_callbacks E d)"
  unfolding callbacks_keep_def callbacks_ok_def
  by (auto simp: example_callbacks_def example_reduction_callbacks_def my_reduce_init_def process_callback_ok
      dest: my_reduce_op_frame my_reduce_fini_frame)

text \<open>The reduction adds the numbers.\<close>

definition note_total :: "byte list \<Rightarrow> example_data circle \<Rightarrow> example_data circle" where
  "note_total x c = c\<lparr>user := (user c)\<lparr>printed := printed (user c) @ [le_word x]\<rparr>\<rparr>"

lemma example_reduces:
  assumes "\<And>k. malloc_ok E k"
  shows "reduces_with E (example_reduction_callbacks E d) (\<lambda>x. length x = 8) (\<lambda>u. le_bytes 8 (sztotal u))
    (\<lambda>x y. le_bytes 8 (le_word x + le_word y)) note_total"
  using assms
  by (auto simp: reduces_with_def example_reduction_callbacks_def my_reduce_init_def my_reduce_op_def my_reduce_fini_def
      note_total_def sized_def INT_MAX_def)

lemma example_measures: "measures (\<lambda>x. length x = 8) le_word (\<lambda>x y. le_bytes 8 (le_word x + le_word y))"
  by (simp add: measures_def)

section \<open>Starts of the programs\<close>

text \<open>As \<open>execute\<close> starts: the state is built, then rank 0 alone calls the create callback (the
  flags have no \<open>CreateGlobal\<close>).\<close>

definition example_start :: "env \<Rightarrow> disk \<Rightarrow> (int \<Rightarrow> nat \<Rightarrow> example_data circle) \<Rightarrow> int \<Rightarrow> (int \<Rightarrow> example_data state) \<Rightarrow> bool" where
  "example_start E d mk n \<sigma> \<longleftrightarrow> (\<forall>i. 0 \<le> i \<longrightarrow> i < n \<longrightarrow> (\<exists>now junk bj s c. State_new E i n now junk (mk i bj) = Inr s
     \<and> (if i = 0 \<or> has_flag (runtimeFlags (mk i bj)) CreateGlobal then my_create_some_work E d (circ s) else Inr (circ s)) = Inr c
     \<and> \<sigma> i = s\<lparr>circ := c\<rparr>))"

lemma State_new_mode:
  assumes "State_new E i n now junk c = Inr s"
  shows "term_tree_enabled s = has_flag (getRuntimeFlags c) TermTree" "reduce_enabled s = (getReducePeriod c > 0)"
  using assms by (auto simp: State_new_def elim!: bind_res_InrE dest!: getNextProc_frame)

lemma create_files:
  assumes "0 < pagesize E" "queue_rep (queue c) xs" "[] \<notin> set (chosen d)" "\<forall>y \<in> set (chosen d). length y < 4294967296"
    "int (length (xs @ chosen d)) < INT_MAX"
  shows "\<exists>c'. my_create_some_work E d c = Inr c' \<and> queue_rep (queue c') (xs @ chosen d) \<and> user c' = user c"
proof (cases "is_directory d")
  case True
  have "\<forall>y \<in> set (chosen d). y \<noteq> [] \<and> length y < 4294967296" using assms(3,4) by blast
  with True show ?thesis
    using enqueue_files_rep [OF assms(1,2), of "chosen d" "listing d"] assms(5) by (simp add: my_create_some_work_def chosen_def)
next
  case False
  with assms(2) show ?thesis by (simp add: my_create_some_work_def chosen_def)
qed

text \<open>What the two objects have in common.\<close>

definition example_like :: "(int \<Rightarrow> nat \<Rightarrow> example_data circle) \<Rightarrow> bool" where
  "example_like mk \<longleftrightarrow> (\<forall>i j. queue (mk i j) = Queue_new \<and> user (mk i j) = \<lparr>sztotal = 0, printed = []\<rparr>
     \<and> runtimeFlags (mk i j) = DefaultFlags \<and> getTreeWidth (mk i j) = 64)"

lemma example_likes: "example_like example_circle" "example_like example_reduction_circle"
  by (simp_all add: example_like_def example_circle_def example_reduction_circle_def Circle_new_def setLogLevel_def
      setReducePeriod_def getTreeWidth_def)

lemma default_flags: "\<not> has_flag DefaultFlags CreateGlobal" "\<not> has_flag DefaultFlags TermTree"
  by code_simp+

lemma example_start_facts:
  assumes mk: "example_like mk" and E: "env_ok E n" and ok: "fits (chosen d)" "[] \<notin> set (chosen d)"
    and st: "example_start E d mk n \<sigma>"
  shows "starts_work E n \<sigma>" "kary_tree E n 64 \<sigma>" "\<And>i. 0 \<le> i \<Longrightarrow> i < n \<Longrightarrow> \<not> term_tree_enabled (\<sigma> i)"
    "\<And>i. 0 \<le> i \<Longrightarrow> i < n \<Longrightarrow> items (qp (\<sigma> i)) = (if i = 0 then chosen d else [])"
    "\<And>i. 0 \<le> i \<Longrightarrow> i < n \<Longrightarrow> user (circ (\<sigma> i)) = \<lparr>sztotal = 0, printed = []\<rparr>"
proof -
  have pg: "0 < pagesize E" using E by (simp add: env_ok_def)
  have short: "length x \<le> length (concat xs)" if "x \<in> set xs" for x :: "byte list" and xs
    using that by (induction xs) auto
  have create: "\<exists>c'. my_create_some_work E d c = Inr c' \<and> queue_rep (queue c') (chosen d) \<and> user c' = user c"
    if "queue_rep (queue c) []" for c
  proof -
    have "length y < 4294967296" if "y \<in> set (chosen d)" for y
      using ok that short [OF that] by (auto simp: fits_def INT_MAX_def)
    moreover have "int (length ([] @ chosen d)) < INT_MAX" using ok(1) by (simp add: fits_def)
    ultimately show ?thesis using create_files [OF pg that ok(2)] by simp
  qed
  have "(\<exists>now junk c s c'. State_new E i n now junk c = Inr s \<and> int (length (strings (queue c))) \<le> INT_MAX
        \<and> \<sigma> i = s\<lparr>circ := c'\<rparr> \<and> wf_queue (queue c') \<and> fits (items (queue c')))
      \<and> TreeState_new (malloc_ok E) i n 64 = Inr (tree (\<sigma> i)) \<and> \<not> term_tree_enabled (\<sigma> i)
      \<and> items (qp (\<sigma> i)) = (if i = 0 then chosen d else []) \<and> user (circ (\<sigma> i)) = \<lparr>sztotal = 0, printed = []\<rparr>"
    if i: "0 \<le> i" "i < n" for i
  proof -
    obtain now junk bj s c where s: "State_new E i n now junk (mk i bj) = Inr s"
      and c: "(if i = 0 \<or> has_flag (runtimeFlags (mk i bj)) CreateGlobal then my_create_some_work E d (circ s) else Inr (circ s)) = Inr c"
      and \<sigma>: "\<sigma> i = s\<lparr>circ := c\<rparr>"
      using st i unfolding example_start_def by blast
    have mk': "queue (mk i bj) = Queue_new" "user (mk i bj) = \<lparr>sztotal = 0, printed = []\<rparr>"
      "runtimeFlags (mk i bj) = DefaultFlags" "getTreeWidth (mk i bj) = 64"
      using mk by (simp_all add: example_like_def)
    have cs: "circ s = mk i bj" using State_new_sel(6) [OF s] .
    have rep: "queue_rep (queue (circ s)) []" using mk'(1) cs by simp
    have c': "queue_rep (queue c) (if i = 0 then chosen d else []) \<and> user c = user (circ s)"
      using create [OF rep] c mk'(3) default_flags(1) rep by (auto split: if_splits)
    have q: "wf_queue (queue c)" "items (queue c) = (if i = 0 then chosen d else [])"
      using c' queue_rep_wf queue_rep_items by blast+
    have ft: "fits (items (queue c))" unfolding q(2) using ok(1) by (simp add: fits_def INT_MAX_def)
    have len: "int (length (strings (queue (mk i bj)))) \<le> INT_MAX" by (simp add: mk'(1) Queue_new_def INT_MAX_def)
    have "\<exists>now junk c s c'. State_new E i n now junk c = Inr s \<and> int (length (strings (queue c))) \<le> INT_MAX
        \<and> \<sigma> i = s\<lparr>circ := c'\<rparr> \<and> wf_queue (queue c') \<and> fits (items (queue c'))"
      using s len \<sigma> q(1) ft by (intro exI conjI)
    moreover have "TreeState_new (malloc_ok E) i n 64 = Inr (tree s)" using State_new_sel(22) [OF s] mk'(4) by simp
    moreover have "\<not> term_tree_enabled s" using State_new_mode(1) [OF s] mk'(3) default_flags(2) by (simp add: getRuntimeFlags_def)
    ultimately show ?thesis using q(2) \<sigma> c' cs mk'(2) by simp
  qed
  then show "starts_work E n \<sigma>" "kary_tree E n 64 \<sigma>" "\<And>i. 0 \<le> i \<Longrightarrow> i < n \<Longrightarrow> \<not> term_tree_enabled (\<sigma> i)"
    "\<And>i. 0 \<le> i \<Longrightarrow> i < n \<Longrightarrow> items (qp (\<sigma> i)) = (if i = 0 then chosen d else [])"
    "\<And>i. 0 \<le> i \<Longrightarrow> i < n \<Longrightarrow> user (circ (\<sigma> i)) = \<lparr>sztotal = 0, printed = []\<rparr>"
    unfolding starts_work_def kary_tree_def by blast+
qed

lemma start_sum:
  assumes "\<And>i. 0 \<le> i \<Longrightarrow> i < n \<Longrightarrow> items (qp (\<sigma> i)) = (if i = 0 then xs else [])" "0 < n"
  shows "(\<Sum>i\<in>{0..<n::int}. mset (items (qp (\<sigma> i)))) = mset xs"
proof -
  have "(\<Sum>i\<in>{0..<n}. mset (items (qp (\<sigma> i)))) = (\<Sum>i\<in>{0..<n}. if i = 0 then mset xs else {#})"
    by (rule sum.cong) (use assms(1) in auto)
  also have "\<dots> = mset xs" using assms(2) by simp
  finally show ?thesis .
qed

section \<open>The programs as a whole\<close>

definition fresh :: "int \<Rightarrow> (int \<Rightarrow> example_data state) \<Rightarrow> bool" where
  "fresh n \<sigma> \<longleftrightarrow> (\<forall>i. 0 \<le> i \<longrightarrow> i < n \<longrightarrow> user (circ (\<sigma> i)) = \<lparr>sztotal = 0, printed = []\<rparr>)"

text \<open>The sizes of the files that are queued at all processes.\<close>

definition queued_sizes :: "disk \<Rightarrow> int \<Rightarrow> (int \<Rightarrow> example_data state) \<Rightarrow> 64 word" where
  "queued_sizes d n \<sigma> = (\<Sum>i\<in>{0..<n}. \<Sum>x\<leftarrow>items (qp (\<sigma> i)). size_of d x)"

lemma tally_sum: "tally wt (\<Sum>i\<in>A. W i) = (\<Sum>i\<in>A. tally wt (W i))"
  by (induction A rule: infinite_finite_induct) simp_all

lemma tally_mset: "tally wt (mset xs) = (\<Sum>x\<leftarrow>xs. wt x)"
  by (simp add: tally_def sum_mset_sum_list flip: mset_map)

lemma queued_sizes_tally: "queued_sizes d n \<sigma> = tally (size_of d) (\<Sum>i\<in>{0..<n}. mset (items (qp (\<sigma> i))))"
  by (simp add: queued_sizes_def tally_sum tally_mset)

text \<open>Once one process has left the work loop, the partial sizes of all processes add up to the
  total size of the files that were queued.\<close>

lemma example_total:
  assumes eager: "mpi_eager M pend" and E: "env_ok E n" and st: "starts_work E n \<sigma>0" and fresh: "fresh n \<sigma>0"
    and mode: "\<forall>i. 0 \<le> i \<longrightarrow> i < n \<longrightarrow> \<not> term_tree_enabled (\<sigma>0 i)" and net: "\<forall>k. pend w0 k = []"
    and run: "(program_step E M (example_callbacks E d) n)\<^sup>*\<^sup>* (\<lambda>_. Working, \<sigma>0, w0) (ph, \<sigma>, w)"
    and i: "0 \<le> i" "i < n" "ph i \<noteq> Working"
  shows "(\<Sum>j\<in>{0..<n}. sztotal (user (circ (\<sigma> j)))) = queued_sizes d n \<sigma>0"
proof -
  note laws = mpi_eager.axioms(1) [OF eager]
  let ?d = "\<lambda>u (k::int). sztotal u"
  have "ledger (size_of d) ?d n \<sigma> (pend w) = ledger (size_of d) ?d n \<sigma>0 (pend w0)"
    by (rule mpi_laws.ledger_reachable [OF laws run E example_keep(1) example_settles(1) start_base [OF st E net]])
  moreover have "all_items n \<sigma> (pend w) = {#}"
    by (rule finished_items [OF ring_reachable [OF eager E callbacks_keep_ok [OF example_keep(1)] st net mode run i]])
  moreover have "all_items n \<sigma>0 (pend w0) = (\<Sum>i\<in>{0..<n}. mset (items (qp (\<sigma>0 i))))"
    using net by (simp add: all_items_def travelling_def queued_def)
  moreover have "credit ?d n \<sigma>0 = 0"
    unfolding credit_def by (rule sum.neutral) (use fresh in \<open>auto simp: fresh_def\<close>)
  ultimately show ?thesis by (simp add: ledger_def credit_def queued_sizes_tally)
qed

text \<open>With the reduction, the root prints the total size of the files at the end.\<close>

lemma example_reduction_total:
  assumes eager: "mpi_eager M pend" and E: "env_ok E n" and st: "starts_work E n \<sigma>0" and fresh: "fresh n \<sigma>0"
    and tree: "kary_tree E n k \<sigma>0" "1 \<le> k"
    and mode: "\<forall>i. 0 \<le> i \<longrightarrow> i < n \<longrightarrow> \<not> term_tree_enabled (\<sigma>0 i)" and net: "\<forall>k. pend w0 k = []" and n: "0 < n"
    and run: "(system_step E M (example_reduction_callbacks E d) n)\<^sup>*\<^sup>* (\<lambda>_. Working, {}, \<sigma>0, w0) (ph, D, \<sigma>, w)" and root: "0 \<in> D"
  shows "D = {0..<n} \<and> (\<exists>ts. printed (user (circ (\<sigma> 0))) = ts @ [queued_sizes d n \<sigma>0])"
proof -
  let ?own = "\<lambda>u. le_bytes 8 (sztotal u)" and ?cb = "example_reduction_callbacks E d"
  have w: "worth ?own le_word = (\<lambda>u k. sztotal u)" by (simp add: worth_def fun_eq_iff)
  have mal: "malloc_ok E k" for k using E by (simp add: env_ok_def)
  have keep: "callbacks_keep (worth ?own le_word) ?cb" unfolding w by (rule example_keep(2))
  have settles: "settles ?cb (size_of d) (worth ?own le_word)" unfolding w by (rule example_settles(2))
  note t = mpi_eager.system_total [OF eager E keep example_reduces [OF mal] example_measures settles st net tree mode n run root]
  obtain x c where x: "circ (\<sigma> 0) = note_total x (with_data x c)"
    "le_word x = tally (size_of d) (\<Sum>i\<in>{0..<n}. mset (items (qp (\<sigma>0 i)))) + (\<Sum>i\<in>{0..<n}. le_word (?own (user (circ (\<sigma>0 i)))))"
    using t(3) by blast
  have "(\<Sum>i\<in>{0..<n}. le_word (?own (user (circ (\<sigma>0 i))))) = 0"
    by (rule sum.neutral) (use fresh in \<open>auto simp: fresh_def\<close>)
  with t(1) x show ?thesis by (simp add: note_total_def queued_sizes_tally)
qed

text \<open>From the programs' own start, the queued files are the regular files of the directory.\<close>

lemma example_start_sizes:
  assumes "example_like mk" "env_ok E n" "fits (chosen d)" "[] \<notin> set (chosen d)" "example_start E d mk n \<sigma>" "0 < n"
  shows "starts_work E n \<sigma>" "fresh n \<sigma>" "kary_tree E n 64 \<sigma>" "\<forall>i. 0 \<le> i \<longrightarrow> i < n \<longrightarrow> \<not> term_tree_enabled (\<sigma> i)"
    "queued_sizes d n \<sigma> = (\<Sum>x\<leftarrow>chosen d. size_of d x)"
  using example_start_facts [OF assms(1-5)] start_sum [where \<sigma> = \<sigma> and n = n and xs = "chosen d"] assms(6)
  by (simp_all add: fresh_def queued_sizes_tally tally_mset)

section \<open>A run of each\<close>

text \<open>Two files, of 100 and 23 bytes, in the queue of rank 0.\<close>

definition demo_disk :: disk where
  "demo_disk = \<lparr>is_directory = True,
     listing = [\<lparr>path = [7], exists_status = True, regular_file = True\<rparr>,
       \<lparr>path = [5, 5], exists_status = True, regular_file = False\<rparr>,
       \<lparr>path = [8, 9], exists_status = True, regular_file = True\<rparr>],
     file_size = (\<lambda>x. if x = [7] then Some 100 else if x = [8, 9] then Some 23 else None)\<rparr>"

definition demo_example :: "(int \<Rightarrow> nat \<Rightarrow> example_data circle) \<Rightarrow> int \<Rightarrow> example_data state" where
  "demo_example mk i = projr (State_new demo_env i 2 0 0 ((mk i 0)\<lparr>queue := demo_queue i\<rparr>))"

definition example_end :: "(example_data, fifo) program" where
  "example_end = the (run_program demo_env fifo_mpi (example_callbacks demo_env demo_disk)
     [1, 0, 1, 0, 1, 0, 1, 0, 1, 0, 1, 0, 1, 0, 1] (\<lambda>_. Working, demo_example example_circle, fifo_new 2))"

definition reduction_end :: "(example_data, fifo) program" where
  "reduction_end = the (run_program demo_env fifo_mpi (example_reduction_callbacks demo_env demo_disk)
     [1, 0, 1, 0, 1, 0, 1, 0, 1, 0, 1, 0, 1, 0, 1] (\<lambda>_. Working, demo_example example_reduction_circle, fifo_new 2))"

lemma demo_example_new:
  assumes "mk = example_circle \<or> mk = example_reduction_circle" "i = 0 \<or> i = 1"
  shows "State_new demo_env i 2 0 0 ((mk i 0)\<lparr>queue := demo_queue i\<rparr>) = Inr (demo_example mk i)"
proof -
  have "\<not> isl (State_new demo_env 0 2 0 0 ((example_circle 0 0)\<lparr>queue := demo_queue 0\<rparr>))"
    "\<not> isl (State_new demo_env 1 2 0 0 ((example_circle 1 0)\<lparr>queue := demo_queue 1\<rparr>))"
    "\<not> isl (State_new demo_env 0 2 0 0 ((example_reduction_circle 0 0)\<lparr>queue := demo_queue 0\<rparr>))"
    "\<not> isl (State_new demo_env 1 2 0 0 ((example_reduction_circle 1 0)\<lparr>queue := demo_queue 1\<rparr>))"
    by code_simp+
  with assms show ?thesis by (auto simp: demo_example_def)
qed

lemma demo_example_start:
  assumes mk: "mk = example_circle \<or> mk = example_reduction_circle"
  shows "starts_work demo_env 2 (demo_example mk)" "fresh 2 (demo_example mk)" "kary_tree demo_env 2 64 (demo_example mk)"
    "\<forall>i. 0 \<le> i \<longrightarrow> i < 2 \<longrightarrow> \<not> term_tree_enabled (demo_example mk i)" "queued_sizes demo_disk 2 (demo_example mk) = 123"
proof -
  have two: "i = 0 \<or> i = 1" if "0 \<le> i" "i < 2" for i :: int using that by auto
  note new = demo_example_new [OF mk]
  have like: "user (mk i j) = \<lparr>sztotal = 0, printed = []\<rparr>" "runtimeFlags (mk i j) = DefaultFlags" "getTreeWidth (mk i j) = 64" for i j
    using mk example_likes by (auto simp: example_like_def)
  show "starts_work demo_env 2 (demo_example mk)"
    by (rule starts_two [OF new, where xs = "\<lambda>i. if i = 0 then [[7], [8, 9]] else []"])
      (use demo_queue_rep in \<open>auto simp: demo_queue_def fits_def INT_MAX_def\<close>)
  have each: "user (circ (demo_example mk i)) = \<lparr>sztotal = 0, printed = []\<rparr>" "\<not> term_tree_enabled (demo_example mk i)"
    "TreeState_new (malloc_ok demo_env) i 2 64 = Inr (tree (demo_example mk i))" "qp (demo_example mk i) = demo_queue i"
    if "i = 0 \<or> i = 1" for i
    using State_new_sel(6,22) [OF new [OF that]] State_new_mode(1) [OF new [OF that]] like default_flags(2)
    by (simp_all add: getRuntimeFlags_def getTreeWidth_def)
  show "fresh 2 (demo_example mk)" using each(1) two by (simp add: fresh_def)
  show "kary_tree demo_env 2 64 (demo_example mk)" using each(3) two by (simp add: kary_tree_def)
  show "\<forall>i. 0 \<le> i \<longrightarrow> i < 2 \<longrightarrow> \<not> term_tree_enabled (demo_example mk i)" using each(2) two by blast
  have "items (demo_queue 0) = [[7], [8, 9]]" "items (demo_queue 1) = []"
    using queue_rep_items demo_queue_rep by (blast, simp add: queue_rep_items [OF demo_queue_rep(2)])
  moreover have "{0..<2} = {0, 1::int}" by auto
  ultimately show "queued_sizes demo_disk 2 (demo_example mk) = 123"
    using each(4) by (simp add: queued_sizes_def size_of_def demo_disk_def)
qed

lemma ends_of_run:
  assumes "run_program demo_env fifo_mpi cb [1, 0, 1, 0, 1, 0, 1, 0, 1, 0, 1, 0, 1, 0, 1] c \<noteq> None"
  shows "(program_step demo_env fifo_mpi cb 2)\<^sup>*\<^sup>* c (the (run_program demo_env fifo_mpi cb [1, 0, 1, 0, 1, 0, 1, 0, 1, 0, 1, 0, 1, 0, 1] c))"
  using assms by (intro run_program_steps [where js = "[1, 0, 1, 0, 1, 0, 1, 0, 1, 0, 1, 0, 1, 0, 1]"]) auto

lemma example_run:
  "(program_step demo_env fifo_mpi (example_callbacks demo_env demo_disk) 2)\<^sup>*\<^sup>*
     (\<lambda>_. Working, demo_example example_circle, fifo_new 2) example_end"
  unfolding example_end_def by (rule ends_of_run) code_simp

lemma example_end_finished: "fst example_end 0 = Finished"
proof -
  have "case example_end of (ph, _) \<Rightarrow> ph 0 = Finished" by code_simp
  then show ?thesis by (simp add: case_prod_beta)
qed

text \<open>Both processes finish, then process 1 and process 0 do the final reduction.\<close>

definition reduction_start :: "(example_data, fifo) system" where
  "reduction_start = (\<lambda>_. Working, {}, demo_example example_reduction_circle, fifo_new 2)"

definition loops_end :: "(example_data, fifo) system" where
  "loops_end = (case reduction_end of (ph, \<sigma>, w) \<Rightarrow> (ph, {}, \<sigma>, w))"

definition one_final :: "(example_data, fifo) system" where
  "one_final = the (run_final demo_env fifo_mpi (example_reduction_callbacks demo_env demo_disk) 1 loops_end)"

definition whole_end :: "(example_data, fifo) system" where
  "whole_end = the (run_final demo_env fifo_mpi (example_reduction_callbacks demo_env demo_disk) 0 one_final)"

lemma whole_run:
  "(system_step demo_env fifo_mpi (example_reduction_callbacks demo_env demo_disk) 2)\<^sup>*\<^sup>* reduction_start whole_end"
proof -
  let ?cb = "example_reduction_callbacks demo_env demo_disk" and ?step = "system_step demo_env fifo_mpi (example_reduction_callbacks demo_env demo_disk) 2"
  obtain ph \<sigma> w where e: "reduction_end = (ph, \<sigma>, w)" by (rule prod_cases3)
  have "(program_step demo_env fifo_mpi ?cb 2)\<^sup>*\<^sup>* (\<lambda>_. Working, demo_example example_reduction_circle, fifo_new 2) reduction_end"
    unfolding reduction_end_def by (rule ends_of_run) code_simp
  from loops_steps [OF this [unfolded e]] have loops: "?step\<^sup>*\<^sup>* reduction_start loops_end"
    by (simp add: reduction_start_def loops_end_def e)
  have "run_final demo_env fifo_mpi ?cb 1 loops_end \<noteq> None" by code_simp
  then have one: "?step loops_end one_final" by (intro run_final_step [where i = 1]) (auto simp: one_final_def)
  have "run_final demo_env fifo_mpi ?cb 0 one_final \<noteq> None" by code_simp
  then have "?step one_final whole_end" by (intro run_final_step [where i = 0]) (auto simp: whole_end_def)
  with loops one show ?thesis by (meson rtranclp.rtrancl_into_rtrancl)
qed

lemma whole_end_root: "0 \<in> fst (snd whole_end)"
  by code_simp

end
