(* ===== verification/Circle_Log.thy ===== *)
theory Circle_Log
  imports Circle_Account
begin

text \<open>
  What the library prints: the line that \<open>Circle::log\<close> of \<open>include/lanl_circle.hpp\<close> writes, the
  settings that \<open>CircleImpl::execute\<close> reports, and the summary of a run that
  \<open>State::printSummary\<close> gathers at rank 0.  A message is a level and a text; the file and line a
  message carries, and how a percentage is printed, are parameters.
\<close>

section \<open>One line\<close>

type_synonym message = "LogLevel \<times> string"

definition level_label :: "LogLevel \<Rightarrow> string" where
  "level_label l =
     (if l = Fatal then ''FATL'' else if l = Error then ''ERRO'' else if l = Warning then ''WARN''
      else if l = Info then ''INFO'' else if l = Debug then ''DEBG'' else ''NONE'')"

definition Circle_log :: "LogLevel \<Rightarrow> string \<Rightarrow> int \<Rightarrow> int \<Rightarrow> string \<Rightarrow> 'u circle \<Rightarrow> string \<Rightarrow> string" where
  "Circle_log level filename lineno now text c logStream =
     (if level > getLogLevel c then logStream
      else logStream @ ''['' @ level_label level @ ''] '' @ show_int now @ '':'' @ show_int (getRank c) @ '':''
        @ filename @ '':'' @ show_int lineno @ '': '' @ text @ [CHR 0x0A])"

section \<open>Settings\<close>

definition show_settings :: "'u circle \<Rightarrow> message list" where
  "show_settings c =
     (if has_flag (runtimeFlags c) SplitEqual then [(Debug, ''Using equalized load splitting.'')] else [])
     @ (if has_flag (runtimeFlags c) SplitRandom then [(Debug, ''Using randomized load splitting.'')] else [])
     @ (if has_flag (runtimeFlags c) CreateGlobal then [(Debug, ''Create callback enabled on all ranks.'')]
        else [(Debug, ''Create callback enabled on rank 0 only.'')])
     @ (if has_flag (runtimeFlags c) TermTree then [(Debug, ''Using tree termination detection.'')]
        else [(Debug, ''Using circle termination detection.'')])
     @ [(Debug, ''Tree width: '' @ show_int (tree_width c)), (Debug, ''Reduce period (secs): '' @ show_int (reduce_period c))]"

section \<open>Summary\<close>

text \<open>\<open>MPI_Gather\<close> collects one number of every process, \<open>MPI_Reduce\<close> adds them up; the arrays hold
  32-bit numbers without a sign, which \<open>%d\<close> prints with one.\<close>

definition gathered :: "('u state \<Rightarrow> int) \<Rightarrow> int \<Rightarrow> (int \<Rightarrow> 'u state) \<Rightarrow> nat list" where
  "gathered f n \<sigma> = map (\<lambda>i. nat (f (\<sigma> (int i)) mod 2 ^ 32)) [0..<nat n]"

definition summary_rank :: "(nat \<Rightarrow> int \<Rightarrow> string) \<Rightarrow> nat list \<Rightarrow> nat list \<Rightarrow> nat list \<Rightarrow> int \<Rightarrow> nat \<Rightarrow> message list" where
  "summary_rank percent objects requests refusals overall i =
     [(Info, ''Rank '' @ show_int (int i) @ [CHR 0x09] @ ''Objects Processed '' @ show_int (to_int32 (objects ! i)) @ [CHR 0x09]
        @ percent (objects ! i) overall @ ''%''),
      (Info, ''Rank '' @ show_int (int i) @ [CHR 0x09] @ ''Work requests: '' @ show_int (to_int32 (requests ! i))),
      (Info, ''Rank '' @ show_int (int i) @ [CHR 0x09] @ ''No work replies: '' @ show_int (to_int32 (refusals ! i)))]"

definition printSummary :: "(nat \<Rightarrow> int \<Rightarrow> string) \<Rightarrow> int \<Rightarrow> (int \<Rightarrow> 'u state) \<Rightarrow> message list res" where
  "printSummary percent n \<sigma> =
     (let objects = gathered local_objects_processed n \<sigma>;
          requests = gathered (\<lambda>s. int (local_work_requested s)) n \<sigma>;
          refusals = gathered (\<lambda>s. int (local_no_work_received s)) n \<sigma>
      in bind_res (ck_int (\<Sum>i\<in>{0..<n}. local_objects_processed (\<sigma> i))) (\<lambda>overall.
        Inr (concat (map (summary_rank percent objects requests refusals overall) [0..<nat n])
          @ [(Info, ''Total Objects Processed: '' @ show_int overall)])))"

section \<open>What the summary says\<close>

lemma length_gathered [simp]: "length (gathered f n \<sigma>) = nat n"
  by (simp add: gathered_def)

lemma gathered_nth:
  assumes "i < nat n" "0 \<le> f (\<sigma> (int i))" "f (\<sigma> (int i)) \<le> INT_MAX"
  shows "to_int32 (gathered f n \<sigma> ! i) = f (\<sigma> (int i))"
  using assms by (simp add: gathered_def INT_MAX_def)

lemma sum_ranks: "(\<Sum>i\<in>{0..<n}. f i) = (\<Sum>i\<leftarrow>[0..<nat n]. f (int i))" for f :: "int \<Rightarrow> int"
proof -
  have "{0..<n} = int ` {0..<nat n}" by (cases "0 \<le> n") (simp_all add: image_int_atLeastLessThan)
  then have "(\<Sum>i\<in>{0..<n}. f i) = (\<Sum>i\<in>{0..<nat n}. f (int i))" by (simp add: sum.reindex)
  then show ?thesis by (simp add: interv_sum_list_conv_sum_set_nat)
qed

lemma gathered_sum:
  assumes "\<forall>i. 0 \<le> i \<longrightarrow> i < n \<longrightarrow> 0 \<le> f (\<sigma> i) \<and> f (\<sigma> i) \<le> INT_MAX"
  shows "(\<Sum>x\<leftarrow>gathered f n \<sigma>. to_int32 x) = (\<Sum>i\<in>{0..<n}. f (\<sigma> i))"
proof -
  have "map to_int32 (gathered f n \<sigma>) = map (\<lambda>i. f (\<sigma> (int i))) [0..<nat n]"
    using assms by (intro nth_equalityI) (simp_all add: gathered_nth)
  then show ?thesis by (simp add: sum_ranks [of "\<lambda>i. f (\<sigma> i)"])
qed

text \<open>Three lines for each rank, and the total.\<close>

lemma summary_lines:
  assumes "in_int (\<Sum>i\<in>{0..<n}. local_objects_processed (\<sigma> i))"
  shows "\<exists>ms. printSummary percent n \<sigma>
      = Inr (ms @ [(Info, ''Total Objects Processed: '' @ show_int (\<Sum>i\<in>{0..<n}. local_objects_processed (\<sigma> i)))])
    \<and> length ms = 3 * nat n"
  using assms by (simp add: printSummary_def Let_def length_concat comp_def summary_rank_def sum_list_triv)

section \<open>The counters stay in range\<close>

definition in_count :: "int \<Rightarrow> (int \<Rightarrow> 'u state) \<Rightarrow> bool" where
  "in_count n \<sigma> \<longleftrightarrow> (\<forall>j. 0 \<le> j \<longrightarrow> j < n \<longrightarrow> 0 \<le> local_objects_processed (\<sigma> j) \<and> local_objects_processed (\<sigma> j) \<le> INT_MAX)"

lemma in_count_same: "in_count n \<sigma> \<Longrightarrow> local_objects_processed s' = local_objects_processed (\<sigma> i) \<Longrightarrow> in_count n (\<sigma>(i := s'))"
  by (simp add: in_count_def)

context mpi_laws
begin

lemma exchange_count:
  assumes "env_ok E n" "proto n \<sigma> (pend w)" "exchange_step E M n (\<sigma>, w) (\<sigma>', w')" "in_count n \<sigma>"
  shows "in_count n \<sigma>'"
  using assms(4) transfer_user(2) [OF exchange_transfer [OF assms(1-3)]] by (simp add: in_count_def)

lemma fine_count:
  assumes E: "env_ok E n" and inv: "base_inv n \<sigma> (pend w)" and c: "in_count n \<sigma>" and st: "fine g E cb n i (\<sigma>, w) (\<sigma>', w')"
  shows "in_count n \<sigma>'"
proof -
  have pr: "proto n \<sigma> (pend w)" using inv by (simp add: base_inv_def)
  from st consider "exchange_step E M n (\<sigma>, w) (\<sigma>', w')" | "process_step cb n (\<sigma>, w) (\<sigma>', w')"
    | "beside_step g E M pend cb n i (\<sigma>, w) (\<sigma>', w')" | "token_step E M n (\<sigma>, w) (\<sigma>', w')"
    unfolding fine_step_def ring_step_def work_step_rel_def by blast
  then show ?thesis
  proof cases
    case 1 then show ?thesis using exchange_count [OF E pr _ c] by blast
  next
    case 2
    then show ?thesis
    proof cases
      case (process i s')
      obtain c' where "s' = (\<sigma> i)\<lparr>circ := c', local_objects_processed := local_objects_processed (\<sigma> i) + 1\<rparr>"
        "in_int (local_objects_processed (\<sigma> i) + 1)"
        using process(7) by (auto simp: process_one_def ck_int_eq_Inr elim!: bind_res_InrE)
      with c process(1) show ?thesis by (simp add: in_count_def in_int_def)
    qed
  next
    case 3
    then show ?thesis
    proof cases
      case (beside s')
      from beside(4) c show ?thesis unfolding beside(1) by (intro in_count_same) (simp_all add: beside_def bystander_def)
    qed
  next
    case 4
    then show ?thesis
    proof cases
      case (check i rc s1 w1 st s')
      let ?\<sigma> = "\<sigma>(i := s1)"
      have ex: "exchange_step E M n (\<sigma>, w) (?\<sigma>, w1)"
        by (rule exchange_step.request [where cleanup = False]) (use check in simp_all)
      have ck: "checkForTerm M (?\<sigma> i) w1 = Inr (st, s', w')" using check(7) by simp
      obtain lc tb tp tr where "s' = token_update lc tb tp tr (?\<sigma> i)" using checkForTerm_frame(1) [OF ck] by blast
      then have "in_count n (?\<sigma>(i := s'))"
        by (intro in_count_same exchange_count [OF E pr ex c]) (simp add: token_update_def)
      then show ?thesis using check(1) by simp
    next
      case (drain i s')
      obtain lc tb tp tr where "s' = token_update lc tb tp tr (\<sigma> i)" using drain_frame(1) [OF drain(5)] by blast
      then show ?thesis unfolding drain(1) by (intro in_count_same c) (simp add: token_update_def)
    qed
  qed
qed

lemma fines_count:
  assumes "(fine g E cb n i)\<^sup>*\<^sup>* (\<sigma>, w) (\<sigma>', w')" "env_ok E n" "base_inv n \<sigma> (pend w)" "in_count n \<sigma>"
  shows "in_count n \<sigma>'"
  using assms(1)
proof (induction rule: rtranclp_induct2)
  case (step \<sigma>1 w1 \<sigma>2 w2)
  have "base_inv n \<sigma>1 (pend w1)" using fines_base [OF step.hyps(1) assms(2,3)] by simp
  from fine_count [OF assms(2) this step.IH step.hyps(2)] show ?case .
qed (rule assms(4))

lemma program_count:
  assumes E: "env_ok E n" and ok: "callbacks_keep g cb" and inv: "base_program n ph \<sigma> (pend w)" and c: "in_count n \<sigma>"
    and st: "program_step E M cb n (ph, \<sigma>, w) (ph', \<sigma>', w')"
  shows "in_count n \<sigma>'"
  using E ok inv st
proof (cases rule: program_parts)
  case (iterate i leave s')
  show ?thesis using inv by (intro fines_count [OF iterate(6) E _ c]) (simp add: base_program_def)
next
  case (cleanup i b s1 w1 s')
  have "in_count n (\<sigma>(i := s1))" using cleanup(10) by (intro in_count_same c) (simp add: bystander_def)
  with fines_count [OF cleanup(7) E cleanup(9)] show ?thesis by simp
qed

lemma count_reachable:
  assumes "(program_step E M cb n)\<^sup>*\<^sup>* (ph, \<sigma>, w) (ph', \<sigma>', w')" "env_ok E n" "callbacks_keep g cb"
    "base_program n ph \<sigma> (pend w)" "in_count n \<sigma>"
  shows "in_count n \<sigma>'"
proof -
  have "base_program n ph' \<sigma>' (pend w') \<and> in_count n \<sigma>'"
    by (rule program_induct [where P = "\<lambda>_ \<sigma> _. in_count n \<sigma>", OF assms]) (rule program_count [OF assms(2,3)])
  then show ?thesis by (rule conjunct2)
qed

end

lemma start_count:
  assumes "starts_work E n \<sigma>"
  shows "in_count n \<sigma>"
proof -
  have "local_objects_processed (\<sigma> i) = 0" if i: "0 \<le> i" "i < n" for i
  proof -
    obtain now junk c s c' where s: "State_new E i n now junk c = Inr s" "\<sigma> i = s\<lparr>circ := c'\<rparr>"
      using assms i unfolding starts_work_def by blast
    show ?thesis using s(2) State_new_sel(24) [OF s(1)] by simp
  qed
  then show ?thesis by (simp add: in_count_def INT_MAX_def)
qed

text \<open>So the numbers of objects in the lines of the ranks add up to the number in the last line.\<close>

lemma summary_adds_up:
  assumes "in_count n \<sigma>"
  shows "(\<Sum>x\<leftarrow>gathered local_objects_processed n \<sigma>. to_int32 x) = (\<Sum>i\<in>{0..<n}. local_objects_processed (\<sigma> i))"
  by (rule gathered_sum) (use assms in \<open>simp add: in_count_def\<close>)

text \<open>In ring mode the objects processed are all the work.\<close>

lemma all_processed:
  assumes eager: "mpi_eager M pend" and E: "env_ok E n" and cb: "callbacks_ok cb" and st: "starts_work E n \<sigma>0"
    and net: "\<forall>k. pend w0 k = []" and mode: "\<forall>i. 0 \<le> i \<longrightarrow> i < n \<longrightarrow> \<not> term_tree_enabled (\<sigma>0 i)" and wt: "consumes cb wt"
    and run: "(program_step E M cb n)\<^sup>*\<^sup>* (\<lambda>_. Working, \<sigma>0, w0) (ph, \<sigma>, w)" and i: "0 \<le> i" "i < n" "ph i \<noteq> Working"
  shows "(\<Sum>j\<in>{0..<n}. local_objects_processed (\<sigma> j)) = weigh wt (\<Sum>j\<in>{0..<n}. mset (items (qp (\<sigma>0 j))))"
proof -
  note laws = mpi_eager.axioms(1) [OF eager]
  have "base_program n (\<lambda>_. Working) \<sigma>0 (pend w0)" using start_base [OF st E net] .
  from mpi_laws.account_reachable [OF laws run E cb wt this] start_account [OF st net, of wt]
  have "weigh wt (all_items n \<sigma> (pend w)) + processed n \<sigma> = weigh wt (queued n \<sigma>0)" by (simp add: account_def)
  moreover have "all_items n \<sigma> (pend w) = {#}" by (rule finished_items [OF ring_reachable [OF eager E cb st net mode run i]])
  ultimately show ?thesis by (simp add: processed_def queued_def)
qed

end
