(* ===== verification/Circle_Valid.thy ===== *)
theory Circle_Valid
  imports Circle_Whole Circle_Log
begin

text \<open>
  The well-formedness of a process: what every field of \<open>State\<close> may hold while the program runs.
  It gathers the invariants of the protocol, the barrier and the reductions into one predicate
  over the state of one process, in either mode of termination detection.
\<close>

section \<open>Well-formed states\<close>

definition counts_to :: "int \<Rightarrow> int \<Rightarrow> bool" where
  "counts_to m k \<longleftrightarrow> 0 \<le> k \<and> k \<le> m"

definition valid_state :: "int \<Rightarrow> int \<Rightarrow> int \<Rightarrow> phase \<Rightarrow> 'u state \<Rightarrow> bool" where
  "valid_state n width i ph s \<longleftrightarrow>
     rank s = i \<and> nprocs s = n
     \<and> getParentRank (tree s) = kary_parent width i \<and> child_list (tree s) = kary_children width n i
     \<and> getChildrenCount (tree s) = int (length (kary_children width n i))
     \<and> wf_queue (qp s) \<and> fits (items (qp s))
     \<and> (\<forall>p. next_processor s = Some p \<longrightarrow> 0 \<le> p \<and> p < n \<and> p \<noteq> i)
     \<and> (work_requested s \<longrightarrow> 0 \<le> work_requested_rank s \<and> work_requested_rank s < n \<and> work_requested_rank s \<noteq> i
          \<and> qcount (qp s) = 0)
     \<and> 0 \<le> offsets_count s \<and> 0 \<le> work_outstanding s
     \<and> counts_to (getChildrenCount (tree s)) (barrier_replies s)
     \<and> (reduce_outstanding s \<and> ph \<noteq> Finished \<longrightarrow> counts_to (getChildrenCount (tree s)) (reduce_replies s))
     \<and> counts_to INT_MAX (local_objects_processed s)
     \<and> (ph = Working \<longrightarrow> \<not> barrier_started s \<and> \<not> barrier_up s)
     \<and> (ph \<noteq> Working \<and> \<not> term_tree_enabled s \<longrightarrow> token_proc s = TERMINATE)
     \<and> ABORT_FLAG s = 0 \<and> \<not> abort_outstanding s"

section \<open>The parts\<close>

lemma proto_valid:
  assumes "base_program n ph \<sigma> p" "0 \<le> i" "i < n"
  shows "rank (\<sigma> i) = i" "nprocs (\<sigma> i) = n" "wf_queue (qp (\<sigma> i))" "fits (items (qp (\<sigma> i)))"
    "next_processor (\<sigma> i) = Some q \<Longrightarrow> 0 \<le> q \<and> q < n \<and> q \<noteq> i"
    "work_requested (\<sigma> i) \<Longrightarrow> 0 \<le> work_requested_rank (\<sigma> i) \<and> work_requested_rank (\<sigma> i) < n \<and> work_requested_rank (\<sigma> i) \<noteq> i
       \<and> qcount (qp (\<sigma> i)) = 0"
    "0 \<le> offsets_count (\<sigma> i)" "0 \<le> work_outstanding (\<sigma> i)" "ABORT_FLAG (\<sigma> i) = 0" "\<not> abort_outstanding (\<sigma> i)"
    "ph i = Working \<Longrightarrow> \<not> barrier_started (\<sigma> i)"
    "ph i \<noteq> Working \<Longrightarrow> \<not> term_tree_enabled (\<sigma> i) \<Longrightarrow> token_proc (\<sigma> i) = TERMINATE"
proof -
  have base: "base_inv n \<sigma> p" using assms(1) by (simp add: base_program_def)
  then have pr: "proto n \<sigma> p" and ok: "proc_ok n i (\<sigma> i)"
    using protoD(1) assms(2,3) by (auto simp: base_inv_def)
  have "0 \<le> flights n i p" unfolding flights_def by (rule sum_nonneg) simp
  with pr assms(2,3) receipts_nonneg [of "{0..<n}" i p] show "0 \<le> work_outstanding (\<sigma> i)" by (simp add: proto_def)
  show "rank (\<sigma> i) = i" "nprocs (\<sigma> i) = n" "wf_queue (qp (\<sigma> i))" "fits (items (qp (\<sigma> i)))"
    "next_processor (\<sigma> i) = Some q \<Longrightarrow> 0 \<le> q \<and> q < n \<and> q \<noteq> i" "0 \<le> offsets_count (\<sigma> i)" "ABORT_FLAG (\<sigma> i) = 0"
    using ok by (auto simp: proc_ok_def next_ok_def)
  show "work_requested (\<sigma> i) \<Longrightarrow> 0 \<le> work_requested_rank (\<sigma> i) \<and> work_requested_rank (\<sigma> i) < n \<and> work_requested_rank (\<sigma> i) \<noteq> i
       \<and> qcount (qp (\<sigma> i)) = 0"
    using ok items_nil [OF ok] by (simp add: proc_ok_def)
  show "\<not> abort_outstanding (\<sigma> i)" using base assms(2,3) by (simp add: base_inv_def)
  show "ph i = Working \<Longrightarrow> \<not> barrier_started (\<sigma> i)"
    "ph i \<noteq> Working \<Longrightarrow> \<not> term_tree_enabled (\<sigma> i) \<Longrightarrow> token_proc (\<sigma> i) = TERMINATE"
    using assms by (simp_all add: base_program_def)
qed

text \<open>The abstract barrier never counts below zero, and a released process has no replies.\<close>

definition counted :: "int \<Rightarrow> bar \<Rightarrow> bool" where
  "counted n b \<longleftrightarrow> (\<forall>i. 0 \<le> i \<longrightarrow> i < n \<longrightarrow> 0 \<le> replies b i \<and> (released b i \<longrightarrow> replies b i = 0))"

lemma bar_step_counted: "bar_step n par chl b b' \<Longrightarrow> counted n b \<Longrightarrow> counted n b'"
  by (induction rule: bar_step.induct) (auto simp: counted_def)

lemma bar_steps_counted: "(bar_step n par chl)\<^sup>*\<^sup>* b b' \<Longrightarrow> counted n b \<Longrightarrow> counted n b'"
  by (induction rule: rtranclp_induct) (auto intro: bar_step_counted)

lemma replies_bounded:
  assumes "bar_inv n par chl b" "counted n b" "0 \<le> i" "i < n"
  shows "counts_to (int (length (chl i))) (replies b i)"
proof (cases "released b i")
  case True
  with assms(2-4) show ?thesis by (simp add: counts_to_def counted_def)
next
  case False
  have "card {c \<in> set (chl i). reported b c} \<le> card (set (chl i))" by (intro card_mono) auto
  also have "\<dots> \<le> length (chl i)" by (rule card_length)
  finally have "int (card {c \<in> set (chl i). reported b c}) \<le> int (length (chl i))" by simp
  moreover have "0 \<le> (\<Sum>c\<in>set (chl i). int (msgs b c i))" by (rule sum_nonneg) simp
  ultimately show ?thesis
    using bar_invD(2) [OF assms(1,3,4) False] assms(2-4) by (simp add: counts_to_def counted_def)
qed

lemma reduce_bounded:
  assumes "reduce_net n chl T X ph {} \<sigma> p" "0 \<le> i" "i < n" "reduce_outstanding (\<sigma> i)" "ph i \<noteq> Finished"
  shows "counts_to (int (length (chl i))) (reduce_replies (\<sigma> i))"
proof -
  let ?e = "\<Sum>c\<in>set (chl i). engaged ph \<sigma> p i c"
  have "int ?e = int (length (chl i)) - reduce_replies (\<sigma> i)"
    using reduce_netD(9) [OF assms(1-3)] assms(4,5) by (simp add: waiting_def reducing_def)
  moreover have "?e \<le> length (chl i)"
  proof -
    have "?e \<le> (\<Sum>c\<in>set (chl i). 1)" using reduce_netD(7) [OF assms(1-3)] by (intro sum_mono) simp
    also have "\<dots> \<le> length (chl i)" using card_length [of "chl i"] by simp
    finally show ?thesis .
  qed
  ultimately show ?thesis unfolding counts_to_def using of_nat_mono [of ?e "length (chl i)", where 'a = int] by linarith
qed

section \<open>Every reachable state is well formed\<close>

lemma valid_reachable:
  assumes laws: "mpi_laws M pend" and E: "env_ok E n" and cb: "callbacks_ok cb" and st: "starts_work E n \<sigma>0" and net: "\<forall>k. pend w0 k = []"
    and tr: "kary_tree E n width \<sigma>0" "1 \<le> width" and run: "(program_step E M cb n)\<^sup>*\<^sup>* (\<lambda>_. Working, \<sigma>0, w0) (ph, \<sigma>, w)"
    and i: "0 \<le> i" "i < n"
  shows "valid_state n width i (ph i) (\<sigma> i)"
proof -
  note T = kary_rank_tree [OF tr(2)] and sp0 = start_spans [OF st E tr]
  let ?b = "bar_of ph \<sigma> (pend w)"
  have inv: "system_inv n (kary_parent width) (kary_children width n) (\<lambda>_. True) (\<lambda>_. []) (\<lambda>_. 0::int) (\<lambda>_ c. c) ph {} \<sigma> (pend w)"
    by (rule program_steps_inv [OF laws run T E callbacks_keep_nothing [OF cb] mpi_laws.start_system [OF laws T st E net sp0]])
  then obtain T' X where nt: "reduce_net n (kary_children width n) T' X ph {} \<sigma> (pend w)"
    unfolding system_inv_def by blast
  have base: "base_program n ph \<sigma> (pend w)" and sp: "spans n (kary_parent width) (kary_children width n) \<sigma>"
    and bar: "bar_inv n (kary_parent width) (kary_children width n) ?b"
    using inv by (simp_all add: system_inv_def)
  note tree = sp [unfolded spans_def, rule_format, OF i]
  have "counted n (bar_of (\<lambda>_. Working) \<sigma>0 (pend w0))"
    using start_bar [OF st net] by (simp add: bar_start_def counted_def)
  then have "counted n ?b"
    by (rule bar_steps_counted [OF mpi_laws.barrier_reachable [OF laws T E callbacks_keep_nothing [OF cb] run start_base [OF st E net] sp0]])
  from replies_bounded [OF bar this i] tree have r: "counts_to (getChildrenCount (tree (\<sigma> i))) (barrier_replies (\<sigma> i))"
    by (simp add: bar_of_def)
  have red: "counts_to (getChildrenCount (tree (\<sigma> i))) (reduce_replies (\<sigma> i))" if "reduce_outstanding (\<sigma> i)" "ph i \<noteq> Finished"
    using reduce_bounded [OF nt i that] tree by simp
  have "in_count n \<sigma>"
    by (rule mpi_laws.count_reachable [OF laws run E callbacks_keep_nothing [OF cb] start_base [OF st E net] start_count [OF st]])
  with i have lop: "counts_to INT_MAX (local_objects_processed (\<sigma> i))" by (simp add: counts_to_def in_count_def)
  have up: "\<not> barrier_up (\<sigma> i)" if "ph i = Working"
    using bar_invD(1) [OF bar i] that by (auto simp: bar_of_def reported_def)
  show ?thesis
    unfolding valid_state_def using proto_valid [OF base i] tree r red lop up by blast
qed

end
