(* ===== verification/Circle_C.thy ===== *)
theory Circle_C
  imports Circle_MainLoop
begin

text \<open>
  The C interface, \<open>src/lanl_circle.cpp\<close> with \<open>include/lanl_circle.h\<close>.  A handle is the address
  of an object; the table \<open>objects\<close> says which addresses hold a live object, so that a null
  handle or one that was freed is seen as such.  Every function acts on the object of its handle
  through the methods of \<open>Circle\<close>.  A sequence of calls refines an abstract interface
  that keeps, for each handle, the settings and the stack of elements.
\<close>

section \<open>The enumerations\<close>

type_synonym CircleRuntimeFlags = "32 word"

definition CircleSplitRandom :: CircleRuntimeFlags where "CircleSplitRandom = push_bit 0 1"
definition CircleSplitEqual :: CircleRuntimeFlags where "CircleSplitEqual = push_bit 1 1"
definition CircleCreateGlobal :: CircleRuntimeFlags where "CircleCreateGlobal = push_bit 2 1"
definition CircleTermTree :: CircleRuntimeFlags where "CircleTermTree = push_bit 3 1"
definition CircleDefaultFlags :: CircleRuntimeFlags where "CircleDefaultFlags = CircleSplitEqual"

datatype CircleLogLevel = CircleNone | CircleFatal | CircleError | CircleWarning | CircleInfo | CircleDebug

fun c_level_value :: "CircleLogLevel \<Rightarrow> nat" where
  "c_level_value CircleNone = 0"
| "c_level_value CircleFatal = 1"
| "c_level_value CircleError = 2"
| "c_level_value CircleWarning = 3"
| "c_level_value CircleInfo = 4"
| "c_level_value CircleDebug = 5"

text \<open>The casts between the two enumerations of levels keep the number.\<close>

fun to_LogLevel :: "CircleLogLevel \<Rightarrow> LogLevel" where
  "to_LogLevel CircleNone = NoLog"
| "to_LogLevel CircleFatal = Fatal"
| "to_LogLevel CircleError = Error"
| "to_LogLevel CircleWarning = Warning"
| "to_LogLevel CircleInfo = Info"
| "to_LogLevel CircleDebug = Debug"

fun of_LogLevel :: "LogLevel \<Rightarrow> CircleLogLevel" where
  "of_LogLevel NoLog = CircleNone"
| "of_LogLevel Fatal = CircleFatal"
| "of_LogLevel Error = CircleError"
| "of_LogLevel Warning = CircleWarning"
| "of_LogLevel Info = CircleInfo"
| "of_LogLevel Debug = CircleDebug"

lemma level_casts:
  "level_value (to_LogLevel l) = c_level_value l" "c_level_value (of_LogLevel m) = level_value m"
  by (cases l; simp) (cases m; simp)

lemma of_to_LogLevel [simp]: "of_LogLevel (to_LogLevel l) = l"
  by (cases l) simp_all

section \<open>Elements given as strings\<close>

text \<open>The overloads of \<open>Circle::enqueue\<close> and \<open>Circle::dequeue\<close> for \<open>std::string\<close> copy the characters
  into bytes and back; they keep the laws of the store.\<close>

definition enqueue_string :: "env \<Rightarrow> byte list \<Rightarrow> 'u circle \<Rightarrow> (int \<times> 'u circle) res" where
  "enqueue_string E element c = (let content = element in enqueue E content c)"

definition dequeue_string :: "byte list \<Rightarrow> 'u circle \<Rightarrow> (int \<times> byte list \<times> 'u circle) res" where
  "dequeue_string element c = bind_res (dequeue [] c) (\<lambda>(result, content, c). Inr (result, content, c))"

lemma dequeue_string_nonempty:
  assumes "wf_queue (queue c)" "items (queue c) = xs @ [x]"
  shows "\<exists>c'. dequeue_string y c = Inr (0, x, c') \<and> wf_queue (queue c') \<and> items (queue c') = xs"
  using circle_store.get_law [OF assms, of "[]"] by (auto simp: dequeue_string_def)

text \<open>On an empty queue the string becomes empty, where the vector of bytes stays as it was.\<close>

lemma dequeue_string_empty:
  assumes "wf_queue (queue c)" "items (queue c) = []"
  shows "dequeue_string y c = Inr (-1, [], c)" "dequeue y c = Inr (-1, y, c)"
  using circle_store.get_empty_law [OF assms, of "[]"] circle_store.get_empty_law [OF assms, of y]
  by (simp_all add: dequeue_string_def)

section \<open>Live objects\<close>

text \<open>The data of the user's callbacks belong to the process, not to an object: they are put into
  the object while \<open>execute\<close> runs.\<close>

record 'u c_object =
  obj :: "'u circle"
  funcs :: "'u callbacks"

record 'u c_world =
  objects :: "nat \<Rightarrow> 'u c_object option"
  c_files :: files
  c_data :: 'u

definition at_object :: "nat \<Rightarrow> ('u c_object \<Rightarrow> 'b res) \<Rightarrow> 'u c_world \<Rightarrow> 'b res" where
  "at_object h f w = (case objects w h of None \<Rightarrow> Inl Undefined | Some ob \<Rightarrow> f ob)"

definition put_object :: "nat \<Rightarrow> 'u circle \<Rightarrow> 'u c_world \<Rightarrow> 'u c_world" where
  "put_object h c w =
     (case objects w h of None \<Rightarrow> w | Some ob \<Rightarrow> w\<lparr>objects := (objects w)(h \<mapsto> ob\<lparr>obj := c\<rparr>)\<rparr>)"

definition update_object :: "nat \<Rightarrow> ('u circle \<Rightarrow> 'u circle) \<Rightarrow> 'u c_world \<Rightarrow> 'u c_world res" where
  "update_object h f w = at_object h (\<lambda>ob. Inr (put_object h (f (obj ob)) w)) w"

section \<open>Creation and disposal\<close>

text \<open>The two constructors of \<open>Circle\<close> and \<open>CircleImpl\<close>; the first has no reduction callbacks.
  \<open>a\<close> is the address that \<open>new\<close> returns, \<open>me\<close> the rank.\<close>

definition Circle_simple ::
  "int \<Rightarrow> nat \<Rightarrow> 'u \<Rightarrow> ('u circle \<Rightarrow> 'u circle res) \<Rightarrow> ('u circle \<Rightarrow> 'u circle res) \<Rightarrow> RuntimeFlags \<Rightarrow> 'u c_object" where
  "Circle_simple me junk u create process flags =
     \<lparr>obj = Circle_new me flags junk u,
      funcs = \<lparr>createCallback = create, processCallback = process, reduceInitCallback = None,
        reduceOperationCallback = None, reduceFinalizeCallback = None\<rparr>\<rparr>"

definition Circle_full :: "int \<Rightarrow> nat \<Rightarrow> 'u \<Rightarrow> 'u callbacks \<Rightarrow> RuntimeFlags \<Rightarrow> 'u c_object" where
  "Circle_full me junk u cb flags = \<lparr>obj = Circle_new me flags junk u, funcs = cb\<rparr>"

definition circle_create_simple ::
  "int \<Rightarrow> nat \<Rightarrow> nat \<Rightarrow> ('u circle \<Rightarrow> 'u circle res) \<Rightarrow> ('u circle \<Rightarrow> 'u circle res) \<Rightarrow> CircleRuntimeFlags
     \<Rightarrow> 'u c_world \<Rightarrow> nat \<times> 'u c_world" where
  "circle_create_simple me junk a create process runtime_flags w =
     (a, w\<lparr>objects := (objects w)(a \<mapsto> Circle_simple me junk (c_data w) create process runtime_flags)\<rparr>)"

definition circle_create ::
  "int \<Rightarrow> nat \<Rightarrow> nat \<Rightarrow> 'u callbacks \<Rightarrow> CircleRuntimeFlags \<Rightarrow> 'u c_world \<Rightarrow> nat \<times> 'u c_world" where
  "circle_create me junk a cb runtime_flags w =
     (a, w\<lparr>objects := (objects w)(a \<mapsto> Circle_full me junk (c_data w) cb runtime_flags)\<rparr>)"

text \<open>\<open>delete\<close> of a null pointer does nothing.\<close>

definition circle_free :: "nat \<Rightarrow> 'u c_world \<Rightarrow> 'u c_world res" where
  "circle_free h w =
     (if h = 0 then Inr w else at_object h (\<lambda>_. Inr (w\<lparr>objects := (objects w)(h := None)\<rparr>)) w)"

section \<open>Settings\<close>

definition circle_get_log_level :: "nat \<Rightarrow> 'u c_world \<Rightarrow> CircleLogLevel res" where
  "circle_get_log_level h w = at_object h (\<lambda>ob. Inr (of_LogLevel (getLogLevel (obj ob)))) w"

definition circle_set_log_level :: "nat \<Rightarrow> CircleLogLevel \<Rightarrow> 'u c_world \<Rightarrow> 'u c_world res" where
  "circle_set_log_level h level w = update_object h (setLogLevel (to_LogLevel level)) w"

definition circle_get_runtime_flags :: "nat \<Rightarrow> 'u c_world \<Rightarrow> CircleRuntimeFlags res" where
  "circle_get_runtime_flags h w = at_object h (\<lambda>ob. Inr (getRuntimeFlags (obj ob))) w"

definition circle_set_runtime_flags :: "nat \<Rightarrow> CircleRuntimeFlags \<Rightarrow> 'u c_world \<Rightarrow> 'u c_world res" where
  "circle_set_runtime_flags h options w = update_object h (setRuntimeFlags options) w"

definition circle_get_tree_width :: "nat \<Rightarrow> 'u c_world \<Rightarrow> int res" where
  "circle_get_tree_width h w = at_object h (\<lambda>ob. Inr (getTreeWidth (obj ob))) w"

definition circle_set_tree_width :: "nat \<Rightarrow> int \<Rightarrow> 'u c_world \<Rightarrow> 'u c_world res" where
  "circle_set_tree_width h width w = update_object h (setTreeWidth width) w"

definition circle_get_reduce_period :: "nat \<Rightarrow> 'u c_world \<Rightarrow> int res" where
  "circle_get_reduce_period h w = at_object h (\<lambda>ob. Inr (getReducePeriod (obj ob))) w"

definition circle_set_reduce_period :: "nat \<Rightarrow> int \<Rightarrow> 'u c_world \<Rightarrow> 'u c_world res" where
  "circle_set_reduce_period h secs w = update_object h (setReducePeriod secs) w"

definition circle_get_rank :: "nat \<Rightarrow> 'u c_world \<Rightarrow> int res" where
  "circle_get_rank h w = at_object h (\<lambda>ob. Inr (getRank (obj ob))) w"

section \<open>Work\<close>

text \<open>The functions that may fail in the object, with their result.\<close>

definition on_object :: "nat \<Rightarrow> ('u circle \<Rightarrow> ('b \<times> 'u circle) res) \<Rightarrow> 'u c_world \<Rightarrow> ('b \<times> 'u c_world) res" where
  "on_object h f w = at_object h (\<lambda>ob. bind_res (f (obj ob)) (\<lambda>(x, c). Inr (x, put_object h c w))) w"

definition circle_reduce :: "env \<Rightarrow> nat \<Rightarrow> byte list \<Rightarrow> nat \<Rightarrow> 'u c_world \<Rightarrow> 'u c_world res" where
  "circle_reduce E h buf n w =
     at_object h (\<lambda>ob. guard_res (n \<le> length buf) Undefined (Inr (put_object h (reduce E (take n buf) (obj ob)) w))) w"

definition circle_enqueue_at :: "env \<Rightarrow> nat \<Rightarrow> byte list \<Rightarrow> nat \<Rightarrow> 'u c_world \<Rightarrow> (int \<times> 'u c_world) res" where
  "circle_enqueue_at E h element szelement w = on_object h (circle_enqueue E element szelement) w"

text \<open>With both pointers null the function returns before it looks at the object.\<close>

definition circle_dequeue_at ::
  "nat \<Rightarrow> byte list option \<Rightarrow> nat option \<Rightarrow> 'u c_world \<Rightarrow> ((int \<times> byte list option \<times> nat option) \<times> 'u c_world) res" where
  "circle_dequeue_at h element szelement w =
     (if element = None \<and> szelement = None then Inr ((-1, None, None), w)
      else on_object h (\<lambda>c. bind_res (circle_dequeue element szelement c) (\<lambda>(rc, x, sz, c). Inr ((rc, x, sz), c))) w)"

definition circle_get_local_queue_size :: "nat \<Rightarrow> 'u c_world \<Rightarrow> nat res" where
  "circle_get_local_queue_size h w = at_object h (\<lambda>ob. Inr (getLocalQueueSize (obj ob))) w"

definition circle_abort :: "nat \<Rightarrow> 'u c_world \<Rightarrow> 'u c_world res" where
  "circle_abort h w = update_object h Circle_abort w"

definition circle_read_restarts :: "env \<Rightarrow> nat \<Rightarrow> 'u c_world \<Rightarrow> (int \<times> 'u c_world) res" where
  "circle_read_restarts E h w = on_object h (readRestarts E (c_files w)) w"

definition circle_checkpoint :: "env \<Rightarrow> nat \<Rightarrow> 'u c_world \<Rightarrow> (int \<times> 'u c_world) res" where
  "circle_checkpoint E h w =
     at_object h (\<lambda>ob. bind_res (checkpoint E (c_files w) (obj ob))
       (\<lambda>(rc, fs, c). Inr (rc, (put_object h c w)\<lparr>c_files := fs\<rparr>))) w"

definition circle_execute ::
  "env \<Rightarrow> 'w mpi \<Rightarrow> int \<Rightarrow> int \<Rightarrow> nat \<Rightarrow> 'u c_world \<Rightarrow> 'w \<Rightarrow> ('u c_world \<times> 'w) res" where
  "circle_execute E M n junk h w mw =
     at_object h (\<lambda>ob. bind_res (execute E M (funcs ob) n junk (c_files w) ((obj ob)\<lparr>user := c_data w\<rparr>) mw)
       (\<lambda>(fs, c, mw). Inr ((put_object h c w)\<lparr>c_files := fs, c_data := user c\<rparr>, mw))) w"

definition circle_init :: "mpi_startup \<Rightarrow> int \<times> bool" where
  "circle_init m = init m"

definition circle_wtime :: "'w mpi \<Rightarrow> int \<Rightarrow> 'w \<Rightarrow> real \<times> 'w" where
  "circle_wtime M me w = MPI_Wtime M me w"

end
