(* ===== verification/Circle_Handles.thy ===== *)
theory Circle_Handles
  imports Circle_C
begin

text \<open>
  What the C interface promises: for each live handle the settings and a stack of elements.
  Sequences of calls on the table of objects refine it, results and undefined behaviour
  included, so that the handles do not disturb each other.
\<close>

section \<open>The abstract interface\<close>

record setting =
  stack :: "byte list list"
  level_set :: CircleLogLevel
  flags_set :: CircleRuntimeFlags
  width_set :: int
  period_set :: int
  rank_set :: int

type_synonym handles = "nat \<Rightarrow> setting option"

datatype 'u c_call =
    Create_simple nat "'u circle \<Rightarrow> 'u circle res" "'u circle \<Rightarrow> 'u circle res" CircleRuntimeFlags
  | Create nat "'u callbacks" CircleRuntimeFlags
  | Free nat
  | Get_log_level nat | Set_log_level nat CircleLogLevel
  | Get_flags nat | Set_flags nat CircleRuntimeFlags
  | Get_width nat | Set_width nat int
  | Get_period nat | Set_period nat int
  | Get_rank nat
  | Reduce nat "byte list" nat
  | Enqueue nat "byte list" nat
  | Dequeue nat "byte list option" "nat option"
  | Queue_size nat
  | Abort nat

datatype c_value = Done | Handle nat | Level CircleLogLevel | Flags CircleRuntimeFlags | Number int
  | Item int "byte list option" "nat option"

fun c_step :: "env \<Rightarrow> int \<Rightarrow> nat \<Rightarrow> 'u c_call \<Rightarrow> 'u c_world \<Rightarrow> (c_value \<times> 'u c_world) res" where
  "c_step E me junk (Create_simple a create process f) w =
     (case circle_create_simple me junk a create process f w of (h, w) \<Rightarrow> Inr (Handle h, w))"
| "c_step E me junk (Create a cb f) w = (case circle_create me junk a cb f w of (h, w) \<Rightarrow> Inr (Handle h, w))"
| "c_step E me junk (Free h) w = bind_res (circle_free h w) (\<lambda>w. Inr (Done, w))"
| "c_step E me junk (Get_log_level h) w = bind_res (circle_get_log_level h w) (\<lambda>l. Inr (Level l, w))"
| "c_step E me junk (Set_log_level h l) w = bind_res (circle_set_log_level h l w) (\<lambda>w. Inr (Done, w))"
| "c_step E me junk (Get_flags h) w = bind_res (circle_get_runtime_flags h w) (\<lambda>f. Inr (Flags f, w))"
| "c_step E me junk (Set_flags h f) w = bind_res (circle_set_runtime_flags h f w) (\<lambda>w. Inr (Done, w))"
| "c_step E me junk (Get_width h) w = bind_res (circle_get_tree_width h w) (\<lambda>k. Inr (Number k, w))"
| "c_step E me junk (Set_width h k) w = bind_res (circle_set_tree_width h k w) (\<lambda>w. Inr (Done, w))"
| "c_step E me junk (Get_period h) w = bind_res (circle_get_reduce_period h w) (\<lambda>k. Inr (Number k, w))"
| "c_step E me junk (Set_period h k) w = bind_res (circle_set_reduce_period h k w) (\<lambda>w. Inr (Done, w))"
| "c_step E me junk (Get_rank h) w = bind_res (circle_get_rank h w) (\<lambda>k. Inr (Number k, w))"
| "c_step E me junk (Reduce h b n) w = bind_res (circle_reduce E h b n w) (\<lambda>w. Inr (Done, w))"
| "c_step E me junk (Enqueue h b n) w = bind_res (circle_enqueue_at E h b n w) (\<lambda>(rc, w). Inr (Number rc, w))"
| "c_step E me junk (Dequeue h b n) w = bind_res (circle_dequeue_at h b n w) (\<lambda>((rc, x, sz), w). Inr (Item rc x sz, w))"
| "c_step E me junk (Queue_size h) w = bind_res (circle_get_local_queue_size h w) (\<lambda>n. Inr (Number (int n), w))"
| "c_step E me junk (Abort h) w = bind_res (circle_abort h w) (\<lambda>w. Inr (Done, w))"

text \<open>The promise.  \<open>at_handle\<close> is undefined on a handle that is not live.\<close>

definition at_handle :: "nat \<Rightarrow> (setting \<Rightarrow> (c_value \<times> setting) res) \<Rightarrow> handles \<Rightarrow> (c_value \<times> handles) res" where
  "at_handle h f H =
     (case H h of None \<Rightarrow> Inl Undefined | Some x \<Rightarrow> bind_res (f x) (\<lambda>(v, x). Inr (v, H(h \<mapsto> x))))"

definition new_setting :: "int \<Rightarrow> CircleRuntimeFlags \<Rightarrow> setting" where
  "new_setting me f = \<lparr>stack = [], level_set = CircleFatal, flags_set = f, width_set = 64, period_set = 0, rank_set = me\<rparr>"

definition take_last :: "byte list option \<Rightarrow> nat option \<Rightarrow> setting \<Rightarrow> (c_value \<times> setting) res" where
  "take_last b n x =
     (case b of
       None \<Rightarrow> Inr (Item 0 None (Some (if stack x = [] then 2 ^ 64 - 1 else length (last (stack x)))), x)
     | Some buf \<Rightarrow>
         let y = (if stack x = [] then [] else last (stack x));
             k = (case n of None \<Rightarrow> length y | Some m \<Rightarrow> min m (length y)) in
         if length buf < k then Inl Undefined
         else Inr (Item 0 (Some (take k y @ drop k buf)) (map_option (\<lambda>_. length y) n), x\<lparr>stack := butlast (stack x)\<rparr>))"

fun spec_step :: "int \<Rightarrow> 'u c_call \<Rightarrow> handles \<Rightarrow> (c_value \<times> handles) res" where
  "spec_step me (Create_simple a create process f) H = Inr (Handle a, H(a \<mapsto> new_setting me f))"
| "spec_step me (Create a cb f) H = Inr (Handle a, H(a \<mapsto> new_setting me f))"
| "spec_step me (Free h) H =
     (if h = 0 then Inr (Done, H) else if H h = None then Inl Undefined else Inr (Done, H(h := None)))"
| "spec_step me (Get_log_level h) H = at_handle h (\<lambda>x. Inr (Level (level_set x), x)) H"
| "spec_step me (Set_log_level h l) H = at_handle h (\<lambda>x. Inr (Done, x\<lparr>level_set := l\<rparr>)) H"
| "spec_step me (Get_flags h) H = at_handle h (\<lambda>x. Inr (Flags (flags_set x), x)) H"
| "spec_step me (Set_flags h f) H = at_handle h (\<lambda>x. Inr (Done, x\<lparr>flags_set := f\<rparr>)) H"
| "spec_step me (Get_width h) H = at_handle h (\<lambda>x. Inr (Number (width_set x), x)) H"
| "spec_step me (Set_width h k) H = at_handle h (\<lambda>x. Inr (Done, x\<lparr>width_set := k\<rparr>)) H"
| "spec_step me (Get_period h) H = at_handle h (\<lambda>x. Inr (Number (period_set x), x)) H"
| "spec_step me (Set_period h k) H = at_handle h (\<lambda>x. Inr (Done, x\<lparr>period_set := k\<rparr>)) H"
| "spec_step me (Get_rank h) H = at_handle h (\<lambda>x. Inr (Number (rank_set x), x)) H"
| "spec_step me (Reduce h b n) H = at_handle h (\<lambda>x. if length b < n then Inl Undefined else Inr (Done, x)) H"
| "spec_step me (Enqueue h b n) H = at_handle h (\<lambda>x. if length b < n then Inl Undefined
     else if n = 0 then Inr (Number (-1), x) else Inr (Number 0, x\<lparr>stack := stack x @ [take n b]\<rparr>)) H"
| "spec_step me (Dequeue h b n) H =
     (if b = None \<and> n = None then Inr (Item (-1) None None, H) else at_handle h (take_last b n) H)"
| "spec_step me (Queue_size h) H = at_handle h (\<lambda>x. Inr (Number (int (length (stack x))), x)) H"
| "spec_step me (Abort h) H = at_handle h (\<lambda>x. Inr (Done, x)) H"

fun run_steps :: "('c \<Rightarrow> 's \<Rightarrow> ('v \<times> 's) res) \<Rightarrow> 'c list \<Rightarrow> 's \<Rightarrow> ('v list \<times> 's) res" where
  "run_steps f [] s = Inr ([], s)"
| "run_steps f (c # cs) s = bind_res (f c s) (\<lambda>(v, s). bind_res (run_steps f cs s) (\<lambda>(vs, s). Inr (v # vs, s)))"

section \<open>Abstraction\<close>

definition setting_of :: "'u circle \<Rightarrow> setting" where
  "setting_of c = \<lparr>stack = items (queue c), level_set = of_LogLevel (logLevel c), flags_set = runtimeFlags c,
     width_set = tree_width c, period_set = reduce_period c, rank_set = c_rank c\<rparr>"

definition handles_of :: "'u c_world \<Rightarrow> handles" where
  "handles_of w = (\<lambda>h. map_option (\<lambda>ob. setting_of (obj ob)) (objects w h))"

text \<open>Every live object has a well-formed queue with room for \<open>m\<close> more elements.\<close>

definition sound_queue :: "nat \<Rightarrow> queue \<Rightarrow> bool" where
  "sound_queue m q \<longleftrightarrow> wf_queue q \<and> (\<forall>x \<in> set (items q). length x < 4294967296) \<and> int (length (items q) + m) \<le> INT_MAX"

definition sound :: "nat \<Rightarrow> 'u c_world \<Rightarrow> bool" where
  "sound m w \<longleftrightarrow> (\<forall>h ob. objects w h = Some ob \<longrightarrow> sound_queue m (queue (obj ob)))"

text \<open>How many elements a call stores, and that it stores none too large.\<close>

fun stores :: "'u c_call \<Rightarrow> nat" where
  "stores (Enqueue h b n) = 1"
| "stores c = 0"

fun small_call :: "'u c_call \<Rightarrow> bool" where
  "small_call (Enqueue h b n) \<longleftrightarrow> n < 4294967296"
| "small_call c \<longleftrightarrow> True"

definition agree :: "nat \<Rightarrow> ('v \<times> 'u c_world) res \<Rightarrow> ('v \<times> handles) res \<Rightarrow> bool" where
  "agree m r a = (case a of Inl e \<Rightarrow> r = Inl e | Inr (v, H) \<Rightarrow> \<exists>w. r = Inr (v, w) \<and> sound m w \<and> handles_of w = H)"

section \<open>Each call refines its promise\<close>

lemma handles_of_apply: "handles_of w h = map_option (\<lambda>ob. setting_of (obj ob)) (objects w h)"
  by (simp add: handles_of_def)

lemma sound_queue_less: "sound_queue (j + m) q \<Longrightarrow> sound_queue m q"
  by (simp add: sound_queue_def)

lemma sound_less: "sound (j + m) w \<Longrightarrow> sound m w"
  unfolding sound_def using sound_queue_less by blast

lemma put_object_abs:
  assumes "objects w h = Some ob" "sound (j + m) w" "sound_queue m (queue c)"
  shows "sound m (put_object h c w)" "handles_of (put_object h c w) = (handles_of w)(h \<mapsto> setting_of c)"
proof -
  show "sound m (put_object h c w)"
    using assms(1,3) sound_less [OF assms(2)] by (simp add: sound_def put_object_def)
  show "handles_of (put_object h c w) = (handles_of w)(h \<mapsto> setting_of c)"
    using assms(1) by (simp add: put_object_def handles_of_def fun_eq_iff)
qed

lemma object_agree:
  assumes "sound (j + m) w" "objects w h = None \<Longrightarrow> r = Inl Undefined"
    "\<And>ob. objects w h = Some ob \<Longrightarrow> sound_queue (j + m) (queue (obj ob)) \<Longrightarrow>
      (case k (setting_of (obj ob)) of Inl e \<Rightarrow> r = Inl e
       | Inr (v, x) \<Rightarrow> \<exists>c. r = Inr (v, put_object h c w) \<and> setting_of c = x \<and> sound_queue m (queue c))"
  shows "agree m r (at_handle h k (handles_of w))"
proof (cases "objects w h")
  case None
  with assms(2) show ?thesis by (simp add: agree_def at_handle_def handles_of_apply)
next
  case (Some ob)
  with assms(1) have "sound_queue (j + m) (queue (obj ob))" by (auto simp: sound_def)
  note c = assms(3) [OF Some this]
  show ?thesis
  proof (cases "k (setting_of (obj ob))")
    case (Inl e)
    with c Some show ?thesis by (simp add: agree_def at_handle_def handles_of_apply)
  next
    case (Inr vx)
    obtain v x where vx: "vx = (v, x)" by (cases vx)
    with c Inr obtain c' where c': "r = Inr (v, put_object h c' w)" "setting_of c' = x" "sound_queue m (queue c')" by auto
    with Some Inr vx put_object_abs [OF Some assms(1) c'(3)] show ?thesis
      by (simp add: agree_def at_handle_def handles_of_apply)
  qed
qed

text \<open>Calls that read, and calls that change a setting.\<close>

lemma put_object_same: "objects w h = Some ob \<Longrightarrow> put_object h (obj ob) w = w"
  by (simp add: put_object_def fun_upd_idem)

lemma get_agree:
  assumes "sound (j + m) w" "\<And>c. sound_queue m (queue c) \<Longrightarrow> V (g c) = U (setting_of c)"
  shows "agree m (bind_res (at_object h (\<lambda>ob. Inr (g (obj ob))) w) (\<lambda>y. Inr (V y, w))) (at_handle h (\<lambda>x. Inr (U x, x)) (handles_of w))"
proof (rule object_agree [OF assms(1)])
  fix ob
  assume ob: "objects w h = Some ob" and q: "sound_queue (j + m) (queue (obj ob))"
  note q' = sound_queue_less [OF q]
  show "case Inr (U (setting_of (obj ob)), setting_of (obj ob)) of Inl e \<Rightarrow>
        bind_res (at_object h (\<lambda>ob. Inr (g (obj ob))) w) (\<lambda>y. Inr (V y, w)) = Inl e
      | Inr (v, x) \<Rightarrow> \<exists>c. bind_res (at_object h (\<lambda>ob. Inr (g (obj ob))) w) (\<lambda>y. Inr (V y, w)) = Inr (v, put_object h c w)
          \<and> setting_of c = x \<and> sound_queue m (queue c)"
    using assms(2) [OF q'] q' ob by (auto simp: at_object_def intro!: exI [of _ "obj ob"] simp: put_object_same)
qed (simp add: at_object_def)

lemma set_agree:
  assumes "sound (j + m) w" "\<And>c. setting_of (f c) = k (setting_of c)" "\<And>c. queue (f c) = queue c"
  shows "agree m (bind_res (update_object h f w) (\<lambda>w. Inr (Done, w))) (at_handle h (\<lambda>x. Inr (Done, k x)) (handles_of w))"
proof (rule object_agree [OF assms(1)])
  fix ob
  assume ob: "objects w h = Some ob" and q: "sound_queue (j + m) (queue (obj ob))"
  show "case Inr (Done, k (setting_of (obj ob))) of Inl e \<Rightarrow> bind_res (update_object h f w) (\<lambda>w. Inr (Done, w)) = Inl e
      | Inr (v, x) \<Rightarrow> \<exists>c. bind_res (update_object h f w) (\<lambda>w. Inr (Done, w)) = Inr (v, put_object h c w)
          \<and> setting_of c = x \<and> sound_queue m (queue c)"
    using assms(2,3) sound_queue_less [OF q] ob by (auto simp: update_object_def at_object_def)
qed (simp add: at_object_def update_object_def)

text \<open>Calls on the stack.\<close>

lemma enqueue_agree:
  assumes "sound (1 + m) w" "n < 4294967296" "0 < pagesize E"
  shows "agree m (bind_res (circle_enqueue_at E h b n w) (\<lambda>(rc, w). Inr (Number rc, w)))
    (at_handle h (\<lambda>x. if length b < n then Inl Undefined
     else if n = 0 then Inr (Number (-1), x) else Inr (Number 0, x\<lparr>stack := stack x @ [take n b]\<rparr>)) (handles_of w))"
proof (rule object_agree [OF assms(1)], goal_cases)
  case 1
  then show ?case by (simp add: circle_enqueue_at_def on_object_def at_object_def)
next
  case (2 ob)
  let ?c = "obj ob"
  have q: "wf_queue (queue ?c)" "\<forall>x \<in> set (items (queue ?c)). length x < 4294967296"
    "int (length (items (queue ?c)) + (1 + m)) \<le> INT_MAX"
    using 2(2) by (simp_all add: sound_queue_def)
  show ?case
  proof (cases "length b < n \<or> n = 0")
    case True
    have "enqueue E [] ?c = Inr (-1, ?c)" by (simp add: enqueue_def push_empty)
    with True 2 sound_queue_less [OF 2(2)] show ?thesis
      by (auto simp: circle_enqueue_at_def on_object_def at_object_def circle_enqueue_def
          intro!: exI [of _ ?c])
  next
    case False
    then have st: "storable (pagesize E) (take n b)" and n: "n \<le> length b"
      using assms(2,3) by (auto simp: storable_def)
    have "length (items (queue ?c)) < nat INT_MAX" using q(3) by linarith
    then obtain c' where c': "enqueue E (take n b) ?c = Inr (0, c')" "wf_queue (queue c')"
        "items (queue c') = items (queue ?c) @ [take n b]"
      using circle_store.put_law [OF q(1) st] by blast
    have "\<exists>q'. c' = ?c\<lparr>queue := q'\<rparr>" using c'(1) by (auto simp: enqueue_def elim!: bind_res_InrE)
    then obtain q' where q': "c' = ?c\<lparr>queue := q'\<rparr>" by blast
    have "setting_of c' = (setting_of ?c)\<lparr>stack := items (queue ?c) @ [take n b]\<rparr>"
      using c'(3) q' by (simp add: setting_of_def)
    moreover have "sound_queue m (queue c')"
      using c'(2,3) q assms(2) by (auto simp: sound_queue_def)
    ultimately show ?thesis
      using False n 2(1) c'(1)
      by (auto simp: circle_enqueue_at_def on_object_def at_object_def circle_enqueue_def setting_of_def)
  qed
qed

lemma lastSize_small:
  assumes "queue_rep q (xs @ [x])" "length x < 2 ^ 64"
  shows "lastSize q = Inr (length x)"
proof -
  have "strings q ! length xs = length (concat xs)" "head q = length (concat xs) + length x"
    using assms by (auto simp: queue_rep_def starts_append take_Suc_conv_app_nth)
  with assms show ?thesis by (simp add: lastSize_def queue_rep_def Let_def to_size_def)
qed

lemma lastSize_stack:
  assumes "wf_queue q" "\<forall>x \<in> set (items q). length x < 4294967296"
  shows "lastSize q = Inr (if items q = [] then 2 ^ 64 - 1 else length (last (items q)))"
proof (cases "items q = []")
  case True
  with wf_queue_rep [OF assms(1)] show ?thesis by (simp add: lastSize_empty)
next
  case False
  then have rep: "queue_rep q (butlast (items q) @ [last (items q)])" using wf_queue_rep [OF assms(1)] by simp
  have "length (last (items q)) < 4294967296" using assms(2) last_in_set [OF False] by blast
  then have "length (last (items q)) < 2 ^ 64" by simp
  from lastSize_small [OF rep this] False show ?thesis by simp
qed

lemma dequeue_stack:
  assumes "wf_queue (queue c)"
  shows "\<exists>rc q. dequeue [] c = Inr (rc, if items (queue c) = [] then [] else last (items (queue c)), c\<lparr>queue := q\<rparr>)
    \<and> wf_queue q \<and> items q = butlast (items (queue c))"
proof (cases "items (queue c) = []")
  case True
  with wf_queue_rep [OF assms] have "dequeue [] c = Inr (-1, [], c)" by (simp add: dequeue_def pop_empty)
  with True assms show ?thesis by (intro exI [of _ "-1"] exI [of _ "queue c"]) simp
next
  case False
  then have "queue_rep (queue c) (butlast (items (queue c)) @ [last (items (queue c))])" using wf_queue_rep [OF assms] by simp
  from dequeue_rep [OF this] obtain q where "dequeue [] c = Inr (0, last (items (queue c)), c\<lparr>queue := q\<rparr>)"
    "queue_rep q (butlast (items (queue c)))" by metis
  with False show ?thesis using queue_rep_wf queue_rep_items by (intro exI [of _ 0] exI [of _ q]) auto
qed

lemma dequeue_agree:
  assumes "sound (j + m) w"
  shows "agree m (bind_res (circle_dequeue_at h b n w) (\<lambda>((rc, x, sz), w). Inr (Item rc x sz, w)))
    (if b = None \<and> n = None then Inr (Item (-1) None None, handles_of w) else at_handle h (take_last b n) (handles_of w))"
proof (cases "b = None \<and> n = None")
  case True
  with sound_less [OF assms] show ?thesis by (simp add: circle_dequeue_at_def agree_def)
next
  case False
  have "agree m (bind_res (circle_dequeue_at h b n w) (\<lambda>((rc, x, sz), w). Inr (Item rc x sz, w)))
    (at_handle h (take_last b n) (handles_of w))"
  proof (rule object_agree [OF assms], goal_cases)
    case 1
    with False show ?case by (simp add: circle_dequeue_at_def on_object_def at_object_def)
  next
    case (2 ob)
    let ?c = "obj ob" and ?y = "if items (queue (obj ob)) = [] then [] else last (items (queue (obj ob)))"
    have q: "wf_queue (queue ?c)" "\<forall>x \<in> set (items (queue ?c)). length x < 4294967296"
      "int (length (items (queue ?c)) + m) \<le> INT_MAX"
      using 2(2) by (simp_all add: sound_queue_def)
    have st: "stack (setting_of ?c) = items (queue ?c)" by (simp add: setting_of_def)
    show ?case
    proof (cases b)
      case None
      then obtain sz where n: "n = Some sz" using False by (cases n) auto
      show ?thesis
        using None n 2(1) lastSize_stack [OF q(1,2)] sound_queue_less [OF 2(2)]
        by (auto simp: circle_dequeue_at_def on_object_def at_object_def circle_dequeue_def take_last_def st
            intro!: exI [of _ ?c])
    next
      case (Some buf)
      obtain rc q' where dq: "dequeue [] ?c = Inr (rc, ?y, ?c\<lparr>queue := q'\<rparr>)" "wf_queue q'" "items q' = butlast (items (queue ?c))"
        using dequeue_stack [OF q(1)] by blast
      have "setting_of (?c\<lparr>queue := q'\<rparr>) = (setting_of ?c)\<lparr>stack := butlast (items (queue ?c))\<rparr>"
        using dq(3) by (simp add: setting_of_def)
      moreover have "sound_queue m q'"
        using dq(2,3) q(2,3) by (auto simp: sound_queue_def dest: in_set_butlastD)
      ultimately show ?thesis
        using Some 2(1) dq(1)
        by (auto simp: circle_dequeue_at_def on_object_def at_object_def circle_dequeue_def take_last_def st
            memcpy_def guard_res_def Let_def split: option.splits)
    qed
  qed
  with False show ?thesis by (simp only: if_False)
qed

lemma new_agree:
  assumes "sound (j + m) w" "queue (obj ob) = Queue_new" "int m \<le> INT_MAX" "setting_of (obj ob) = x"
  shows "agree m (Inr (v, w\<lparr>objects := (objects w)(a \<mapsto> ob)\<rparr>)) (Inr (v, (handles_of w)(a \<mapsto> x)))"
proof -
  have "items Queue_new = []" using queue_rep_items by fastforce
  then have "sound_queue m (queue (obj ob))"
    using assms(2,3) queue_rep_wf [of Queue_new "[]"] by (simp add: sound_queue_def)
  with sound_less [OF assms(1)] have "sound m (w\<lparr>objects := (objects w)(a \<mapsto> ob)\<rparr>)" by (simp add: sound_def)
  with assms(4) show ?thesis by (simp add: agree_def handles_of_def fun_eq_iff)
qed

lemma setting_of_new: "setting_of (Circle_new me f junk u) = new_setting me f"
proof -
  have "items Queue_new = []" using queue_rep_items by fastforce
  then show ?thesis by (simp add: setting_of_def new_setting_def Circle_new_def)
qed

lemma queue_of_new: "queue (Circle_new me f junk u) = Queue_new"
  by (simp add: Circle_new_def)

lemma free_agree:
  assumes "sound (j + m) w"
  shows "agree m (bind_res (circle_free h w) (\<lambda>w. Inr (Done, w)))
    (if h = 0 then Inr (Done, handles_of w) else if handles_of w h = None then Inl Undefined
     else Inr (Done, (handles_of w)(h := None)))"
  using sound_less [OF assms]
  by (auto simp: circle_free_def agree_def at_object_def handles_of_def sound_def fun_eq_iff)

lemma reduce_agree:
  assumes "sound (j + m) w"
  shows "agree m (bind_res (circle_reduce E h b n w) (\<lambda>w. Inr (Done, w)))
    (at_handle h (\<lambda>x. if length b < n then Inl Undefined else Inr (Done, x)) (handles_of w))"
proof (rule object_agree [OF assms], goal_cases)
  case (2 ob)
  have "setting_of (reduce E (take n b) (obj ob)) = setting_of (obj ob)" "queue (reduce E (take n b) (obj ob)) = queue (obj ob)"
    by (simp_all add: reduce_def setting_of_def Let_def)
  with 2 sound_queue_less [OF 2(2)] show ?case
    by (auto simp: circle_reduce_def at_object_def guard_res_def intro!: exI [of _ "reduce E (take n b) (obj ob)"])
qed (simp add: circle_reduce_def at_object_def)

lemma step_agree:
  assumes "sound (stores c + m) w" "small_call c" "0 < pagesize E" "int m \<le> INT_MAX"
  shows "agree m (c_step E me junk c w) (spec_step me c (handles_of w))"
proof (cases c)
  case (Create_simple a create process f)
  have "agree m (Inr (Handle a, w\<lparr>objects := (objects w)(a \<mapsto> Circle_simple me junk (c_data w) create process f)\<rparr>))
      (Inr (Handle a, (handles_of w)(a \<mapsto> new_setting me f)))"
    by (rule new_agree [OF assms(1) _ assms(4)]) (simp_all add: Circle_simple_def setting_of_new queue_of_new)
  with Create_simple show ?thesis by (simp add: circle_create_simple_def)
next
  case (Create a cb f)
  have "agree m (Inr (Handle a, w\<lparr>objects := (objects w)(a \<mapsto> Circle_full me junk (c_data w) cb f)\<rparr>))
      (Inr (Handle a, (handles_of w)(a \<mapsto> new_setting me f)))"
    by (rule new_agree [OF assms(1) _ assms(4)]) (simp_all add: Circle_full_def setting_of_new queue_of_new)
  with Create show ?thesis by (simp add: circle_create_def)
next
  case (Get_log_level h)
  show ?thesis unfolding Get_log_level c_step.simps spec_step.simps circle_get_log_level_def
    by (rule get_agree [OF assms(1)]) (simp add: setting_of_def getLogLevel_def)
next
  case (Get_flags h)
  show ?thesis unfolding Get_flags c_step.simps spec_step.simps circle_get_runtime_flags_def
    by (rule get_agree [OF assms(1)]) (simp add: setting_of_def getRuntimeFlags_def)
next
  case (Get_width h)
  show ?thesis unfolding Get_width c_step.simps spec_step.simps circle_get_tree_width_def
    by (rule get_agree [OF assms(1)]) (simp add: setting_of_def getTreeWidth_def)
next
  case (Get_period h)
  show ?thesis unfolding Get_period c_step.simps spec_step.simps circle_get_reduce_period_def
    by (rule get_agree [OF assms(1)]) (simp add: setting_of_def getReducePeriod_def)
next
  case (Get_rank h)
  show ?thesis unfolding Get_rank c_step.simps spec_step.simps circle_get_rank_def
    by (rule get_agree [OF assms(1)]) (simp add: setting_of_def getRank_def)
next
  case (Queue_size h)
  show ?thesis unfolding Queue_size c_step.simps spec_step.simps circle_get_local_queue_size_def
    by (rule get_agree [OF assms(1)])
      (auto simp: setting_of_def getLocalQueueSize_def sound_queue_def INT_MAX_def queue_rep_count [OF wf_queue_rep])
next
  case (Set_log_level h l)
  show ?thesis unfolding Set_log_level c_step.simps spec_step.simps circle_set_log_level_def
    by (rule set_agree [OF assms(1)]) (simp_all add: setting_of_def setLogLevel_def)
next
  case (Set_flags h f)
  show ?thesis unfolding Set_flags c_step.simps spec_step.simps circle_set_runtime_flags_def
    by (rule set_agree [OF assms(1)]) (simp_all add: setting_of_def setRuntimeFlags_def)
next
  case (Set_width h k)
  show ?thesis unfolding Set_width c_step.simps spec_step.simps circle_set_tree_width_def
    by (rule set_agree [OF assms(1)]) (simp_all add: setting_of_def setTreeWidth_def)
next
  case (Set_period h k)
  show ?thesis unfolding Set_period c_step.simps spec_step.simps circle_set_reduce_period_def
    by (rule set_agree [OF assms(1)]) (simp_all add: setting_of_def setReducePeriod_def)
next
  case (Abort h)
  show ?thesis unfolding Abort c_step.simps spec_step.simps circle_abort_def
    by (rule set_agree [OF assms(1)]) (simp_all add: Circle_abort_def)
next
  case (Free h)
  show ?thesis unfolding Free c_step.simps spec_step.simps by (rule free_agree [OF assms(1)])
next
  case (Reduce h b n)
  show ?thesis unfolding Reduce c_step.simps spec_step.simps by (rule reduce_agree [OF assms(1)])
next
  case (Enqueue h b n)
  with assms(1,2) have "sound (1 + m) w" "n < 4294967296" by simp_all
  from enqueue_agree [OF this assms(3)] show ?thesis unfolding Enqueue c_step.simps spec_step.simps .
next
  case (Dequeue h b n)
  show ?thesis unfolding Dequeue c_step.simps spec_step.simps by (rule dequeue_agree [OF assms(1)])
qed

section \<open>Sequences of calls\<close>

lemma runs_agree:
  assumes "sound (m + (\<Sum>c\<leftarrow>cs. stores c)) w" "\<forall>c \<in> set cs. small_call c" "0 < pagesize E"
    "int (m + (\<Sum>c\<leftarrow>cs. stores c)) \<le> INT_MAX"
  shows "agree m (run_steps (c_step E me junk) cs w) (run_steps (spec_step me) cs (handles_of w))"
  using assms(1,2,4)
proof (induction cs arbitrary: w)
  case Nil
  then show ?case by (simp add: agree_def)
next
  case (Cons c cs)
  let ?m = "m + (\<Sum>c\<leftarrow>cs. stores c)"
  have "sound (stores c + ?m) w" using Cons.prems(1) by (simp add: ac_simps)
  from step_agree [OF this _ assms(3), of me junk] Cons.prems(2,3)
  have step: "agree ?m (c_step E me junk c w) (spec_step me c (handles_of w))" by simp
  show ?case
  proof (cases "spec_step me c (handles_of w)")
    case (Inl e)
    with step show ?thesis by (simp add: agree_def)
  next
    case (Inr vH)
    obtain v H where vH: "vH = (v, H)" by (cases vH)
    with step Inr obtain w1 where w1: "c_step E me junk c w = Inr (v, w1)" "sound ?m w1" "handles_of w1 = H"
      by (auto simp: agree_def)
    from Cons.IH [OF w1(2)] Cons.prems(2,3) have
      IH: "agree m (run_steps (c_step E me junk) cs w1) (run_steps (spec_step me) cs H)" using w1(3) by simp
    show ?thesis
    proof (cases "run_steps (spec_step me) cs H")
      case Inl
      with IH Inr vH w1(1) show ?thesis by (simp add: agree_def)
    next
      case (Inr y)
      with IH \<open>spec_step me c (handles_of w) = Inr vH\<close> vH w1(1) show ?thesis by (auto simp: agree_def)
    qed
  qed
qed

end
