(* ===== verification/Circle_Tests.thy ===== *)
theory Circle_Tests
  imports Circle_Checkpoint
begin

text \<open>
  The unit tests of the repository, \<open>src/tests/check_queue.cpp\<close> and
  \<open>src/tests/check_checkpoint.cpp\<close>, on the model: each test as a program over the operations of
  the queue, and the proof that they all pass for every page size.
\<close>

section \<open>The test harness\<close>

text \<open>A check that fails ends the test; the result is whether the test passes.\<close>

definition fail_unless :: "bool \<Rightarrow> bool res \<Rightarrow> bool res" where
  "fail_unless ok rest = (if ok then rest else Inr False)"

text \<open>A \<open>std::string\<close> as the bytes of its characters.\<close>

definition bytes_of :: "string \<Rightarrow> byte list" where
  "bytes_of s = map of_char s"

text \<open>A run of \<open>q.push(x)\<close> and \<open>q.pop(result)\<close> on strings, whose return codes the tests ignore.\<close>

fun test_ops :: "nat \<Rightarrow> queue_op list \<Rightarrow> byte list \<Rightarrow> queue \<Rightarrow> (byte list \<times> queue) res" where
  "test_ops pagesize [] result q = Inr (result, q)"
| "test_ops pagesize (Push x # ops) result q =
     bind_res (push_string pagesize x q) (\<lambda>(_, q). test_ops pagesize ops result q)"
| "test_ops pagesize (Pop # ops) result q =
     bind_res (pop_string result q) (\<lambda>(_, result, q). test_ops pagesize ops result q)"

section \<open>The tests of the queue\<close>

definition test_queue_pop_empty :: "bool res" where
  "test_queue_pop_empty =
     bind_res (pop_string [] Queue_new) (\<lambda>(_, result, q). fail_unless (\<not> length result > 0) (Inr True))"

definition test_string :: "byte list" where
  "test_string = bytes_of ''Here's a test string!''"

definition test_queue_single_push_pop :: "nat \<Rightarrow> bool res" where
  "test_queue_single_push_pop pagesize =
     bind_res (test_ops pagesize [Push test_string] [] Queue_new) (\<lambda>(result, q).
     fail_unless (getCount q = 1)
       (bind_res (test_ops pagesize [Pop] result q) (\<lambda>(result, q).
        fail_unless (getCount q = 0) (fail_unless (test_string = result) (Inr True)))))"

definition test_strings :: "byte list list" where
  "test_strings = map bytes_of
     [''first test string'', ''second test string'', ''third test string'', ''fourth test string'',
      ''fifth test string'', ''sixth test string'', ''seventh test string'', ''eighth test string'',
      ''nineth test string'', ''tenth test string'']"

definition test_queue_multiple_push_pop :: "nat \<Rightarrow> bool res" where
  "test_queue_multiple_push_pop pagesize =
    (let t = (\<lambda>i. test_strings ! i) in
     bind_res (test_ops pagesize [Push (t 0), Pop, Push (t 1), Pop] [] Queue_new) (\<lambda>(result, q).
     fail_unless (t 1 = result) (fail_unless (getCount q = 0)
    (bind_res (test_ops pagesize
        [Push (t 2), Push (t 3), Push (t 4), Push (t 5), Push (t 6), Push (t 7), Pop, Pop, Pop, Pop,
         Push (t 8), Push (t 9), Push (t 0), Pop, Pop, Pop, Pop, Pop] result q) (\<lambda>(result, q).
     fail_unless (t 2 = result) (fail_unless (getCount q = 0)
    (bind_res (test_ops pagesize
        [Push (t 1), Pop, Pop, Push (t 2), Pop, Push (t 3), Push (t 4), Push (t 5), Pop] result q) (\<lambda>(result, q).
     fail_unless (t 5 = result) (fail_unless (getCount q = 2) (Inr True))))))))))"

section \<open>The tests of checkpoints\<close>

definition test_checkpoint_single_write :: "os_env \<Rightarrow> nat \<Rightarrow> files \<Rightarrow> (bool \<times> files) res" where
  "test_checkpoint_single_write env pagesize fs =
     bind_res (push_string pagesize test_string Queue_new) (\<lambda>(_, out_q).
     bind_res (Queue_write env 5 fs out_q) (\<lambda>(checkpoint_write_ret, fs, out_q).
     bind_res (fail_unless (checkpoint_write_ret = 0) (Inr True)) (\<lambda>passed. Inr (passed, fs))))"

definition test_checkpoint_single_read :: "os_env \<Rightarrow> nat \<Rightarrow> files \<Rightarrow> bool res" where
  "test_checkpoint_single_read env pagesize fs =
     bind_res (Queue_read env pagesize 5 fs Queue_new) (\<lambda>(checkpoint_read_ret, in_q).
     fail_unless (checkpoint_read_ret = 0)
       (bind_res (pop_string [] in_q) (\<lambda>(_, result, in_q).
        fail_unless (getCount in_q = 0) (fail_unless (test_string = result) (Inr True)))))"

section \<open>They pass\<close>

fun stack_ops :: "queue_op list \<Rightarrow> byte list \<Rightarrow> byte list list \<Rightarrow> byte list \<times> byte list list" where
  "stack_ops [] result xs = (result, xs)"
| "stack_ops (Push x # ops) result xs = stack_ops ops result (if x = [] then xs else xs @ [x])"
| "stack_ops (Pop # ops) result xs = stack_ops ops (if xs = [] then [] else last xs) (butlast xs)"

lemma test_ops_stack:
  assumes "queue_rep q xs" "0 < pagesize" "\<forall>x \<in> set (pushed ops). length x < 4294967296"
    "int (length xs + length (pushed ops)) \<le> INT_MAX"
  shows "\<exists>q'. test_ops pagesize ops result q = Inr (fst (stack_ops ops result xs), q')
    \<and> queue_rep q' (snd (stack_ops ops result xs))"
  using assms(1,3,4)
proof (induction ops arbitrary: q xs result)
  case (Cons op ops)
  show ?case
  proof (cases op)
    case (Push x)
    show ?thesis
    proof (cases "x = []")
      case True
      with Cons Push show ?thesis by (simp add: push_string_def push_empty)
    next
      case False
      obtain q1 where q1: "push pagesize x q = Inr (0, q1)" "queue_rep q1 (xs @ [x])"
        using push_rep [OF Cons.prems(1) False _ _ assms(2)] Cons.prems(2,3) Push by auto
      with Cons.IH [OF q1(2)] Cons.prems(2,3) Push False show ?thesis by (simp add: push_string_def)
    qed
  next
    case Pop
    show ?thesis
    proof (cases "xs = []")
      case True
      with Cons Pop pop_empty show ?thesis by (simp add: pop_string_def)
    next
      case False
      then have "queue_rep q (butlast xs @ [last xs])" using Cons.prems(1) by simp
      from pop_rep [OF this] obtain q1 where q1: "pop [] q = Inr (0, last xs, q1)" "queue_rep q1 (butlast xs)" by metis
      with Cons.IH [OF q1(2)] Cons.prems(2,3) Pop False show ?thesis by (simp add: pop_string_def)
    qed
  qed
qed simp

text \<open>The strings of the tests are not empty, short, of one line and without NUL bytes.\<close>

lemma test_string_facts [simp]: "test_string \<noteq> []" "length test_string = 21" "one_line test_string" "c_str test_string = test_string"
  by code_simp+

lemma test_strings_facts: "length test_strings = 10" "\<forall>x \<in> set test_strings. x \<noteq> [] \<and> length x < 4294967296"
  by (simp_all add: test_strings_def bytes_of_def)

lemma nth_test_strings [simp]:
  assumes "i < 10"
  shows "test_strings ! i \<noteq> []" "length (test_strings ! i) < 4294967296"
  using assms test_strings_facts nth_mem [of i test_strings] by auto

lemma pop_empty_passes: "test_queue_pop_empty = Inr True"
  by (simp add: test_queue_pop_empty_def pop_string_def pop_empty [OF queue_rep_new] fail_unless_def)

lemma test_ops_new:
  assumes "0 < pagesize" "\<forall>x \<in> set (pushed ops). length x < 4294967296" "length (pushed ops) < 1000"
  obtains q where "test_ops pagesize ops result Queue_new = Inr (fst (stack_ops ops result []), q)"
    "queue_rep q (snd (stack_ops ops result []))"
  using test_ops_stack [OF queue_rep_new assms(1,2)] assms(3) by (fastforce simp: INT_MAX_def)

lemma test_ops_next:
  assumes "queue_rep q xs" "0 < pagesize" "\<forall>x \<in> set (pushed ops). length x < 4294967296" "length xs + length (pushed ops) < 1000"
  obtains q' where "test_ops pagesize ops result q = Inr (fst (stack_ops ops result xs), q')"
    "queue_rep q' (snd (stack_ops ops result xs))"
  using test_ops_stack [OF assms(1-3)] assms(4) by (fastforce simp: INT_MAX_def)

lemma single_push_pop_passes:
  assumes "0 < pagesize"
  shows "test_queue_single_push_pop pagesize = Inr True"
proof -
  obtain q where q: "test_ops pagesize [Push test_string] [] Queue_new = Inr ([], q)" "queue_rep q [test_string]"
    by (rule test_ops_new [OF assms, of "[Push test_string]" "[]"]) auto
  obtain q' where q': "test_ops pagesize [Pop] [] q = Inr (test_string, q')" "queue_rep q' []"
    by (rule test_ops_next [OF q(2) assms, of "[Pop]" "[]"]) auto
  show ?thesis
    using q(1) q'(1) queue_rep_count [OF q(2)] queue_rep_count [OF q'(2)]
    by (simp add: test_queue_single_push_pop_def fail_unless_def getCount_def)
qed

lemma multiple_push_pop_passes:
  assumes "0 < pagesize"
  shows "test_queue_multiple_push_pop pagesize = Inr True"
proof -
  let ?t = "\<lambda>i. test_strings ! i"
  obtain q where q: "test_ops pagesize [Push (?t 0), Pop, Push (?t 1), Pop] [] Queue_new = Inr (?t 1, q)" "queue_rep q []"
    by (rule test_ops_new [OF assms, of "[Push (?t 0), Pop, Push (?t 1), Pop]" "[]"]) auto
  obtain q1 where q1: "test_ops pagesize [Push (?t 2), Push (?t 3), Push (?t 4), Push (?t 5), Push (?t 6), Push (?t 7), Pop, Pop, Pop, Pop,
      Push (?t 8), Push (?t 9), Push (?t 0), Pop, Pop, Pop, Pop, Pop] (?t 1) q = Inr (?t 2, q1)" "queue_rep q1 []"
    by (rule test_ops_next [OF q(2) assms, of "[Push (?t 2), Push (?t 3), Push (?t 4), Push (?t 5), Push (?t 6), Push (?t 7), Pop, Pop, Pop, Pop,
      Push (?t 8), Push (?t 9), Push (?t 0), Pop, Pop, Pop, Pop, Pop]" "?t 1"]) auto
  obtain q2 where q2: "test_ops pagesize [Push (?t 1), Pop, Pop, Push (?t 2), Pop, Push (?t 3), Push (?t 4), Push (?t 5), Pop] (?t 2) q1
      = Inr (?t 5, q2)" "queue_rep q2 [?t 3, ?t 4]"
    by (rule test_ops_next [OF q1(2) assms, of "[Push (?t 1), Pop, Pop, Push (?t 2), Pop, Push (?t 3), Push (?t 4), Push (?t 5), Pop]" "?t 2"]) auto
  show ?thesis
    using q(1) q1(1) q2(1) queue_rep_count [OF q(2)] queue_rep_count [OF q1(2)] queue_rep_count [OF q2(2)]
    by (simp add: test_queue_multiple_push_pop_def fail_unless_def getCount_def Let_def)
qed

text \<open>The first test of checkpoints leaves the file that the second one reads.\<close>

lemma checkpoint_tests_pass:
  assumes "0 < pagesize" "can_write env (checkpoint_name 5)" "can_read env (checkpoint_name 5)"
    "\<forall>line. fprintf_ok env line" "fclose_rc env = 0"
  shows "\<exists>fs'. test_checkpoint_single_write env pagesize fs = Inr (True, fs')
    \<and> test_checkpoint_single_read env pagesize fs' = Inr True"
proof -
  let ?fs = "fs(checkpoint_name 5 \<mapsto> checkpoint_text [test_string])"
  obtain q where q: "push pagesize test_string Queue_new = Inr (0, q)" "queue_rep q [test_string]"
    using push_rep [OF queue_rep_new test_string_facts(1) _ _ assms(1)] by (auto simp: INT_MAX_def)
  obtain q1 where "Queue_write env 5 fs q = Inr (0, ?fs, q1)"
    using Queue_write_rep [OF q(2) _ assms(2,4), of fs] assms(5) by auto
  with q(1) have w: "test_checkpoint_single_write env pagesize fs = Inr (True, ?fs)"
    by (simp add: test_checkpoint_single_write_def push_string_def fail_unless_def)
  obtain q2 where q2: "Queue_read env pagesize 5 ?fs Queue_new = Inr (0, q2)" "queue_rep q2 [test_string]"
    using Queue_read_rep [OF queue_rep_new assms(1,3), of ?fs "[test_string]"] by (auto simp: INT_MAX_def)
  have "queue_rep q2 ([] @ [test_string])" using q2(2) by simp
  from pop_rep [OF this] obtain q3 where q3: "pop [] q2 = Inr (0, test_string, q3)" "queue_rep q3 []" by metis
  have "test_checkpoint_single_read env pagesize ?fs = Inr True"
    using q2(1) q3(1) queue_rep_count [OF q3(2)]
    by (simp add: test_checkpoint_single_read_def pop_string_def fail_unless_def getCount_def)
  with w show ?thesis by blast
qed

end
