(* ===== verification/Circle_Restart.thy ===== *)
theory Circle_Restart
  imports Circle_Object
begin

text \<open>
  Checkpoint and restart of all ranks: every process writes its checkpoint, in any order, into
  one file system, and the processes of a later run read them, in any order.
\<close>

section \<open>All ranks\<close>

fun checkpoint_all :: "env \<Rightarrow> int list \<Rightarrow> files \<Rightarrow> (int \<Rightarrow> 'u circle) \<Rightarrow> (int list \<times> files) res" where
  "checkpoint_all E [] fs cs = Inr ([], fs)"
| "checkpoint_all E (i # is) fs cs =
     bind_res (checkpoint E fs (cs i)) (\<lambda>(rc, fs, c).
     bind_res (checkpoint_all E is fs cs) (\<lambda>(rcs, fs). Inr (rc # rcs, fs)))"

fun restart_all :: "env \<Rightarrow> int list \<Rightarrow> files \<Rightarrow> (int \<Rightarrow> 'u circle) \<Rightarrow> (int \<Rightarrow> 'u circle) res" where
  "restart_all E [] fs cs = Inr cs"
| "restart_all E (i # is) fs cs =
     bind_res (readRestarts E fs (cs i)) (\<lambda>(rc, c). restart_all E is fs (cs(i := c)))"

section \<open>What may be stored\<close>

text \<open>Elements a checkpoint keeps as they are: one line of text without NUL bytes.\<close>

definition plain :: "byte list \<Rightarrow> bool" where
  "plain x \<longleftrightarrow> x \<noteq> [] \<and> one_line x \<and> 0 \<notin> set x \<and> length x < 4294967296"

definition disk_ok :: "os_env \<Rightarrow> int list \<Rightarrow> bool" where
  "disk_ok env is \<longleftrightarrow> (\<forall>i \<in> set is. can_write env (checkpoint_name i) \<and> can_read env (checkpoint_name i))
     \<and> (\<forall>line. fprintf_ok env line) \<and> fclose_rc env = 0"

text \<open>A rank's file holds the text of its items; with no item the rank has no file.\<close>

definition saved :: "files \<Rightarrow> int \<Rightarrow> byte list list \<Rightarrow> bool" where
  "saved fs i xs \<longleftrightarrow> fs (checkpoint_name i) = (if xs = [] then None else Some (checkpoint_text xs))"

lemma c_str_plain: "plain x \<Longrightarrow> c_str x = x"
  unfolding plain_def c_str_def by (rule takeWhile_eq_all_conv [THEN iffD2]) auto

section \<open>Writing\<close>

lemma checkpoint_saves:
  assumes "queue_rep (queue c) xs" "c_rank c = i" "disk_ok (os E) is" "i \<in> set is" "xs = [] \<Longrightarrow> fs (checkpoint_name i) = None"
  shows "\<exists>fs' c'. checkpoint E fs c = Inr (0, fs', c') \<and> saved fs' i xs
    \<and> (\<forall>j. j \<noteq> i \<longrightarrow> fs' (checkpoint_name j) = fs (checkpoint_name j))"
proof (cases "xs = []")
  case True
  with assms(1) have "qcount (queue c) = 0" by (simp add: queue_rep_count)
  with True assms(5) show ?thesis by (simp add: checkpoint_def Queue_write_def saved_def)
next
  case False
  obtain q' where "Queue_write (os E) i fs (queue c) = Inr (0, fs(checkpoint_name i \<mapsto> checkpoint_text xs), q')"
    using Queue_write_rep [OF assms(1) False, of "os E" i fs] assms(3,4) by (auto simp: disk_ok_def)
  with False assms(2) show ?thesis by (simp add: checkpoint_def getRank_def saved_def checkpoint_name_inject)
qed

lemma checkpoint_all_saves:
  assumes "disk_ok (os E) all" "set is \<subseteq> set all" "distinct is" "\<forall>i \<in> set is. queue_rep (queue (cs i)) (xs i) \<and> c_rank (cs i) = i"
    "\<forall>i \<in> set is. xs i = [] \<longrightarrow> fs (checkpoint_name i) = None"
  shows "\<exists>fs'. checkpoint_all E is fs cs = Inr (map (\<lambda>_. 0) is, fs') \<and> (\<forall>i \<in> set is. saved fs' i (xs i))
    \<and> (\<forall>j. j \<notin> set is \<longrightarrow> fs' (checkpoint_name j) = fs (checkpoint_name j))"
  using assms(2-5)
proof (induction "is" arbitrary: fs)
  case (Cons i "is")
  obtain fs1 c1 where 1: "checkpoint E fs (cs i) = Inr (0, fs1, c1)" "saved fs1 i (xs i)"
    "\<And>j. j \<noteq> i \<Longrightarrow> fs1 (checkpoint_name j) = fs (checkpoint_name j)"
    using checkpoint_saves [of "cs i" "xs i" i E all fs] assms(1) Cons.prems by auto
  have "\<forall>j \<in> set is. xs j = [] \<longrightarrow> fs1 (checkpoint_name j) = None"
    using Cons.prems(2,4) 1(3) by (metis distinct.simps(2) list.set_intros(2))
  then obtain fs2 where 2: "checkpoint_all E is fs1 cs = Inr (map (\<lambda>_. 0) is, fs2)" "\<forall>i \<in> set is. saved fs2 i (xs i)"
    "\<And>j. j \<notin> set is \<Longrightarrow> fs2 (checkpoint_name j) = fs1 (checkpoint_name j)"
    using Cons.IH [of fs1] Cons.prems by auto
  have "saved fs2 i (xs i)" using 1(2) 2(3) [of i] Cons.prems(2) by (simp add: saved_def)
  with 1 2 show ?case by simp
qed simp

section \<open>Reading\<close>

lemma restart_reads:
  assumes "saved fs i xs" "queue_rep (queue c) []" "c_rank c = i" "disk_ok (os E) is" "i \<in> set is"
    "\<forall>x \<in> set xs. plain x" "int (length xs) \<le> INT_MAX" "0 < pagesize E"
  shows "\<exists>rc q. readRestarts E fs c = Inr (rc, c\<lparr>queue := q\<rparr>) \<and> queue_rep q (rev xs)"
proof (cases "xs = []")
  case True
  with assms(1-3) show ?thesis
    by (intro exI [of _ "-1"] exI [of _ "queue c"]) (simp add: saved_def readRestarts_def Queue_read_def getRank_def Let_def)
next
  case False
  have "filter (\<lambda>x. x \<noteq> []) (rev (map c_str xs)) = rev xs"
  proof -
    have "map c_str xs = xs" using assms(6) c_str_plain by (simp add: map_idI)
    moreover have "filter (\<lambda>x. x \<noteq> []) (rev xs) = rev xs" using assms(6) by (auto simp: plain_def filter_id_conv)
    ultimately show ?thesis by simp
  qed
  moreover have "fs (checkpoint_name i) = Some (checkpoint_text xs)" using assms(1) False by (simp add: saved_def)
  ultimately obtain q where "Queue_read (os E) (pagesize E) i fs (queue c) = Inr (0, q)" "queue_rep q (rev xs)"
    using Queue_read_rep [OF assms(2,8), of "os E" i fs xs] assms(4-7) by (auto simp: disk_ok_def plain_def)
  with assms(3) show ?thesis by (intro exI [of _ 0] exI [of _ q]) (simp add: readRestarts_def getRank_def)
qed

lemma restart_all_reads:
  assumes "disk_ok (os E) all" "set is \<subseteq> set all" "distinct is" "\<forall>i \<in> set is. saved fs i (xs i)"
    "\<forall>i \<in> set is. queue_rep (queue (cs i)) [] \<and> c_rank (cs i) = i"
    "\<forall>i \<in> set is. (\<forall>x \<in> set (xs i). plain x) \<and> int (length (xs i)) \<le> INT_MAX" "0 < pagesize E"
  shows "\<exists>cs'. restart_all E is fs cs = Inr cs' \<and> (\<forall>i \<in> set is. queue_rep (queue (cs' i)) (rev (xs i)))
    \<and> (\<forall>j. j \<notin> set is \<longrightarrow> cs' j = cs j)"
  using assms(2-6)
proof (induction "is" arbitrary: cs)
  case (Cons i "is")
  obtain rc q where 1: "readRestarts E fs (cs i) = Inr (rc, (cs i)\<lparr>queue := q\<rparr>)" "queue_rep q (rev (xs i))"
    using restart_reads [of fs i "xs i" "cs i" E all] assms(1,7) Cons.prems by auto
  let ?cs = "cs(i := (cs i)\<lparr>queue := q\<rparr>)"
  have "\<forall>j \<in> set is. queue_rep (queue (?cs j)) [] \<and> c_rank (?cs j) = j" using Cons.prems(2,4) by auto
  from Cons.IH [OF _ _ _ this] Cons.prems obtain cs' where 2: "restart_all E is fs ?cs = Inr cs'"
    "\<forall>j \<in> set is. queue_rep (queue (cs' j)) (rev (xs j))" "\<forall>j. j \<notin> set is \<longrightarrow> cs' j = ?cs j"
    by (auto simp del: fun_upd_apply)
  have "queue_rep (queue (cs' i)) (rev (xs i))" using 1(2) 2(3) Cons.prems(2) by simp
  with 1(1) 2 show ?case by (intro exI [of _ cs']) auto
qed simp

section \<open>The round trip\<close>

lemma restart_restores:
  assumes "disk_ok (os E) is" "0 < pagesize E" "distinct is" "distinct js" "set js = set is"
    "\<forall>i \<in> set is. queue_rep (queue (cs i)) (xs i) \<and> c_rank (cs i) = i"
    "\<forall>i \<in> set is. xs i = [] \<longrightarrow> fs (checkpoint_name i) = None"
    "\<forall>i \<in> set is. (\<forall>x \<in> set (xs i). plain x) \<and> int (length (xs i)) \<le> INT_MAX"
    "\<forall>i \<in> set is. queue_rep (queue (ds i)) [] \<and> c_rank (ds i) = i"
  shows "\<exists>fs' ds'. checkpoint_all E is fs cs = Inr (map (\<lambda>_. 0) is, fs') \<and> restart_all E js fs' ds = Inr ds'
    \<and> (\<forall>i \<in> set is. queue_rep (queue (ds' i)) (rev (xs i)))"
proof -
  obtain fs' where 1: "checkpoint_all E is fs cs = Inr (map (\<lambda>_. 0) is, fs')" "\<forall>i \<in> set is. saved fs' i (xs i)"
    using checkpoint_all_saves [OF assms(1) order_refl assms(3,6,7)] by blast
  have "set js \<subseteq> set is" using assms(5) by simp
  from restart_all_reads [OF assms(1) this assms(4), of fs' xs ds] 1(2) assms(2,5,8,9) obtain ds' where
    "restart_all E js fs' ds = Inr ds'" "\<forall>i \<in> set is. queue_rep (queue (ds' i)) (rev (xs i))" by auto
  with 1(1) show ?thesis by blast
qed

end
