(* ===== verification/Circle_Pi.thy ===== *)
theory Circle_Pi
  imports Circle_Example
begin

text \<open>
  The example program in C, \<open>src/examples/example_pi.c\<close>: rank 0 queues seeds, and the process that
  takes a seed adds an estimate from random points to its part of the sum.  Floating point and
  the generator behind \<open>srand\<close> and \<open>rand\<close> are the C library's, so they are parameters.
\<close>

section \<open>The program\<close>

text \<open>Numbers of type \<open>double\<close>: sum, quotient of two integers, the printed result, the bytes in memory,
  and whether the point of two random numbers lies in the circle.\<close>

record 'd doubles =
  d_add :: "'d \<Rightarrow> 'd \<Rightarrow> 'd"
  d_ratio :: "nat \<Rightarrow> nat \<Rightarrow> 'd"
  d_result :: "'d \<Rightarrow> nat \<Rightarrow> 'd"
  d_bytes :: "'d \<Rightarrow> byte list"
  d_read :: "byte list \<Rightarrow> 'd"
  inside :: "nat \<Rightarrow> nat \<Rightarrow> bool"

text \<open>What \<open>malloc\<close> leaves in memory, and the numbers that \<open>rand\<close> gives after \<open>srand\<close>.\<close>

record libc =
  uninit :: "nat \<Rightarrow> byte"
  rand_after :: "64 word \<Rightarrow> nat \<Rightarrow> nat"

definition npoints :: nat where "npoints = 100000"
definition njobs :: nat where "njobs = 10"

text \<open>The data of a process: its sum, the lines \<open>Rank .. received seed\<close> and the results it has
  printed.\<close>

record 'd pi_data =
  pi_partial :: 'd
  received :: "(int \<times> 64 word) list"
  answers :: "'d list"

definition read_double :: "'d doubles \<Rightarrow> byte list option \<Rightarrow> 'd res" where
  "read_double D buf =
     (case buf of None \<Rightarrow> Inl Undefined
      | Some b \<Rightarrow> guard_res (8 \<le> length b) Undefined (Inr (d_read D (take 8 b))))"

definition my_reduce_init_pi :: "env \<Rightarrow> 'd doubles \<Rightarrow> 'd pi_data circle \<Rightarrow> 'd pi_data circle res" where
  "my_reduce_init_pi E D example = Inr (reduce E (d_bytes D (pi_partial (user example))) example)"

definition my_reduce_op_pi ::
  "env \<Rightarrow> 'd doubles \<Rightarrow> 'd pi_data circle \<Rightarrow> byte list option \<Rightarrow> nat \<Rightarrow> byte list option \<Rightarrow> nat \<Rightarrow> 'd pi_data circle res" where
  "my_reduce_op_pi E D example a a_size b b_size =
     bind_res (read_double D a) (\<lambda>x. bind_res (read_double D b) (\<lambda>y.
       let r = d_add D x y in Inr (reduce E (d_bytes D r) example)))"

definition my_reduce_fini_pi :: "'d doubles \<Rightarrow> 'd pi_data circle \<Rightarrow> byte list option \<Rightarrow> nat \<Rightarrow> 'd pi_data circle res" where
  "my_reduce_fini_pi D example pi_total sz =
     bind_res (read_double D pi_total) (\<lambda>x.
       Inr (example\<lparr>user := (user example)\<lparr>answers := answers (user example) @ [d_result D x njobs]\<rparr>\<rparr>))"

fun enqueue_seeds :: "env \<Rightarrow> nat list \<Rightarrow> 'd pi_data circle \<Rightarrow> 'd pi_data circle res" where
  "enqueue_seeds E [] example = Inr example"
| "enqueue_seeds E (i # is) example =
     bind_res (circle_enqueue E (le_bytes 4 (of_nat i)) 4 example) (\<lambda>(_, example). enqueue_seeds E is example)"

definition my_create_some_work_pi :: "env \<Rightarrow> 'd pi_data circle \<Rightarrow> 'd pi_data circle res" where
  "my_create_some_work_pi E example = enqueue_seeds E [0..<njobs] example"

text \<open>\<open>seed[0]\<close> is an unsigned number of 32 bits; here it is widened to 64.\<close>

definition read_seed :: "byte list option \<Rightarrow> 64 word res" where
  "read_seed p =
     (case p of None \<Rightarrow> Inl Undefined
      | Some b \<Rightarrow> guard_res (4 \<le> length b) Undefined (Inr (le_word (take 4 b))))"

definition count_inside :: "(nat \<Rightarrow> nat) \<Rightarrow> (nat \<Rightarrow> nat \<Rightarrow> bool) \<Rightarrow> nat \<Rightarrow> nat" where
  "count_inside rand hit points = length (filter (\<lambda>i. hit (rand (2 * i)) (rand (2 * i + 1))) [0..<points])"

text \<open>The number of points, \<open>npoints\<close> in the program, is an argument.\<close>

definition my_process_some_work_pi ::
  "env \<Rightarrow> 'd doubles \<Rightarrow> libc \<Rightarrow> nat \<Rightarrow> 'd pi_data circle \<Rightarrow> 'd pi_data circle res" where
  "my_process_some_work_pi E D L points example =
     bind_res (circle_dequeue None (Some 0) example) (\<lambda>(_, _, szseed, example).
     let sz = (case szseed of None \<Rightarrow> 0 | Some n \<Rightarrow> n);
         p = (if malloc_ok E sz then Some (map (uninit L) [0..<sz]) else None) in
     bind_res (circle_dequeue p (Some sz) example) (\<lambda>(_, p, _, example).
     bind_res (read_seed p) (\<lambda>seed0.
       let ncircle = count_inside (rand_after L seed0) (inside D) points; u = user example in
       Inr (example\<lparr>user := u\<lparr>received := received u @ [(getRank example, seed0)],
         pi_partial := d_add D (pi_partial u) (d_ratio D ncircle points)\<rparr>\<rparr>))))"

definition pi_callbacks :: "env \<Rightarrow> 'd doubles \<Rightarrow> libc \<Rightarrow> nat \<Rightarrow> 'd pi_data callbacks" where
  "pi_callbacks E D L points =
     \<lparr>createCallback = my_create_some_work_pi E, processCallback = my_process_some_work_pi E D L points,
      reduceInitCallback = Some (my_reduce_init_pi E D), reduceOperationCallback = Some (my_reduce_op_pi E D),
      reduceFinalizeCallback = Some (my_reduce_fini_pi D)\<rparr>"

text \<open>The object that \<open>main\<close> builds before it calls \<open>circle_execute\<close>.\<close>

definition pi_circle :: "int \<Rightarrow> nat \<Rightarrow> 'd \<Rightarrow> 'd pi_data circle" where
  "pi_circle me junk zero =
     setReducePeriod 10 (setLogLevel Info (Circle_new me DefaultFlags junk \<lparr>pi_partial = zero, received = [], answers = []\<rparr>))"

section \<open>Seeds\<close>

definition seed_of :: "byte list \<Rightarrow> 64 word" where
  "seed_of x = le_word (take 4 x)"

lemma seed_roundtrip: "i < 2 ^ 32 \<Longrightarrow> seed_of (le_bytes 4 (of_nat i)) = of_nat i"
  by (simp add: seed_of_def le_word_bytes take_bit_of_nat take_bit_nat_eq_self)

text \<open>The create callback queues the seeds in order.\<close>

lemma enqueue_seeds_rep:
  assumes "0 < pagesize E"
  shows "queue_rep (queue c) xs \<Longrightarrow> int (length xs + length is) < INT_MAX \<Longrightarrow>
    \<exists>c'. enqueue_seeds E is c = Inr c' \<and> queue_rep (queue c') (xs @ map (\<lambda>i. le_bytes 4 (of_nat i)) is) \<and> user c' = user c"
proof (induction "is" arbitrary: c xs)
  case (Cons i "is")
  let ?x = "le_bytes 4 (of_nat i)"
  have "?x \<noteq> []" using length_le_bytes [of 4 "of_nat i"] by (metis list.size(3) zero_neq_numeral)
  then obtain q where q: "enqueue E ?x c = Inr (0, c\<lparr>queue := q\<rparr>)" "queue_rep q (xs @ [?x])"
    using enqueue_rep [OF Cons.prems(1) _ _ _ assms, of ?x] Cons.prems(2) by auto
  have "queue_rep (queue (c\<lparr>queue := q\<rparr>)) (xs @ [?x])" using q(2) by simp
  from Cons.IH [OF this] Cons.prems(2) q(1) show ?case by (auto simp: circle_enqueue_def)
qed simp

lemma create_seeds:
  assumes "0 < pagesize E" "queue_rep (queue c) []"
  shows "\<exists>c'. my_create_some_work_pi E c = Inr c' \<and> queue_rep (queue c') (map (\<lambda>i. le_bytes 4 (of_nat i)) [0..<njobs]) \<and> user c' = user c"
  using enqueue_seeds_rep [OF assms, of "[0..<njobs]"] by (simp add: my_create_some_work_pi_def njobs_def INT_MAX_def)

section \<open>The process callback\<close>

lemma circle_dequeue_some:
  assumes "circle_dequeue (Some buf) (Some sz) c = Inr (rc, b, m, c')" "queue_rep (queue c) (xs @ [x])"
  shows "\<exists>q. c' = c\<lparr>queue := q\<rparr> \<and> queue_rep q xs \<and> min sz (length x) \<le> length buf
    \<and> b = Some (take (min sz (length x)) x @ drop (min sz (length x)) buf)"
proof -
  obtain q where "dequeue [] c = Inr (0, x, c\<lparr>queue := q\<rparr>)" "queue_rep q xs" using dequeue_rep [OF assms(2)] by metis
  with assms(1) show ?thesis by (auto simp: circle_dequeue_def guard_res_def memcpy_def Let_def split: if_splits)
qed

lemma circle_dequeue_size:
  assumes "circle_dequeue None (Some k) c = Inr (rc, b, m, c')" "queue_rep (queue c) (xs @ [x])"
  shows "c' = c \<and> m = Some (to_size (int (length x)))"
proof -
  have "strings (queue c) ! length xs = length (concat xs)" "head (queue c) = length (concat xs) + length x"
    using assms(2) by (auto simp: queue_rep_def starts_append take_Suc_conv_app_nth)
  then have "lastSize (queue c) = Inr (to_size (int (length x)))"
    using assms(2) by (simp add: lastSize_def queue_rep_def Let_def)
  with assms(1) show ?thesis by (simp add: circle_dequeue_def)
qed

lemma process_pi_effect:
  assumes "wf_queue (queue c)" "0 < qcount (queue c)" "my_process_some_work_pi E D L m c = Inr c'"
  obtains xs x where "items (queue c) = xs @ [x]" "items (queue c') = xs" "wf_queue (queue c')"
    "map snd (received (user c')) = map snd (received (user c)) @ [seed_of x]"
proof -
  have rep: "queue_rep (queue c) (items (queue c))" by (rule wf_queue_rep [OF assms(1)])
  then have "items (queue c) \<noteq> []" using assms(2) queue_rep_count by fastforce
  then obtain xs x where xs: "items (queue c) = xs @ [x]" by (metis rev_exhaust)
  with rep have rep: "queue_rep (queue c) (xs @ [x])" by simp
  obtain rc b szo c1 where 1: "circle_dequeue None (Some 0) c = Inr (rc, b, szo, c1)"
    and rest: "(let sz = (case szo of None \<Rightarrow> 0 | Some n \<Rightarrow> n);
         p = (if malloc_ok E sz then Some (map (uninit L) [0..<sz]) else None) in
     bind_res (circle_dequeue p (Some sz) c1) (\<lambda>(_, p, _, example).
     bind_res (read_seed p) (\<lambda>seed0.
       let ncircle = count_inside (rand_after L seed0) (inside D) m; u = user example in
       Inr (example\<lparr>user := u\<lparr>received := received u @ [(getRank example, seed0)],
         pi_partial := d_add D (pi_partial u) (d_ratio D ncircle m)\<rparr>\<rparr>)))) = Inr c'"
    using assms(3) unfolding my_process_some_work_pi_def by (auto elim!: bind_res_InrE)
  define sz where "sz = to_size (int (length x))"
  have c1: "c1 = c" "szo = Some sz" using circle_dequeue_size [OF 1 rep] by (simp_all add: sz_def)
  have sz: "sz \<le> length x" by (simp add: sz_def to_size_def nat_le_iff zmod_le_nonneg_dividend)
  obtain rc2 b2 m2 c2 seed0 where 2: "circle_dequeue (if malloc_ok E sz then Some (map (uninit L) [0..<sz]) else None) (Some sz) c = Inr (rc2, b2, m2, c2)"
    and 3: "read_seed b2 = Inr seed0" "queue c' = queue c2" "received (user c') = received (user c2) @ [(getRank c2, seed0)]"
    using rest unfolding c1 by (auto simp: Let_def elim!: bind_res_InrE)
  have mal: "malloc_ok E sz"
  proof (rule ccontr)
    assume "\<not> malloc_ok E sz"
    with 2 have "b2 = None" by (auto simp: circle_dequeue_def elim!: bind_res_InrE)
    with 3(1) show False by (simp add: read_seed_def)
  qed
  with 2 have "circle_dequeue (Some (map (uninit L) [0..<sz])) (Some sz) c = Inr (rc2, b2, m2, c2)" by simp
  from circle_dequeue_some [OF this rep] sz obtain q where q: "c2 = c\<lparr>queue := q\<rparr>" "queue_rep q xs" "b2 = Some (take sz x)"
    by (auto simp: min_absorb1)
  have "seed0 = seed_of x"
    using 3(1) q(3) sz by (auto simp: read_seed_def seed_of_def guard_res_def min_absorb1 split: if_splits)
  with that [OF xs] q 3(2,3) queue_rep_items queue_rep_wf show thesis by auto
qed

section \<open>Every seed is received once\<close>

text \<open>For one number at a time: an item is worth 1 when it holds the number, and a process has as much
  credit as it has received it.\<close>

definition holds_seed :: "64 word \<Rightarrow> byte list \<Rightarrow> int" where
  "holds_seed k x = (if seed_of x = k then 1 else 0)"

definition times_received :: "64 word \<Rightarrow> 'd pi_data \<Rightarrow> int" where
  "times_received k u = int (count (mset (map snd (received u))) k)"

lemma pi_settles: "settles (pi_callbacks E D L m) (holds_seed k) (\<lambda>u (j::int). times_received k u)"
  unfolding settles_def
proof (intro allI impI)
  fix c c' and j :: int
  assume a: "wf_queue (queue c)" "0 < qcount (queue c)" "processCallback (pi_callbacks E D L m) c = Inr c'"
  have p: "my_process_some_work_pi E D L m c = Inr c'" using a(3) by (simp add: pi_callbacks_def)
  obtain xs x where "items (queue c) = xs @ [x]" "items (queue c') = xs" "wf_queue (queue c')"
    "map snd (received (user c')) = map snd (received (user c)) @ [seed_of x]"
    by (rule process_pi_effect [OF a(1,2) p])
  then show "tally (holds_seed k) (mset (items (queue c'))) + times_received k (user c')
      = tally (holds_seed k) (mset (items (queue c))) + times_received k (user c)"
    by (simp add: tally_def times_received_def holds_seed_def)
qed

lemma my_reduce_op_pi_frame: "my_reduce_op_pi E D c b m d k = Inr c' \<Longrightarrow> queue c' = queue c \<and> user c' = user c"
  by (auto simp: my_reduce_op_pi_def Let_def elim!: bind_res_InrE)

lemma my_reduce_fini_pi_frame: "my_reduce_fini_pi D c b m = Inr c' \<Longrightarrow> queue c' = queue c \<and> received (user c') = received (user c)"
  by (auto simp: my_reduce_fini_pi_def elim!: bind_res_InrE)

lemma circle_dequeue_kept:
  assumes "circle_dequeue e m c = Inr (rc, b, k, c')" "wf_queue (queue c)" "fits (items (queue c))"
  shows "wf_queue (queue c')" "fits (items (queue c'))"
proof -
  have "queue c' = queue c \<or> (\<exists>rc x. pop [] (queue c) = Inr (rc, x, queue c'))"
    using assms(1) by (auto simp: circle_dequeue_def dequeue_def Let_def guard_res_def
        elim!: bind_res_InrE split: option.splits if_splits)
  then show "wf_queue (queue c')" "fits (items (queue c'))" using pop_kept [OF _ assms(2,3)] assms(2,3) by auto
qed

lemma process_pi_ok:
  assumes "my_process_some_work_pi E D L m c = Inr c'" "wf_queue (queue c)" "fits (items (queue c))"
  shows "wf_queue (queue c')" "fits (items (queue c'))"
proof -
  obtain x1 x2 x3 c1 e k y1 y2 y3 c2 where d: "circle_dequeue None (Some 0) c = Inr (x1, x2, x3, c1)"
    "circle_dequeue e k c1 = Inr (y1, y2, y3, c2)" "queue c' = queue c2"
    using assms(1) by (auto simp: my_process_some_work_pi_def Let_def elim!: bind_res_InrE)
  note c1 = circle_dequeue_kept [OF d(1) assms(2,3)]
  show "wf_queue (queue c')" "fits (items (queue c'))" using circle_dequeue_kept [OF d(2) c1] d(3) by simp_all
qed

lemma pi_keep: "callbacks_keep (\<lambda>u (j::int). times_received k u) (pi_callbacks E D L m)"
  unfolding callbacks_keep_def callbacks_ok_def
  by (auto simp: pi_callbacks_def my_reduce_init_pi_def process_pi_ok times_received_def
      dest: my_reduce_op_pi_frame my_reduce_fini_pi_frame)

text \<open>No process has received a seed yet.\<close>

definition none_received :: "int \<Rightarrow> (int \<Rightarrow> 'd pi_data state) \<Rightarrow> bool" where
  "none_received n \<sigma> \<longleftrightarrow> (\<forall>i. 0 \<le> i \<longrightarrow> i < n \<longrightarrow> received (user (circ (\<sigma> i))) = [])"

definition all_received :: "int \<Rightarrow> (int \<Rightarrow> 'd pi_data state) \<Rightarrow> 64 word multiset" where
  "all_received n \<sigma> = (\<Sum>i\<in>{0..<n}. mset (map snd (received (user (circ (\<sigma> i))))))"

lemma tally_holds: "tally (holds_seed k) W = int (count (image_mset seed_of W) k)"
  by (induction W) (simp_all add: tally_def holds_seed_def)

lemma credit_received: "credit (\<lambda>u (j::int). times_received k u) n \<sigma> = int (count (all_received n \<sigma>) k)"
  by (simp add: credit_def all_received_def times_received_def count_sum)

lemma seeds_reach:
  assumes eager: "mpi_eager M pend" and E: "env_ok E n" and st: "starts_work E n \<sigma>0" and fresh: "none_received n \<sigma>0"
    and mode: "\<forall>i. 0 \<le> i \<longrightarrow> i < n \<longrightarrow> \<not> term_tree_enabled (\<sigma>0 i)" and net: "\<forall>k. pend w0 k = []"
    and run: "(program_step E M (pi_callbacks E D L m) n)\<^sup>*\<^sup>* (\<lambda>_. Working, \<sigma>0, w0) (ph, \<sigma>, w)"
    and i: "0 \<le> i" "i < n" "ph i \<noteq> Working"
  shows "all_received n \<sigma> = image_mset seed_of (\<Sum>i\<in>{0..<n}. mset (items (qp (\<sigma>0 i))))"
proof (rule multiset_eqI)
  fix k
  let ?d = "\<lambda>u (j::int). times_received k u"
  note laws = mpi_eager.axioms(1) [OF eager]
  have "ledger (holds_seed k) ?d n \<sigma> (pend w) = ledger (holds_seed k) ?d n \<sigma>0 (pend w0)"
    by (rule mpi_laws.ledger_reachable [OF laws run E pi_keep pi_settles start_base [OF st E net]])
  moreover have "all_items n \<sigma> (pend w) = {#}"
    by (rule finished_items [OF ring_reachable [OF eager E callbacks_keep_ok [OF pi_keep] st net mode run i]])
  moreover have "all_items n \<sigma>0 (pend w0) = (\<Sum>i\<in>{0..<n}. mset (items (qp (\<sigma>0 i))))"
    using net by (simp add: all_items_def travelling_def queued_def)
  moreover have "all_received n \<sigma>0 = {#}"
    unfolding all_received_def by (rule sum.neutral) (use fresh in \<open>auto simp: none_received_def\<close>)
  ultimately have "int (count (all_received n \<sigma>) k) = int (count (image_mset seed_of (\<Sum>i\<in>{0..<n}. mset (items (qp (\<sigma>0 i))))) k)"
    by (simp add: ledger_def tally_holds credit_received)
  then show "count (all_received n \<sigma>) k = count (image_mset seed_of (\<Sum>i\<in>{0..<n}. mset (items (qp (\<sigma>0 i))))) k"
    by (simp only: of_nat_eq_iff)
qed

section \<open>A run\<close>

text \<open>Two seeds in the queue of rank 0, one point per seed, and numbers without content.\<close>

definition pi_queue :: "int \<Rightarrow> queue" where
  "pi_queue i = (if i = 0 then \<lparr>base = [0, 0, 0, 0, 5, 1, 0, 0, 0], head = 8, strings = [0, 4, 0], qcount = 2\<rparr>
     else \<lparr>base = [0, 0, 0, 0, 0, 0, 0, 0, 0], head = 0, strings = [0, 0, 0], qcount = 0\<rparr>)"

lemma pi_queue_rep: "queue_rep (pi_queue 0) [[0, 0, 0, 0], [5, 1, 0, 0]]" "i \<noteq> 0 \<Longrightarrow> queue_rep (pi_queue i) []"
  by (simp_all add: pi_queue_def queue_rep_def numeral_2_eq_2)

definition no_doubles :: "unit doubles" where
  "no_doubles = \<lparr>d_add = (\<lambda>_ _. ()), d_ratio = (\<lambda>_ _. ()), d_result = (\<lambda>_ _. ()), d_bytes = (\<lambda>_. replicate 8 0), d_read = (\<lambda>_. ()),
     inside = (\<lambda>_ _. True)\<rparr>"

definition demo_libc :: libc where
  "demo_libc = \<lparr>uninit = (\<lambda>_. 255), rand_after = (\<lambda>_ i. i)\<rparr>"

abbreviation demo_pi :: "unit pi_data callbacks" where
  "demo_pi \<equiv> pi_callbacks demo_env no_doubles demo_libc 1"

definition pi_state :: "int \<Rightarrow> unit pi_data state" where
  "pi_state i = projr (State_new demo_env i 2 0 0 ((pi_circle i 0 ())\<lparr>queue := pi_queue i\<rparr>))"

definition pi_end :: "(unit pi_data, fifo) program" where
  "pi_end = the (run_program demo_env fifo_mpi demo_pi [1, 0, 1, 0, 1, 0, 1, 0, 1, 0, 1, 0, 1, 0, 1] (\<lambda>_. Working, pi_state, fifo_new 2))"

lemma pi_state_new:
  assumes "i = 0 \<or> i = 1"
  shows "State_new demo_env i 2 0 0 ((pi_circle i 0 ())\<lparr>queue := pi_queue i\<rparr>) = Inr (pi_state i)"
proof -
  have "\<not> isl (State_new demo_env 0 2 0 0 ((pi_circle 0 0 ())\<lparr>queue := pi_queue 0\<rparr>))"
    "\<not> isl (State_new demo_env 1 2 0 0 ((pi_circle 1 0 ())\<lparr>queue := pi_queue 1\<rparr>))"
    by code_simp+
  with assms show ?thesis by (auto simp: pi_state_def)
qed

lemma pi_start:
  shows "starts_work demo_env 2 pi_state" "none_received 2 pi_state" "\<forall>i. 0 \<le> i \<longrightarrow> i < 2 \<longrightarrow> \<not> term_tree_enabled (pi_state i)"
    "(\<Sum>i\<in>{0..<2}. mset (items (qp (pi_state i)))) = {#[0, 0, 0, 0], [5, 1, 0, 0]#}"
proof -
  have two: "i = 0 \<or> i = 1" if "0 \<le> i" "i < 2" for i :: int using that by auto
  note new = pi_state_new
  have like: "user (pi_circle i 0 ()) = \<lparr>pi_partial = (), received = [], answers = []\<rparr>" "runtimeFlags (pi_circle i 0 ()) = DefaultFlags" for i
    by (simp_all add: pi_circle_def setReducePeriod_def setLogLevel_def Circle_new_def)
  show "starts_work demo_env 2 pi_state"
    by (rule starts_two [OF new, where xs = "\<lambda>i. if i = 0 then [[0, 0, 0, 0], [5, 1, 0, 0]] else []"])
      (use pi_queue_rep in \<open>auto simp: pi_queue_def fits_def INT_MAX_def\<close>)
  have each: "received (user (circ (pi_state i))) = []" "\<not> term_tree_enabled (pi_state i)" "qp (pi_state i) = pi_queue i"
    if "i = 0 \<or> i = 1" for i
    using State_new_sel(6) [OF new [OF that]] State_new_mode(1) [OF new [OF that]] like default_flags(2)
    by (simp_all add: getRuntimeFlags_def)
  show "none_received 2 pi_state" using each(1) two by (simp add: none_received_def)
  show "\<forall>i. 0 \<le> i \<longrightarrow> i < 2 \<longrightarrow> \<not> term_tree_enabled (pi_state i)" using each(2) two by blast
  have "items (pi_queue 0) = [[0, 0, 0, 0], [5, 1, 0, 0]]" "items (pi_queue 1) = []"
    using queue_rep_items pi_queue_rep by (blast, simp add: queue_rep_items [OF pi_queue_rep(2)])
  moreover have "{0..<2} = {0, 1::int}" by auto
  ultimately show "(\<Sum>i\<in>{0..<2}. mset (items (qp (pi_state i)))) = {#[0, 0, 0, 0], [5, 1, 0, 0]#}"
    using each(3) by simp
qed

lemma pi_run: "(program_step demo_env fifo_mpi demo_pi 2)\<^sup>*\<^sup>* (\<lambda>_. Working, pi_state, fifo_new 2) pi_end"
  unfolding pi_end_def by (rule ends_of_run) code_simp

lemma pi_end_finished: "fst pi_end 0 = Finished"
proof -
  have "case pi_end of (ph, _) \<Rightarrow> ph 0 = Finished" by code_simp
  then show ?thesis by (simp add: case_prod_beta)
qed

end
