(* ===== verification/Circle_Print.thy ===== *)
theory Circle_Print
  imports Circle_Log
begin

text \<open>
  The functions that show data for debugging: \<open>Queue::dump\<close> and \<open>Queue::print\<close> of
  \<open>src/queue.cpp\<close>, \<open>State::printOffsets\<close> of \<open>src/state.cpp\<close> and \<open>circle::backtrace\<close> of
  \<open>src/backtrace.cpp\<close>, with what they read of the memory.  Each gives what it passes to the log.
\<close>

section \<open>The pool\<close>

text \<open>\<open>while (p++ < end)\<close> reads \<open>*p\<close> after the increment; \<open>k\<close> is the index of \<open>p\<close> before it.\<close>

function dump_from :: "byte list \<Rightarrow> nat \<Rightarrow> byte list res" where
  "dump_from b k =
     (if k < length b then
        guard_res (k + 1 < length b) Undefined (bind_res (dump_from b (k + 1)) (\<lambda>out. Inr (b ! (k + 1) # out)))
      else Inr [])"
  by pat_completeness auto
termination
  by (relation "measure (\<lambda>(b, k). length b - k)") auto

declare dump_from.simps [simp del]

definition dump :: "queue \<Rightarrow> byte list res" where
  "dump q = guard_res (base q \<noteq> []) Undefined (dump_from (base q) 0)"

text \<open>\<open>%s\<close> reads from the address up to the next NUL byte.\<close>

definition read_c_str :: "byte list \<Rightarrow> nat \<Rightarrow> byte list res" where
  "read_c_str b k = guard_res (0 \<in> set (drop k b)) Undefined (Inr (c_str (drop k b)))"

fun print_from :: "queue \<Rightarrow> nat list \<Rightarrow> (nat \<times> nat \<times> byte list) list res" where
  "print_from q [] = Inr []"
| "print_from q (i # is) =
     guard_res (i < length (strings q)) Undefined
       (bind_res (read_c_str (base q) (strings q ! i)) (\<lambda>text.
        bind_res (print_from q is) (\<lambda>out. Inr ((strings q ! i, i, text) # out))))"

definition print :: "queue \<Rightarrow> (nat \<times> nat \<times> byte list) list res" where
  "print q = print_from q [0..<qcount q]"

definition printOffsets :: "nat list \<Rightarrow> int \<Rightarrow> message list res" where
  "printOffsets offsets n =
     guard_res (nat n \<le> length offsets) Undefined
       (Inr (map (\<lambda>i. (Debug, [CHR 0x09] @ ''['' @ show_int (int i) @ ''] '' @ show_int (to_int32 (offsets ! i)))) [0..<nat n]))"

section \<open>A trace of the stack\<close>

text \<open>What the platform knows of a stack: the addresses that \<open>backtrace\<close> of the C library finds (at
  most 128), the name (if any) and the start of the symbol that \<open>dladdr\<close> finds for an address,
  \<open>__cxa_demangle\<close>, and the text of a pointer.\<close>

record unwinder =
  addresses :: "int list"
  dladdr :: "int \<Rightarrow> (string option \<times> int) option"
  demangle :: "string option \<Rightarrow> string option"
  pointer_text :: "int \<Rightarrow> string"

definition nMaxFrames :: nat where "nMaxFrames = 128"

definition frame_line :: "unwinder \<Rightarrow> nat \<Rightarrow> int \<Rightarrow> string res" where
  "frame_line U i a =
     (let number = show_int (int i); start = number @ replicate (3 - length number) CHR 0x20 @ '' '' @ pointer_text U a in
      case dladdr U a of
        Some (sname, saddr) \<Rightarrow>
          bind_res (opt_res Undefined (case demangle U sname of Some name \<Rightarrow> Some name | None \<Rightarrow> sname)) (\<lambda>name.
            Inr (take 1023 (start @ '' '' @ name @ '' + '' @ show_int (a - saddr) @ [CHR 0x0A])))
      | None \<Rightarrow> Inr (take 1023 (start @ [CHR 0x0A])))"

fun trace_from :: "unwinder \<Rightarrow> nat list \<Rightarrow> string res" where
  "trace_from U [] = Inr []"
| "trace_from U (i # is) =
     bind_res (frame_line U i (addresses U ! i)) (\<lambda>line. bind_res (trace_from U is) (\<lambda>out. Inr (line @ out)))"

text \<open>The text goes to the end of the static vector \<open>cstr\<close>, whose start is returned.\<close>

definition backtrace :: "unwinder \<Rightarrow> int \<Rightarrow> string \<Rightarrow> string res" where
  "backtrace U skip cstr =
     guard_res (0 \<le> skip) Undefined
       (let nFrames = length (addresses U) in
        bind_res (trace_from U [nat skip..<nFrames]) (\<lambda>str.
          let cstr = cstr @ str @ (if nFrames = nMaxFrames then ''  [truncated]'' @ [CHR 0x0A] else [])
          in guard_res (cstr \<noteq> []) Undefined (Inr cstr)))"

section \<open>What they do\<close>

text \<open>The last byte that \<open>dump\<close> reads lies behind the pool.\<close>

lemma dump_from_undefined: "k < length b \<Longrightarrow> dump_from b k = Inl Undefined"
proof (induction b k rule: dump_from.induct)
  case (1 b k)
  show ?case
  proof (cases "k + 1 < length b")
    case True
    with 1 show ?thesis by (subst dump_from.simps) simp
  next
    case False
    then show ?thesis using 1(2) by (subst dump_from.simps) simp
  qed
qed

lemma dump_undefined: "dump q = Inl Undefined"
  using dump_from_undefined [of 0 "base q"] by (cases "base q = []") (simp_all add: dump_def)

text \<open>The elements have no end of their own, so \<open>print\<close> shows each one with all that follow it.\<close>

lemma starts_nth: "i < length xs \<Longrightarrow> starts n xs ! i = n + length (concat (take i xs))"
proof (induction xs arbitrary: n i)
  case (Cons x xs)
  then show ?case by (cases i) auto
qed simp

lemma print_item:
  assumes "queue_rep q xs" "i < length xs" "0 \<notin> set (concat xs)" "drop (length (concat xs)) (base q) = 0 # rest"
  shows "strings q ! i = length (concat (take i xs))" "read_c_str (base q) (strings q ! i) = Inr (concat (drop i xs))"
proof -
  show s: "strings q ! i = length (concat (take i xs))"
    using assms(1,2) starts_nth [of i xs 0] nth_take [of i "length xs" "strings q"] by (simp add: queue_rep_def)
  have b: "base q = concat xs @ 0 # rest"
    using assms(1,4) append_take_drop_id [of "length (concat xs)" "base q"] by (simp add: queue_rep_def)
  have "concat xs = concat (take i xs) @ concat (drop i xs)" by (metis append_take_drop_id concat_append)
  with b have d: "drop (strings q ! i) (base q) = concat (drop i xs) @ 0 # rest" unfolding s by simp
  have "0 \<notin> set (concat (drop i xs))" using assms(3) by (auto dest: in_set_dropD)
  then have "c_str (concat (drop i xs) @ 0 # rest) = concat (drop i xs)"
    unfolding c_str_def by (subst takeWhile_append2) auto
  then show "read_c_str (base q) (strings q ! i) = Inr (concat (drop i xs))" unfolding read_c_str_def d by simp
qed

lemma print_rep:
  assumes "queue_rep q xs" "0 \<notin> set (concat xs)" "drop (length (concat xs)) (base q) = 0 # rest"
  shows "print q = Inr (map (\<lambda>i. (length (concat (take i xs)), i, concat (drop i xs))) [0..<length xs])"
proof -
  have "print_from q is = Inr (map (\<lambda>i. (length (concat (take i xs)), i, concat (drop i xs))) is)" if "\<forall>i \<in> set is. i < length xs" for "is"
    using that
  proof (induction "is")
    case (Cons i "is")
    have "i < length (strings q)" using assms(1) Cons.prems by (simp add: queue_rep_def)
    with Cons print_item [OF assms(1) _ assms(2,3), of i] show ?case by simp
  qed simp
  then show ?thesis using assms(1) by (simp add: print_def queue_rep_count)
qed

text \<open>A later trace comes after all earlier ones.\<close>

lemma backtrace_grows: "backtrace U skip cstr = Inr r \<Longrightarrow> \<exists>str. r = cstr @ str"
  by (auto simp: backtrace_def Let_def guard_res_eq_Inr bind_res_eq_Inr)

end
