(* ===== verification/Circle_Shapes.thy ===== *)
theory Circle_Shapes
  imports Circle_Whole
begin

unbundle bit_operations_syntax

text \<open>
  The operations on the token, the termination over the tree and the barrier do not fail: their
  messages always have the form their receivers decode, so each of them ends or blocks in a call
  of MPI.
\<close>

section \<open>Operations that end or block\<close>

lemma yields_results: "yields r (\<lambda>_. True) \<Longrightarrow> results r Q \<Longrightarrow> yields r Q"
  by (cases r) simp_all

lemma yields_conj: "yields r P \<Longrightarrow> results r Q \<Longrightarrow> yields r (\<lambda>x. P x \<and> Q x)"
  by (cases r) simp_all

context mpi_laws
begin

lemma yields_probe:
  assumes "\<And>w'. pend w' = pend w \<Longrightarrow> yields (f w') Q"
    "\<And>st w' m ms. pend w' = pend w \<Longrightarrow> pend w (MPI_SOURCE st, me, t) = m # ms \<Longrightarrow>
      src = None \<or> src = Some (MPI_SOURCE st) \<Longrightarrow> yields (g st w') Q"
  shows "yields (case MPI_Iprobe M me src t w of (None, w) \<Rightarrow> f w | (Some st, w) \<Rightarrow> g st w) Q"
proof -
  obtain r w' where r: "MPI_Iprobe M me src t w = (r, w')" by fastforce
  show ?thesis
  proof (cases r)
    case None
    with r assms(1) [OF iprobe_pend [OF r]] show ?thesis by simp
  next
    case (Some st)
    with r iprobe_some [of me src t w st w'] assms(2) [OF iprobe_pend [OF r], of st] show ?thesis
      by (cases "pend w (MPI_SOURCE st, me, t)") auto
  qed
qed

lemma yields_recv:
  assumes "pend w (i, me, t) = m # ms" "\<And>w'. pend w' = (pend w)((i, me, t) := ms) \<Longrightarrow> yields (f m w') Q"
  shows "yields (bind_res (recv M me i t w) (\<lambda>(x, w). f x w)) Q"
  by (rule recv_pend [OF assms(1)]) (simp add: assms(2))

lemma yields_send:
  assumes "\<And>w'. pend w' = (pend w)((me, d, t) := pend w (me, d, t) @ [x]) \<Longrightarrow> yields (f w') Q"
  shows "yields (bind_res (send M me d t x w) f) Q"
  by (rule yields_seq [OF send_yields]) (simp add: assms)

lemma yields_send_each:
  assumes "\<And>w. Q w \<Longrightarrow> P w" "\<And>d w w'. Q w \<Longrightarrow> pend w' = (pend w)((me, d, t) := pend w (me, d, t) @ [x]) \<Longrightarrow> Q w'"
  shows "Q w \<Longrightarrow> yields (send_each M me t x ds w) Q"
proof (induction ds arbitrary: w)
  case (Cons d ds)
  show ?case unfolding send_each.simps
    by (rule yields_send) (use Cons assms(2) in blast)
qed simp

end

section \<open>The token and the flags of the termination over the tree\<close>

text \<open>Each of these messages is one number.\<close>

definition flags_ok :: "(channel \<Rightarrow> payload list) \<Rightarrow> bool" where
  "flags_ok p \<longleftrightarrow> (\<forall>a b t. t = TAG_TOKEN \<or> t = TAG_TERM \<longrightarrow> (\<forall>m \<in> set (p (a, b, t)). \<exists>x. m = Ints [x]))"

lemma flags_ok_cons:
  assumes "flags_ok p" "p (a, b, t) = m # ms" "t = TAG_TOKEN \<or> t = TAG_TERM"
  shows "\<exists>x. m = Ints [x]" "flags_ok (p((a, b, t) := ms))"
proof -
  show "\<exists>x. m = Ints [x]" using assms unfolding flags_ok_def by (metis list.set_intros(1))
  have "set ms \<subseteq> set (p (a, b, t))" using assms(2) by auto
  then show "flags_ok (p((a, b, t) := ms))" using assms(1) unfolding flags_ok_def by auto
qed

lemma flags_ok_snoc: "flags_ok p \<Longrightarrow> flags_ok (p(k := p k @ [Ints [x]]))"
  by (auto simp: flags_ok_def)

lemma flags_ok_cong:
  assumes "\<And>a b. p' (a, b, TAG_TOKEN) = p (a, b, TAG_TOKEN)" "\<And>a b. p' (a, b, TAG_TERM) = p (a, b, TAG_TERM)"
  shows "flags_ok p' = flags_ok p"
  unfolding flags_ok_def using assms by auto

lemma flags_ok_start: "\<forall>k. p k = [] \<Longrightarrow> flags_ok p"
  by (simp add: flags_ok_def)

text \<open>What a reduction depends on is the same.\<close>

definition same_part :: "'u state \<Rightarrow> 'u state \<Rightarrow> bool" where
  "same_part s s' \<longleftrightarrow> reduce_enabled s' = reduce_enabled s \<and> reduce_outstanding s' = reduce_outstanding s
     \<and> local_reduce_buf s' = local_reduce_buf s \<and> reduce_buf (circ s') = reduce_buf (circ s)
     \<and> reduce_buf_size (circ s') = reduce_buf_size (circ s)"

lemma same_part_refl [simp, intro]: "same_part s s"
  by (simp add: same_part_def)

lemma same_part_trans: "same_part s s' \<Longrightarrow> same_part s' s'' \<Longrightarrow> same_part s s''"
  by (simp add: same_part_def)

lemma same_part_update [simp]:
  "same_part s (s'\<lparr>term_flag := x1\<rparr>) = same_part s s'"
  "same_part s (s'\<lparr>term_up := x2\<rparr>) = same_part s s'"
  "same_part s (s'\<lparr>term_replies := x3\<rparr>) = same_part s s'"
  "same_part s (s'\<lparr>barrier_started := x4\<rparr>) = same_part s s'"
  "same_part s (s'\<lparr>barrier_up := x5\<rparr>) = same_part s s'"
  "same_part s (s'\<lparr>barrier_replies := x6\<rparr>) = same_part s s'"
  by (simp_all add: same_part_def)

lemma token_same_part: "same_part s (token_update lc tb tp tr s)"
  by (simp add: same_part_def token_update_def)

context mpi_laws
begin

lemma tokenIsSend_flags: "tokenIsSend M s w = (s', w') \<Longrightarrow> flags_ok (pend w) \<Longrightarrow> flags_ok (pend w')"
  using tokenIsSend_eff [of s w s' w'] by (auto intro: flags_ok_snoc)

lemma tokenRecv_flags:
  assumes "flags_ok (pend w)" "pend w (token_src s, rank s, TAG_TOKEN) = m # ms"
  shows "yields (tokenRecv M s w) (\<lambda>(s', w'). flags_ok (pend w'))"
  unfolding tokenRecv_def
proof (rule yields_recv [OF assms(2)])
  fix w1 assume w1: "pend w1 = (pend w)((token_src s, rank s, TAG_TOKEN) := ms)"
  obtain x where x: "m = Ints [x]" using flags_ok_cons(1) [OF assms] by blast
  have ok: "flags_ok (pend w1)" unfolding w1 by (rule flags_ok_cons(2) [OF assms]) simp
  have wait: "yields (wait_token_send M s1 w1) (\<lambda>(s', w'). pend w' = pend w1)" for s1 :: "'a state"
    using wait_token_send_pend [of s1 w1]
    by (cases "wait_token_send M s1 w1") (auto simp: wait_token_send_def opt_res_def bind_res_def split: option.splits)
  have react: "flags_ok (pend w3)" if "token_react M x s2 w2 = (s3, w3)" "flags_ok (pend w2)" for s2 s3 :: "'a state" and w2 w3
    using that tokenIsSend_flags
    by (auto simp: token_react_def Let_def simp del: WHITE_def BLACK_def TERMINATE_def split: if_splits prod.splits)
  show "yields (bind_res (as_int m) (\<lambda>token. bind_res (wait_token_send M (s\<lparr>token_is_local := True\<rparr>) w1) (\<lambda>(s, w). Inr (token_react M token s w))))
     (\<lambda>(s', w'). flags_ok (pend w'))"
    unfolding x as_int.simps bind_res_Inr
    by (rule yields_seq [OF wait]) (use ok react in \<open>auto split: prod.splits\<close>)
qed

lemma tokenCheck_flags:
  assumes "flags_ok (pend w)"
  shows "yields (tokenCheck M s w) (\<lambda>(s', w'). flags_ok (pend w'))"
  unfolding tokenCheck_def
  by (rule yields_probe) (use assms in \<open>auto intro!: tokenRecv_flags\<close>)

lemma checkForTerm_flags:
  assumes "flags_ok (pend w)"
  shows "yields (checkForTerm M s w) (\<lambda>(st, s', w'). flags_ok (pend w'))"
proof -
  have send: "flags_ok (pend w')" if "tokenIsSend M s1 w = (s', w')" for s1 s' :: "'a state" and w'
    by (rule tokenIsSend_flags [OF that assms])
  show ?thesis
    unfolding checkForTerm_def
    by (auto simp: Let_def assms intro!: yields_seq [OF tokenCheck_flags [OF assms]] split: prod.splits dest: send)
qed

lemma drain_flags:
  assumes "flags_ok (pend w)"
  shows "yields (drain_token M s w) (\<lambda>(s', w'). flags_ok (pend w'))"
proof -
  have "yields (case token_send_req s1 of None \<Rightarrow> Inr (s1, w1)
       | Some req \<Rightarrow> (case MPI_Test M (rank s1) req w1 of (flag, w) \<Rightarrow>
             Inr (if flag then s1\<lparr>token_send_req := None\<rparr> else s1, w))) (\<lambda>(s', w'). flags_ok (pend w'))"
    if "flags_ok (pend w1)" for s1 :: "'a state" and w1
    using that by (auto split: option.split prod.split dest: test_law)
  then show ?thesis unfolding drain_token_def by (intro yields_seq [OF tokenCheck_flags [OF assms]]) auto
qed

section \<open>The termination over the tree and the barrier\<close>

lemma term_collect_flags:
  "flags_ok (pend w) \<Longrightarrow> yields (term_collect M s w) (\<lambda>(s', w'). flags_ok (pend w') \<and> same_part s s')"
proof (induction "nat (getChildrenCount (tree s) - term_replies s)" arbitrary: s w rule: less_induct)
  case less
  show ?case
  proof (cases "term_replies s < getChildrenCount (tree s)")
    case False
    with less.prems show ?thesis by (simp add: term_collect.simps [of M s w])
  next
    case True
    show ?thesis unfolding term_collect.simps [of M s w] if_P [OF True]
    proof (rule yields_probe, goal_cases)
      case (1 w1)
      with less.prems show ?case by simp
    next
      case (2 st w1 m ms)
      note ok = flags_ok_cons [OF less.prems 2(2)]
      obtain x where x: "m = Ints [x]" using ok(1) by auto
      show ?case
      proof (rule yields_recv)
        show "pend w1 (MPI_SOURCE st, rank s, TAG_TERM) = m # ms" using 2(1,2) by simp
        fix w2 assume w2: "pend w2 = (pend w1)((MPI_SOURCE st, rank s, TAG_TERM) := ms)"
        have "flags_ok (pend w2)" unfolding w2 2(1) by (rule ok(2)) simp
        with True have "yields (term_collect M (s\<lparr>term_flag := term_flag s AND x, term_replies := term_replies s + 1\<rparr>) w2)
            (\<lambda>(s', w'). flags_ok (pend w') \<and> same_part (s\<lparr>term_flag := term_flag s AND x, term_replies := term_replies s + 1\<rparr>) s')"
          by (intro less.hyps) simp_all
        then show "yields (bind_res (as_int m) (\<lambda>child_flag. term_collect M
            (s\<lparr>term_flag := term_flag s AND child_flag, term_replies := term_replies s + 1\<rparr>) w2))
            (\<lambda>(s', w'). flags_ok (pend w') \<and> same_part s s')"
          unfolding x as_int.simps bind_res_Inr by (rule yields_mono) (auto simp: same_part_def)
      qed
    qed
  qed
qed

lemma term_send_up_flags:
  assumes "flags_ok (pend w)"
  shows "yields (term_send_up M flag s w) (\<lambda>(f, s', w'). flags_ok (pend w') \<and> same_part s s')"
proof (cases "getParentRank (tree s)")
  case None
  with assms show ?thesis by (simp add: term_send_up_def)
next
  case (Some q)
  have "yields (bind_res (send M (rank s) q TAG_TERM (Ints [flag]) w) (\<lambda>w. Inr (1 :: int, s\<lparr>term_up := True\<rparr>, w)))
      (\<lambda>(f, s', w'). flags_ok (pend w') \<and> same_part s s')"
    by (rule yields_send) (simp add: flags_ok_snoc [OF assms])
  with Some assms show ?thesis by (simp add: term_send_up_def)
qed

lemma term_from_parent_flags:
  assumes "flags_ok (pend w)"
  shows "yields (term_from_parent M flag s w) (\<lambda>(c, f, w'). flags_ok (pend w'))"
proof (cases "term_up s \<and> getParentRank (tree s) \<noteq> None")
  case False
  with assms show ?thesis by (auto simp: term_from_parent_def split: option.split)
next
  case True
  then obtain q where q: "getParentRank (tree s) = Some q" by blast
  have "yields (case MPI_Iprobe M (rank s) (Some q) TAG_TERM w of
              (None, w) \<Rightarrow> Inr (False, flag, w)
            | (Some _, w) \<Rightarrow> bind_res (recv M (rank s) q TAG_TERM w) (\<lambda>(pl, w).
                bind_res (as_int pl) (\<lambda>flag. Inr (True, flag, w)))) (\<lambda>(c, f, w'). flags_ok (pend w'))"
  proof (rule yields_probe, goal_cases)
    case (1 w1)
    with assms show ?case by simp
  next
    case (2 st w1 m ms)
    then have p: "pend w (q, rank s, TAG_TERM) = m # ms" by simp
    obtain x where x: "m = Ints [x]" using flags_ok_cons(1) [OF assms p] by auto
    have ok: "flags_ok ((pend w)((q, rank s, TAG_TERM) := ms))" by (rule flags_ok_cons(2) [OF assms p]) simp
    show ?case
    proof (rule yields_recv)
      show "pend w1 (q, rank s, TAG_TERM) = m # ms" using p 2(1) by simp
    next
      fix w2 assume "pend w2 = (pend w1)((q, rank s, TAG_TERM) := ms)"
      with ok 2(1) show "yields (bind_res (as_int m) (\<lambda>flag. Inr (True, flag, w2))) (\<lambda>(c, f, w'). flags_ok (pend w'))"
        unfolding x as_int.simps bind_res_Inr yields_Inr by simp
    qed
  qed
  with True q show ?thesis by (simp add: term_from_parent_def)
qed

lemma checkForTermAllReduce_flags:
  assumes "flags_ok (pend w)"
  shows "yields (checkForTermAllReduce M s w) (\<lambda>(st, s', w'). flags_ok (pend w') \<and> same_part s s')"
proof -
  have down: "yields (bind_res (if complete then
        bind_res (send_each M (rank s2) TAG_TERM (Ints [flag]) (child_list (tree s2)) w2)
          (\<lambda>w. Inr (s2\<lparr>term_up := False, term_replies := 0\<rparr>, w)) else Inr (s2, w2))
        (\<lambda>(s, w). Inr (if complete \<and> flag \<noteq> 0 then TERMINATE else WHITE, s, w))) (\<lambda>(st, s', w'). flags_ok (pend w') \<and> same_part s s')"
    if "same_part s s2" "flags_ok (pend w2)" for complete flag s2 w2
  proof -
    have "yields (if complete then
        bind_res (send_each M (rank s2) TAG_TERM (Ints [flag]) (child_list (tree s2)) w2)
          (\<lambda>w. Inr (s2\<lparr>term_up := False, term_replies := 0\<rparr>, w)) else Inr (s2, w2)) (\<lambda>(s', w'). flags_ok (pend w') \<and> same_part s s')"
      using that by (auto intro!: yields_seq [OF yields_send_each [where Q = "\<lambda>w. flags_ok (pend w)"]] intro: flags_ok_snoc)
    then show ?thesis by (rule yields_seq) auto
  qed
  show ?thesis
    unfolding checkForTermAllReduce_def
    apply (rule yields_seq [OF term_collect_flags [OF assms]], clarify)
    apply (simp, intro impI)
    apply (rule yields_seq [OF term_send_up_flags], assumption, clarify)
    apply (rule yields_seq [OF term_from_parent_flags], assumption, clarify)
    apply (rule down)
     apply (metis same_part_trans)
    apply assumption
    done
qed

lemma barrierTest_yields: "yields (barrierTest M s w) (\<lambda>(b, s', w'). same_part s s')"
proof -
  have collect: "yields (barrier_collect M s w) (\<lambda>(s', w'). same_part s s')"
    unfolding barrier_collect_def
    by (auto intro!: yields_probe yields_recv)
  have up: "yields (barrier_send_up M s1 w1) (\<lambda>(s', w'). same_part s1 s')" for s1 :: "'a state" and w1
    unfolding barrier_send_up_def
    by (auto split: option.split intro!: yields_send)
  have down: "yields (barrier_from_parent M s1 w1) (\<lambda>_. True)" for s1 :: "'a state" and w1
    unfolding barrier_from_parent_def
    by (auto split: option.split intro!: yields_probe yields_recv)
  show ?thesis
    unfolding barrierTest_def
    apply (simp, intro impI)
    apply (rule yields_seq [OF collect], clarify)
    apply (rule yields_seq [OF up], clarify)
    apply (rule yields_seq [OF down], clarify)
    apply (auto intro!: yields_seq [OF yields_send_each [where Q = "\<lambda>_. True"]] intro: same_part_trans)
    done
qed

end

end
