(* ===== verification/Circle_Parts.thy ===== *)
theory Circle_Parts
  imports Circle_Shapes
begin

text \<open>
  Background reductions do not fail.  When the callbacks of the user reduce data of a kind
  \<open>dat\<close>, a process that takes part in a reduction has such data in its buffer, a reply carries
  such data and its size, or is a refusal, and so each call of \<open>reduceCheck\<close> ends or blocks.
\<close>

section \<open>Data in buffers and in messages\<close>

definition partial_ok :: "(byte list \<Rightarrow> bool) \<Rightarrow> 'u state \<Rightarrow> bool" where
  "partial_ok dat s \<longleftrightarrow> (reduce_outstanding s \<longrightarrow> fst (local_reduce_buf s) = MSG_INVALID
     \<or> fst (local_reduce_buf s) = MSG_VALID \<and> (\<exists>x. dat x \<and> circ s = with_data x (circ s)))"

definition sound_reply :: "(byte list \<Rightarrow> bool) \<Rightarrow> payload list \<Rightarrow> bool" where
  "sound_reply dat xs \<longleftrightarrow> (\<exists>t b. xs = [Longs [MSG_INVALID, t, b]]) \<or> (\<exists>t x. dat x \<and> xs = part t x)"

text \<open>\<open>on\<close>: some process reduces.  A process that is past the loops takes part in the final reduction
  only.\<close>

definition parts_ok ::
  "int \<Rightarrow> (int \<Rightarrow> int list) \<Rightarrow> (byte list \<Rightarrow> bool) \<Rightarrow> bool \<Rightarrow> (int \<Rightarrow> phase) \<Rightarrow> (int \<Rightarrow> 'u state) \<Rightarrow> (channel \<Rightarrow> payload list) \<Rightarrow> bool" where
  "parts_ok n chl dat on ph \<sigma> p \<longleftrightarrow> (\<forall>i. 0 \<le> i \<longrightarrow> i < n \<longrightarrow> (reduce_enabled (\<sigma> i) \<longrightarrow> on) \<and> (on \<longrightarrow>
     (ph i \<noteq> Finished \<longrightarrow> partial_ok dat (\<sigma> i)) \<and> (\<forall>c \<in> set (chl i). p (c, i, TAG_REDUCE) = [] \<or> sound_reply dat (p (c, i, TAG_REDUCE)))))"

text \<open>The process callback leaves the data of reductions alone.\<close>

definition keeps_buffer :: "'u callbacks \<Rightarrow> bool" where
  "keeps_buffer cb \<longleftrightarrow> (\<forall>c c'. processCallback cb c = Inr c' \<longrightarrow>
     reduce_buf c' = reduce_buf c \<and> reduce_buf_size c' = reduce_buf_size c)"

lemma with_data_id: "circ s = with_data x (circ s) \<longleftrightarrow> reduce_buf (circ s) = Some x \<and> reduce_buf_size (circ s) = length x"
proof
  assume "circ s = with_data x (circ s)"
  then show "reduce_buf (circ s) = Some x \<and> reduce_buf_size (circ s) = length x" by (metis with_data_sel(1,2))
qed (simp add: with_data_def)

lemma same_partial: "same_part s s' \<Longrightarrow> partial_ok dat s' = partial_ok dat s"
  unfolding partial_ok_def with_data_id by (simp add: same_part_def)

lemma parts_ok_cong:
  assumes "\<And>j. same_part (\<sigma> j) (\<sigma>' j)" "\<And>a b. p' (a, b, TAG_REDUCE) = p (a, b, TAG_REDUCE)"
  shows "parts_ok n chl dat on ph \<sigma>' p' = parts_ok n chl dat on ph \<sigma> p"
proof -
  have "reduce_enabled (\<sigma>' j) = reduce_enabled (\<sigma> j)" for j using assms(1) by (simp add: same_part_def)
  then show ?thesis unfolding parts_ok_def by (simp add: assms(2) same_partial [OF assms(1)])
qed

text \<open>A change at one process.\<close>

lemma parts_ok_change:
  assumes tree: "rank_tree n par chl" and i: "0 \<le> i" "i < n" and parts: "parts_ok n chl dat on ph \<sigma> p" and on: "on"
    and s': "ph i \<noteq> Finished \<Longrightarrow> partial_ok dat s'"
    and far: "\<And>a b. a \<noteq> i \<Longrightarrow> b \<noteq> i \<Longrightarrow> p' (a, b, TAG_REDUCE) = p (a, b, TAG_REDUCE)"
    and kids: "\<And>c. c \<in> set (chl i) \<Longrightarrow> p' (c, i, TAG_REDUCE) = p (c, i, TAG_REDUCE) \<or> p' (c, i, TAG_REDUCE) = []"
    and up: "\<And>q. par i = Some q \<Longrightarrow> p' (i, q, TAG_REDUCE) = p (i, q, TAG_REDUCE) \<or> sound_reply dat (p' (i, q, TAG_REDUCE))"
  shows "parts_ok n chl dat on ph (\<sigma>(i := s')) p'"
  unfolding parts_ok_def
proof (intro allI impI conjI ballI on)
  fix j assume j: "0 \<le> j" "j < n"
  note old = parts [unfolded parts_ok_def, rule_format, OF j]
  show "partial_ok dat ((\<sigma>(i := s')) j)" if "ph j \<noteq> Finished" using old on s' that by (cases "j = i") auto
  fix c assume c: "c \<in> set (chl j)"
  have ok: "p (c, j, TAG_REDUCE) = [] \<or> sound_reply dat (p (c, j, TAG_REDUCE))" using old on c by blast
  note b = rank_tree.child_bounds [OF tree j c]
  consider "j = i" | "c = i" | "j \<noteq> i" "c \<noteq> i" by blast
  then show "p' (c, j, TAG_REDUCE) = [] \<or> sound_reply dat (p' (c, j, TAG_REDUCE))"
  proof cases
    case 1
    with kids [of c] c ok show ?thesis by auto
  next
    case 2
    with up [of j] b ok show ?thesis by auto
  next
    case 3
    with far ok show ?thesis by simp
  qed
qed

lemma partsD:
  assumes "parts_ok n chl dat on ph (\<sigma>(i := s)) p" "0 \<le> i" "i < n" "on"
  shows "ph i \<noteq> Finished \<Longrightarrow> partial_ok dat s" "c \<in> set (chl i) \<Longrightarrow> p (c, i, TAG_REDUCE) = [] \<or> sound_reply dat (p (c, i, TAG_REDUCE))"
  using assms(1) [unfolded parts_ok_def, rule_format, OF assms(2,3)] assms(4) by simp_all

lemma sound_reply_ne: "sound_reply dat xs \<Longrightarrow> xs \<noteq> []"
  by (auto simp: sound_reply_def part_def)

section \<open>A child\<close>

context mpi_laws
begin

lemma reduce_child_yields:
  assumes cb: "reduces_with E cb dat own comb fin" and ok: "partial_ok dat s" "reduce_outstanding s"
    and p: "pend w (c, rank s, TAG_REDUCE) = [] \<or> sound_reply dat (pend w (c, rank s, TAG_REDUCE))"
  shows "yields (reduce_child E M cb c s w) (\<lambda>(s', w'). partial_ok dat s' \<and> reduce_enabled s' = reduce_enabled s
    \<and> (pend w' = pend w \<or> pend w' = (pend w)((c, rank s, TAG_REDUCE) := [])))"
  unfolding reduce_child_def
proof (rule yields_probe, goal_cases)
  case (1 w1)
  with ok show ?case by simp
next
  case (2 st w1 m ms)
  let ?k = "(c, rank s, TAG_REDUCE)"
  obtain v tot k where l: "local_reduce_buf s = (v, tot, k)" by (rule prod_cases3)
  have pm: "pend w ?k = m # ms" using 2(2,3) by simp
  have pm1: "pend w1 ?k = m # ms" using pm 2(1) by simp
  have good: "sound_reply dat (m # ms)" using p pm by simp
  show ?case
  proof (rule yields_recv [OF pm1])
    fix w2 assume w2: "pend w2 = (pend w1)(?k := ms)"
    from good consider (refused) t b where "m = Longs [MSG_INVALID, t, b]" "ms = []"
      | (data) t x where "dat x" "m = Longs [MSG_VALID, t, int (length x)]" "ms = [Bytes x]"
      unfolding sound_reply_def part_def by auto
    then show "yields (bind_res (as_longs3 m) (\<lambda>(valid, cnt, sz).
           let s = s\<lparr>reduce_replies := reduce_replies s + 1\<rparr> in
           case local_reduce_buf s of (v, tot, b) \<Rightarrow>
             if valid = MSG_INVALID then Inr (s\<lparr>local_reduce_buf := (MSG_INVALID, tot, b)\<rparr>, w2)
             else
               let s = s\<lparr>local_reduce_buf := (v, tot + cnt, b)\<rparr> in
               bind_res (recv_user_data E M (rank s) c sz w2) (\<lambda>(inbuf, w).
               bind_res (if v = MSG_VALID then reduce_operation cb inbuf (to_size sz) s else Inr s)
                 (\<lambda>s. Inr (s, w)))))
      (\<lambda>(s', w'). partial_ok dat s' \<and> reduce_enabled s' = reduce_enabled s \<and> (pend w' = pend w \<or> pend w' = (pend w)(?k := [])))"
    proof cases
      case refused
      with w2 2(1) show ?thesis by (simp add: l partial_ok_def)
    next
      case data
      let ?s = "s\<lparr>reduce_replies := reduce_replies s + 1, local_reduce_buf := (v, tot + t, k)\<rparr>"
      have "pend w2 ?k = Bytes x # []" using w2 data(3) by simp
      from recv_pend [OF this] obtain w3 where w3: "recv M (rank s) c TAG_REDUCE w2 = Inr (Bytes x, w3)"
        "pend w3 = (pend w2)(?k := [])" .
      have sz: "to_size (int (length x)) = length x" "to_int32 (length x) = int (length x)" "0 < length x"
        using reduces_withD(7) [OF cb data(1)] by (auto simp: sized_def)
      have ud: "recv_user_data E M (rank s) c (int (length x)) w2 = Inr (Some x, w3)"
        using sz w3(1) reduces_withD(6) [OF cb] by (simp add: recv_user_data_def Let_def)
      have op: "yields (if v = MSG_VALID then reduce_operation cb (Some x) (length x) ?s else Inr ?s)
          (\<lambda>s'. partial_ok dat s' \<and> reduce_enabled s' = reduce_enabled s)"
      proof (cases "v = MSG_VALID")
        case True
        then obtain y where y: "dat y" "circ s = with_data y (circ s)" using ok l by (auto simp: partial_ok_def)
        have "circ ?s = with_data y (circ s)" using y(2) by simp
        from reduces_withD(2) [OF cb this y(1) data(1)] reduces_withD(5) [OF cb y(1) data(1)] True
        show ?thesis by (auto simp: partial_ok_def)
      next
        case False
        with ok l show ?thesis by (simp add: partial_ok_def)
      qed
      have "pend w3 = (pend w)(?k := [])" using w3(2) w2 2(1) by simp
      then show ?thesis
        unfolding data(2) as_longs3.simps bind_res_Inr
        using op by (simp add: l ud sz(1) Let_def) (auto elim!: yields_seq)
    qed
  qed
qed

section \<open>All children, and the reply to the parent\<close>

lemma reduce_children_yields:
  assumes tree: "rank_tree n par chl" and i: "0 \<le> i" "i < n" "ph i \<noteq> Finished" and cb: "reduces_with E cb dat own comb fin"
  shows "net_of n par chl T X ph D \<sigma> i s (pend w) \<Longrightarrow> reduce_outstanding s \<Longrightarrow> parts_ok n chl dat True ph (\<sigma>(i := s)) (pend w) \<Longrightarrow>
    set cs \<subseteq> set (chl i) \<Longrightarrow> yields (reduce_children E M cb cs s w) (\<lambda>(s', w'). net_of n par chl T X ph D \<sigma> i s' (pend w')
      \<and> reduce_outstanding s' \<and> parts_ok n chl dat True ph (\<sigma>(i := s')) (pend w') \<and> reduce_enabled s' = reduce_enabled s)"
proof (induction cs arbitrary: s w)
  case (Cons c cs)
  have c: "c \<in> set (chl i)" and rk: "rank s = i" using Cons.prems(1,4) by (simp_all add: net_of_def in_tree_def)
  note ok = partsD [OF Cons.prems(3) i(1,2) TrueI]
  have ic: "i < c" using rank_tree.child_bounds [OF tree i(1,2) c] by simp
  have "results (reduce_children E M cb [c] s w) (\<lambda>(s', w'). net_of n par chl T X ph D \<sigma> i s' (pend w') \<and> reduce_outstanding s')"
    by (rule reduce_children_net [OF tree i Cons.prems(1,2)]) (use c in simp)
  then have net: "results (reduce_child E M cb c s w) (\<lambda>(s', w'). net_of n par chl T X ph D \<sigma> i s' (pend w') \<and> reduce_outstanding s')"
    by (cases "reduce_child E M cb c s w") auto
  have "yields (reduce_child E M cb c s w) (\<lambda>(s', w'). net_of n par chl T X ph D \<sigma> i s' (pend w')
      \<and> reduce_outstanding s' \<and> parts_ok n chl dat True ph (\<sigma>(i := s')) (pend w') \<and> reduce_enabled s' = reduce_enabled s)"
  proof (rule yields_mono [OF yields_conj [OF reduce_child_yields [OF cb ok(1) [OF i(3)] Cons.prems(2)] net]], goal_cases)
    case 1
    show ?case using ok(2) [OF c] rk by simp
  next
    case (2 x)
    obtain s' w' where x: "x = (s', w')" by (cases x)
    have p': "pend w' = pend w \<or> pend w' = (pend w)((c, i, TAG_REDUCE) := [])" and s': "partial_ok dat s'"
      using 2 by (auto simp: x rk)
    have "parts_ok n chl dat True ph ((\<sigma>(i := s))(i := s')) (pend w')"
      by (rule parts_ok_change [OF tree i(1,2) Cons.prems(3) TrueI s']) (use p' ic in auto)
    with 2 show ?case by (simp add: x)
  qed
  then show ?case unfolding reduce_children.simps
  proof (rule yields_seq, clarify, goal_cases)
    case (1 s1 w1)
    have "set cs \<subseteq> set (chl i)" using Cons.prems(4) by simp
    from 1(5) Cons.IH [OF 1(2-4) this] show ?case by (simp only:)
  qed
qed simp

lemma send_partial_yields:
  assumes cb: "reduces_with E cb dat own comb fin" and l: "local_reduce_buf s = (v, tot, k)"
    and ok: "v = MSG_INVALID \<or> v = MSG_VALID \<and> (\<exists>x. dat x \<and> circ s = with_data x (circ s))"
  shows "yields (send_partial M (\<lambda>v. v = MSG_VALID) q s w) (\<lambda>(s', w'). reduce_enabled s' = reduce_enabled s
    \<and> (\<exists>r. sound_reply dat r \<and> pend w' = (pend w)((rank s, q, TAG_REDUCE) := pend w (rank s, q, TAG_REDUCE) @ r)))"
  using ok
proof (elim disjE conjE exE)
  assume v: "v = MSG_INVALID"
  have "sound_reply dat [Longs [MSG_INVALID, tot, b]]" for b by (auto simp: sound_reply_def)
  then show ?thesis using v by (auto simp: send_partial_def l Let_def intro!: yields_send) blast
next
  fix x assume v: "v = MSG_VALID" and x: "dat x" "circ s = with_data x (circ s)"
  have b: "reduce_buf (circ s) = Some x" "reduce_buf_size (circ s) = length x" using x(2) by (simp_all only: with_data_id)
  have sz: "to_int32 (length x) = int (length x)" "0 < length x" using reduces_withD(7) [OF cb x(1)] by (auto simp: sized_def)
  have good: "sound_reply dat [Longs [MSG_VALID, tot, int (length x)], Bytes x]" using x(1) by (auto simp: sound_reply_def part_def)
  show ?thesis
    using good v sz by (auto simp: send_partial_def l b Let_def send_user_data_def bind_res_assoc intro!: yields_send)
qed

lemma reduce_complete_yields:
  assumes tree: "rank_tree n par chl" and i: "0 \<le> i" "i < n" "ph i \<noteq> Finished" and cb: "reduces_with E cb dat own comb fin"
    and net: "net_of n par chl T X ph D \<sigma> i s (pend w)" and out: "reduce_outstanding s"
    and parts: "parts_ok n chl dat True ph (\<sigma>(i := s)) (pend w)"
  shows "yields (reduce_complete M cb k s w) (\<lambda>(s', w'). parts_ok n chl dat True ph (\<sigma>(i := s')) (pend w') \<and> reduce_enabled s' = reduce_enabled s)"
proof -
  obtain v tot b where l: "local_reduce_buf s = (v, tot, b)" by (rule prod_cases3)
  let ?s = "s\<lparr>local_reduce_buf := (v, tot + k, b)\<rparr>"
  have it: "rank s = i" "getParentRank (tree s) = par i" and nt: "reduce_net n chl T X ph D (\<sigma>(i := s)) (pend w)"
    using net by (simp_all add: net_of_def in_tree_def)
  have v: "v = MSG_INVALID \<or> v = MSG_VALID \<and> (\<exists>x. dat x \<and> circ ?s = with_data x (circ ?s))"
    using partsD(1) [OF parts i(1,2) TrueI i(3)] out l by (simp add: partial_ok_def)
  show ?thesis
  proof (cases "par i")
    case None
    have fin: "parts_ok n chl dat True ph ((\<sigma>(i := s))(i := s'\<lparr>reduce_outstanding := False\<rparr>)) (pend w)" for s'
      by (rule parts_ok_change [OF tree i(1,2) parts TrueI]) (simp_all add: partial_ok_def)
    have "yields (if v = MSG_VALID then reduce_finalize cb ?s else Inr ?s) (\<lambda>s'. reduce_enabled s' = reduce_enabled s)"
    proof (cases "v = MSG_VALID")
      case True
      then obtain x where "dat x" "circ ?s = with_data x (circ ?s)" using v by auto
      from reduces_withD(3) [OF cb this(2,1)] True show ?thesis by simp
    qed simp
    with fin show ?thesis
      unfolding reduce_complete_def by (auto simp: l it None Let_def bind_res_assoc simp del: MSG_VALID_def elim!: yields_seq)
  next
    case (Some q)
    note f = net_place [OF tree nt i]
    have empty: "pend w (i, q, TAG_REDUCE) = []"
      using f(6) [OF Some] out i(3) by (auto simp: engaged_def reducing_def split: if_splits)
    have qi: "q < i" by (rule f(5) [OF Some])
    have fin: "parts_ok n chl dat True ph ((\<sigma>(i := s))(i := s'\<lparr>reduce_outstanding := False\<rparr>)) (pend w')"
      if p': "sound_reply dat r" "pend w' = (pend w)((i, q, TAG_REDUCE) := pend w (i, q, TAG_REDUCE) @ r)" for s' r w'
    proof (rule parts_ok_change [OF tree i(1,2) parts TrueI])
      show "partial_ok dat (s'\<lparr>reduce_outstanding := False\<rparr>)" by (simp add: partial_ok_def)
      show "pend w' (c, i, TAG_REDUCE) = pend w (c, i, TAG_REDUCE) \<or> pend w' (c, i, TAG_REDUCE) = []" if "c \<in> set (chl i)" for c
        using rank_tree.child_bounds [OF tree i(1,2) that] qi by (simp add: p'(2))
      show "pend w' (i, q', TAG_REDUCE) = pend w (i, q', TAG_REDUCE) \<or> sound_reply dat (pend w' (i, q', TAG_REDUCE))"
        if "par i = Some q'" for q'
        using p'(1) Some that by (simp add: p'(2) empty)
    qed (simp add: p'(2))
    have "rank ?s = i" "local_reduce_buf ?s = (v, tot + k, b)" using it by simp_all
    note send = send_partial_yields [OF cb this(2) v, of q w, unfolded this(1)]
    have "yields (bind_res (send_partial M (\<lambda>v. v = MSG_VALID) q ?s w) (\<lambda>(s, w). Inr (s\<lparr>reduce_outstanding := False\<rparr>, w)))
      (\<lambda>(s', w'). parts_ok n chl dat True ph (\<sigma>(i := s')) (pend w') \<and> reduce_enabled s' = reduce_enabled s)"
      by (rule yields_seq [OF send]) (use fin in \<open>auto simp del: MSG_VALID_def\<close>)
    then show ?thesis unfolding reduce_complete_def by (simp add: l it Some Let_def del: MSG_VALID_def)
  qed
qed

section \<open>\<open>reduceCheck\<close>\<close>

lemma reduce_start_yields:
  "yields (reduce_start M cleanup now s w) (\<lambda>(b, w').
     if b then (case getParentRank (tree s) of None \<Rightarrow> pend w' = pend w
       | Some q \<Rightarrow> \<exists>x xs. pend w (q, rank s, TAG_REDUCE) = x # xs \<and> pend w' = (pend w)((q, rank s, TAG_REDUCE) := xs))
     else pend w' = pend w)"
proof -
  have "yields (reduce_start M cleanup now s w) (\<lambda>_. True)"
    unfolding reduce_start_def by (auto simp: Let_def split: option.split intro!: yields_probe yields_recv)
  then show ?thesis
    by (rule yields_results) (simp only: results_def, blast dest: reduce_start_effect)
qed

lemma reduce_begin_yields:
  assumes tree: "rank_tree n par chl" and i: "0 \<le> i" "i < n" and cb: "reduces_with E cb dat own comb fin"
    and it: "in_tree par chl i s" and parts: "parts_ok n chl dat True ph (\<sigma>(i := s)) (pend w)"
    and w1: "case par i of None \<Rightarrow> pend w1 = pend w
       | Some q \<Rightarrow> \<exists>x xs. pend w (q, i, TAG_REDUCE) = x # xs \<and> pend w1 = (pend w)((q, i, TAG_REDUCE) := xs)"
  shows "yields (bind_res (reduce_init cb (s\<lparr>reduce_time_last := now, reduce_outstanding := True,
                 reduce_replies := 0, local_reduce_buf := (MSG_VALID, 0, 0)\<rparr>)) (\<lambda>s.
             bind_res (send_each M (rank s) TAG_REDUCE Empty (child_list (tree s)) w1) (\<lambda>w. Inr (s, w))))
    (\<lambda>(s', w'). parts_ok n chl dat True ph (\<sigma>(i := s')) (pend w') \<and> reduce_enabled s' = reduce_enabled s)"
proof -
  let ?s = "s\<lparr>reduce_time_last := now, reduce_outstanding := True, reduce_replies := 0, local_reduce_buf := (MSG_VALID, 0, 0)\<rparr>"
  let ?x = "own (user (circ s))"
  let ?s1 = "?s\<lparr>circ := with_data ?x (circ s)\<rparr>"
  have init: "reduce_init cb ?s = Inr ?s1" using reduces_withD(1) [OF cb, of ?s] by simp
  have it1: "rank ?s1 = i" "child_list (tree ?s1) = chl i" using it by (simp_all add: in_tree_def)
  have ok: "partial_ok dat ?s1" using reduces_withD(4) [OF cb, of "user (circ s)"] by (auto simp: partial_ok_def)
  have "yields (send_each M i TAG_REDUCE Empty (chl i) w1)
      (\<lambda>w'. \<forall>k. pend w' k = (if \<exists>d \<in> set (chl i). k = (i, d, TAG_REDUCE) then pend w1 k @ [Empty] else pend w1 k))"
    using send_each_pend [OF _ rank_tree.child_distinct [OF tree], of i TAG_REDUCE Empty i w1]
    by (intro yields_results [OF yields_send_each [where Q = "\<lambda>_. True"]]) (simp_all only: results_def, blast)
  then have "yields (send_each M i TAG_REDUCE Empty (chl i) w1) (\<lambda>w'. parts_ok n chl dat True ph ((\<sigma>(i := s))(i := ?s1)) (pend w'))"
  proof (rule yields_mono)
    fix w' assume w': "\<forall>k. pend w' k = (if \<exists>d \<in> set (chl i). k = (i, d, TAG_REDUCE) then pend w1 k @ [Empty] else pend w1 k)"
    have par: "q < i" if "par i = Some q" for q using rank_tree.par_range [OF tree i(1,2) that] by simp
    have w1': "pend w1 (a, b, TAG_REDUCE) = pend w (a, b, TAG_REDUCE)" if "\<not> (b = i \<and> a < i)" for a b
      using w1 that par by (auto split: option.splits)
    show "parts_ok n chl dat True ph ((\<sigma>(i := s))(i := ?s1)) (pend w')"
    proof (rule parts_ok_change [OF tree i(1,2) parts TrueI ok])
      show "pend w' (a, b, TAG_REDUCE) = pend w (a, b, TAG_REDUCE)" if "a \<noteq> i" "b \<noteq> i" for a b
        using that by (simp add: w' w1')
      show "pend w' (c, i, TAG_REDUCE) = pend w (c, i, TAG_REDUCE) \<or> pend w' (c, i, TAG_REDUCE) = []" if "c \<in> set (chl i)" for c
        using rank_tree.child_bounds [OF tree i(1,2) that] by (simp add: w' w1')
      show "pend w' (i, q, TAG_REDUCE) = pend w (i, q, TAG_REDUCE) \<or> sound_reply dat (pend w' (i, q, TAG_REDUCE))"
        if "par i = Some q" for q
        using par [OF that] rank_tree.child_bounds [OF tree i(1,2), of q] by (auto simp: w' w1')
    qed
  qed
  then show ?thesis
    unfolding init bind_res_Inr it1 by (rule yields_seq) simp
qed

lemma reduceCheck_yields:
  assumes tree: "rank_tree n par chl" and i: "0 \<le> i" "i < n" "ph i \<noteq> Finished" and cb: "reduces_with E cb dat own comb fin"
    and net: "net_of n par chl T X ph D \<sigma> i s (pend w)" and parts: "parts_ok n chl dat True ph (\<sigma>(i := s)) (pend w)"
  shows "yields (reduceCheck E M cb k cleanup s w) (\<lambda>(s', w'). parts_ok n chl dat True ph (\<sigma>(i := s')) (pend w') \<and> reduce_enabled s' = reduce_enabled s)"
proof (cases "reduce_outstanding s")
  case True
  have kids: "set (child_list (tree s)) \<subseteq> set (chl i)" using net by (simp add: net_of_def in_tree_def)
  show ?thesis unfolding reduceCheck_def if_P [OF True]
  proof (rule yields_seq [OF reduce_children_yields [OF tree i cb net True parts kids]], clarify, goal_cases)
    case (1 s1 w1)
    from reduce_complete_yields [OF tree i cb 1(1-3), of k] 1(3,4) show ?case by simp
  qed
next
  case False
  have it: "in_tree par chl i s" "getParentRank (tree s) = par i" "rank s = i" and nt: "reduce_net n chl T X ph D (\<sigma>(i := s)) (pend w)"
    using net by (simp_all add: net_of_def in_tree_def)
  obtain now w0 where clock: "MPI_Wtime M (rank s) w = (now, w0)" by fastforce
  have pw: "pend w0 = pend w" by (rule wtime_law [OF clock])
  note start = reduce_start_yields [of cleanup now s w0, unfolded pw it(2,3)]
  obtain v tot b where l: "local_reduce_buf s = (v, tot, b)" by (rule prod_cases3)
  have refuse: "yields (bind_res (send M (rank s) q TAG_REDUCE (Longs [MSG_INVALID, tot, b]) w1) (\<lambda>w. Inr (s\<lparr>local_reduce_buf := (MSG_INVALID, tot, b)\<rparr>, w)))
      (\<lambda>(s', w'). parts_ok n chl dat True ph (\<sigma>(i := s')) (pend w') \<and> reduce_enabled s' = reduce_enabled s)"
    if q: "par i = Some q" and w1: "pend w (q, i, TAG_REDUCE) = x # xs" "pend w1 = (pend w)((q, i, TAG_REDUCE) := xs)" for q x xs w1
  proof (rule yields_send)
    fix w2 assume w2: "pend w2 = (pend w1)((rank s, q, TAG_REDUCE) := pend w1 (rank s, q, TAG_REDUCE) @ [Longs [MSG_INVALID, tot, b]])"
    have qi: "q < i" "pend w (i, q, TAG_REDUCE) = []"
      using net_place(5,6) [OF tree nt i q] w1(1) by (auto simp: engaged_def split: if_splits)
    have "parts_ok n chl dat True ph ((\<sigma>(i := s))(i := s\<lparr>local_reduce_buf := (MSG_INVALID, tot, b)\<rparr>)) (pend w2)"
    proof (rule parts_ok_change [OF tree i(1,2) parts TrueI])
      show "partial_ok dat (s\<lparr>local_reduce_buf := (MSG_INVALID, tot, b)\<rparr>)" using False by (simp add: partial_ok_def)
      show "pend w2 (c, i, TAG_REDUCE) = pend w (c, i, TAG_REDUCE) \<or> pend w2 (c, i, TAG_REDUCE) = []" if "c \<in> set (chl i)" for c
        using rank_tree.child_bounds [OF tree i(1,2) that] qi by (simp add: w2 w1(2))
      show "pend w2 (i, q', TAG_REDUCE) = pend w (i, q', TAG_REDUCE) \<or> sound_reply dat (pend w2 (i, q', TAG_REDUCE))" if "par i = Some q'" for q'
        using qi q that by (auto simp: w2 w1(2) it(3) sound_reply_def)
    qed (simp add: w2 w1(2) it(3))
    then show "yields (Inr (s\<lparr>local_reduce_buf := (MSG_INVALID, tot, b)\<rparr>, w2))
      (\<lambda>(s', w'). parts_ok n chl dat True ph (\<sigma>(i := s')) (pend w') \<and> reduce_enabled s' = reduce_enabled s)" by simp
  qed
  show ?thesis
    unfolding reduceCheck_def if_not_P [OF False] clock prod.case
  proof (rule yields_seq [OF start], clarify, goal_cases)
    case (1 st w1)
    show ?case
    proof (cases st)
      case st: True
      show ?thesis
      proof (cases cleanup)
        case True
        with 1 st parts refuse show ?thesis by (cases "par i") (auto simp: it(2) l simp del: MSG_INVALID_def)
      next
        case False
        with 1 st reduce_begin_yields [OF tree i(1,2) cb it(1) parts, where ?w1.0 = w1 and now = now] show ?thesis by (simp del: MSG_VALID_def)
      qed
    next
      case False
      with 1 parts show ?thesis by simp
    qed
  qed
qed

section \<open>The final reduction\<close>

lemma recv_empty: "pend w (i, me, t) = [] \<Longrightarrow> recv M me i t w = Inl Blocks"
  using recv_law [of me i t w] by (cases "MPI_Recv M me i t w") (auto simp: recv_def)

lemma sync_children_yields:
  assumes cb: "reduces_with E cb dat own comb fin"
  shows "circ s = with_data b c \<Longrightarrow> dat b \<Longrightarrow> distinct cs \<Longrightarrow>
    \<forall>d \<in> set cs. pend w (d, rank s, TAG_REDUCE) = [] \<or> (\<exists>t x. dat x \<and> pend w (d, rank s, TAG_REDUCE) = part t x) \<Longrightarrow>
    yields (sync_children E M cb cs s w) (\<lambda>(s', w'). (\<exists>b. dat b \<and> circ s' = with_data b c)
      \<and> fst (local_reduce_buf s') = fst (local_reduce_buf s) \<and> tree s' = tree s)"
proof (induction cs arbitrary: s w b)
  case Nil
  then show ?case by auto
next
  case (Cons d cs)
  obtain v tot k where l: "local_reduce_buf s = (v, tot, k)" by (rule prod_cases3)
  show ?case
  proof (cases "pend w (d, rank s, TAG_REDUCE) = []")
    case True
    then have "recv M (rank s) d TAG_REDUCE w = Inl Blocks" by (rule recv_empty)
    then show ?thesis by (simp add: sync_child_def)
  next
    case False
    then obtain t x where x: "pend w (d, rank s, TAG_REDUCE) = part t x" "dat x" using Cons.prems(4) by auto
    let ?s = "s\<lparr>circ := with_data (comb b x) c, local_reduce_buf := (v, tot + t, k)\<rparr>"
    obtain w1 where w1: "sync_child E M cb d s w = Inr (?s, w1)" "pend w1 = (pend w)((d, rank s, TAG_REDUCE) := [])"
      using sync_child_eff [OF cb Cons.prems(1,2) x l] by blast
    have c1: "circ ?s = with_data (comb b x) c" by simp
    have rest: "\<forall>e \<in> set cs. pend w1 (e, rank ?s, TAG_REDUCE) = [] \<or> (\<exists>t x. dat x \<and> pend w1 (e, rank ?s, TAG_REDUCE) = part t x)"
      using Cons.prems(4) by (auto simp: w1(2))
    have dist: "distinct cs" using Cons.prems(3) by simp
    from Cons.IH [OF c1 reduces_withD(5) [OF cb Cons.prems(2) x(2)] dist rest]
    show ?thesis by (simp add: w1(1) l)
  qed
qed

lemma reduceSync_yields:
  assumes cb: "reduces_with E cb dat own comb fin" and d: "distinct (child_list (tree s))"
    and kids: "\<forall>d \<in> set (child_list (tree s)). pend w (d, rank s, TAG_REDUCE) = [] \<or> (\<exists>t x. dat x \<and> pend w (d, rank s, TAG_REDUCE) = part t x)"
  shows "yields (reduceSync E M cb k s w) (\<lambda>_. True)"
proof -
  let ?s = "s\<lparr>local_reduce_buf := (MSG_VALID, k, 0), circ := with_data (own (user (circ s))) (circ s)\<rparr>"
  have init: "reduce_init cb (s\<lparr>local_reduce_buf := (MSG_VALID, k, 0)\<rparr>) = Inr ?s"
    using reduces_withD(1) [OF cb, of "s\<lparr>local_reduce_buf := (MSG_VALID, k, 0)\<rparr>"] by simp
  have c0: "circ ?s = with_data (own (user (circ s))) (circ s)" by simp
  have kids0: "\<forall>d \<in> set (child_list (tree ?s)). pend w (d, rank ?s, TAG_REDUCE) = [] \<or> (\<exists>t x. dat x \<and> pend w (d, rank ?s, TAG_REDUCE) = part t x)"
    and d0: "distinct (child_list (tree ?s))" using kids d by simp_all
  show ?thesis unfolding reduceSync_def init bind_res_Inr
  proof (rule yields_seq [OF sync_children_yields [OF cb c0 reduces_withD(4) [OF cb] d0 kids0]], clarify, goal_cases)
    case (1 s1 w1 b)
    obtain v tot j where "local_reduce_buf s1 = (v, tot, j)" by (rule prod_cases3)
    with 1 have l: "local_reduce_buf s1 = (MSG_VALID, tot, j)" and b: "dat b" "circ s1 = with_data b (circ s)" by simp_all
    have sz: "to_int32 (length b) = int (length b)" "0 < length b" using reduces_withD(7) [OF cb b(1)] by (auto simp: sized_def)
    show ?case
    proof (cases "getParentRank (tree s1)")
      case None
      with reduces_withD(3) [OF cb b(2,1)] show ?thesis by simp
    next
      case (Some q)
      have "yields (send_partial M (\<lambda>_. True) q s1 w1) (\<lambda>_. True)"
        using sz by (auto simp: send_partial_def l b(2) Let_def send_user_data_def bind_res_assoc intro!: yields_send)
      with Some show ?thesis by simp
    qed
  qed
qed

end

end
