(* ===== verification/Circle_Safe.thy ===== *)
theory Circle_Safe
  imports Circle_Parts Circle_Log Circle_Example
begin

text \<open>
  Whole iterations of the two loops of \<open>mainLoop\<close> do not fail, in either mode of termination
  detection and with background reductions: no \<open>MPI_Abort\<close>, no error of MPI, no undefined
  behaviour and no endless loop inside an iteration; it ends, unless it blocks in a call of MPI.
\<close>

section \<open>What holds between the operations of an iteration\<close>

definition sound_at ::
  "int \<Rightarrow> (int \<Rightarrow> int option) \<Rightarrow> (int \<Rightarrow> int list) \<Rightarrow> (byte list \<Rightarrow> bool) \<Rightarrow> bool \<Rightarrow> (byte list \<Rightarrow> nat) \<Rightarrow> int \<Rightarrow> (int \<Rightarrow> phase)
    \<Rightarrow> int set \<Rightarrow> (int \<Rightarrow> 'u state) \<Rightarrow> (channel \<Rightarrow> payload list) \<Rightarrow> bool" where
  "sound_at n par chl dat on wt C ph D \<sigma> p \<longleftrightarrow> base_inv n \<sigma> p \<and> spans n par chl \<sigma>
     \<and> (\<exists>T X. reduce_net n chl T X ph D \<sigma> p) \<and> flags_ok p \<and> parts_ok n chl dat on ph \<sigma> p
     \<and> account wt n \<sigma> p = C \<and> in_count n \<sigma>"

lemma soundD:
  assumes "sound_at n par chl dat on wt C ph D \<sigma> p"
  shows "base_inv n \<sigma> p" "proto n \<sigma> p" "spans n par chl \<sigma>" "flags_ok p" "parts_ok n chl dat on ph \<sigma> p" "account wt n \<sigma> p = C" "in_count n \<sigma>"
  using assms by (simp_all add: sound_at_def base_inv_def)

text \<open>The exchange of work.\<close>

lemma transfer_part:
  assumes "transfer n \<sigma> p \<sigma>' p'"
  shows "same_part (\<sigma> j) (\<sigma>' j)" "p' (a, b, TAG_TERM) = p (a, b, TAG_TERM)"
proof -
  have "same_part (\<sigma> j) (\<sigma>' j) \<and> p' (a, b, TAG_TERM) = p (a, b, TAG_TERM)"
    using assms
  proof cases
    case idle
    then show ?thesis by simp
  next
    case (served i D xs g q oc sd)
    then show ?thesis
      by (auto simp: same_part_def after_replies_def requests_taken_def serve_update_def set_queue_def)
  next
    case (receipted i wo tf)
    have "p' (a, b, TAG_TERM) = p (a, b, TAG_TERM)" by (rule only_channelsD [OF receipted(5)]) auto
    then show ?thesis unfolding receipted(1) by (simp add: same_part_def)
  next
    case (asking i s')
    from asking(5) show ?thesis unfolding asking(1)
      by cases (auto simp: reply_from_def same_part_def set_queue_def)
  qed
  then show "same_part (\<sigma> j) (\<sigma>' j)" "p' (a, b, TAG_TERM) = p (a, b, TAG_TERM)" by simp_all
qed

lemma transfer_sound:
  assumes "sound_at n par chl dat on wt C ph D \<sigma> p" "transfer n \<sigma> p \<sigma>' p'"
  shows "sound_at n par chl dat on wt C ph D \<sigma>' p'"
proof -
  note s = soundD [OF assms(1)]
  note kept = transfer_kept [OF s(2) assms(2)] and sl = transfer_sidelines [OF assms(2)]
  have "base_inv n \<sigma>' p'" using kept sl s(1) by (simp add: base_inv_def sidelines_def)
  moreover have "flags_ok p'" using s(4) flags_ok_cong [of p' p] transfer_token(1) [OF assms(2)] transfer_part(2) [OF assms(2)] by simp
  moreover have "parts_ok n chl dat on ph \<sigma>' p'"
    using s(5) parts_ok_cong [of \<sigma> \<sigma>' p' p n chl dat on ph] transfer_part(1) [OF assms(2)] transfer_same [OF assms(2)]
    by (simp add: reduction_same_def)
  moreover have "account wt n \<sigma>' p' = C"
    using s(6) kept transfer_user(2) [OF assms(2)] by (simp add: account_def processed_def)
  moreover have "in_count n \<sigma>'" using s(7) transfer_user(2) [OF assms(2)] by (simp add: in_count_def)
  ultimately show ?thesis
    using assms(1) net_cong [OF transfer_same [OF assms(2)]] s(3) sidelines_spans [OF sl] by (simp add: sound_at_def)
qed

context mpi_laws
begin

text \<open>A step beside the exchange.\<close>

lemma bystander_sound:
  assumes snd: "sound_at n par chl dat on wt C ph D \<sigma> p" and bst: "bystander (\<lambda>_ k::int. k) (\<sigma> i) s'" "elsewhere T p p'"
    and T: "T \<subseteq> {TAG_REDUCE, TAG_BARRIER}" and net: "\<exists>T X. reduce_net n chl T X ph D (\<sigma>(i := s')) p'"
    and parts: "parts_ok n chl dat on ph (\<sigma>(i := s')) p'"
  shows "sound_at n par chl dat on wt C ph D (\<sigma>(i := s')) p'"
proof -
  note s = soundD [OF snd]
  have t: "T \<inter> work_tags = {}" "TAG_ABORT_REQUEST \<notin> T" "TAG_TOKEN \<notin> T" "TAG_TERM \<notin> T"
    using T by (auto simp: work_tags_def)
  have "base_inv n (\<sigma>(i := s')) p'" by (rule bystander_base [where \<sigma> = \<sigma> and i = i, OF s(1) bst t(1,2)])
  moreover have "flags_ok p'" using s(4) flags_ok_cong [of p' p] elsewhereD [OF bst(2)] t(3,4) by simp
  moreover have "account wt n (\<sigma>(i := s')) p' = C"
    using s(6) bystander_ledger [where \<sigma> = \<sigma> and i = i and d = "\<lambda>_ k. k", OF bst t(1)] by (simp add: account_ledger)
  moreover have "in_count n (\<sigma>(i := s'))" using s(7) bst(1) by (intro in_count_same) (simp_all add: bystander_def)
  moreover have "spans n par chl (\<sigma>(i := s'))" using s(3) bst(1) by (simp add: spans_def bystander_def)
  ultimately show ?thesis using net parts by (simp add: sound_at_def)
qed

lemma serve_sound:
  assumes E: "env_ok E n" and i: "0 \<le> i" "i < n" and snd: "sound_at n par chl dat on wt C ph D (\<sigma>(i := s)) (pend w)"
  shows "yields (workreqCheck E M cleanup s w) (\<lambda>(s', w'). sound_at n par chl dat on wt C ph D (\<sigma>(i := s')) (pend w'))"
proof -
  have "yields (workreqCheck E M cleanup s w) (\<lambda>(s', w'). transfer n (\<sigma>(i := s)) (pend w) (\<sigma>(i := s')) (pend w'))"
    using serve_transfer [OF E soundD(2) [OF snd] i, of cleanup] by simp
  then show ?thesis by (rule yields_mono) (auto intro: transfer_sound [OF snd])
qed

lemma receipt_sound:
  assumes i: "0 \<le> i" "i < n" and snd: "sound_at n par chl dat on wt C ph D (\<sigma>(i := s)) (pend w)"
  shows "yields (workreceiptCheck M s w) (\<lambda>(s', w'). sound_at n par chl dat on wt C ph D (\<sigma>(i := s')) (pend w'))"
proof -
  have "yields (workreceiptCheck M s w) (\<lambda>(s', w'). transfer n (\<sigma>(i := s)) (pend w) (\<sigma>(i := s')) (pend w'))"
    using receipt_transfer [OF soundD(2) [OF snd] i] by simp
  then show ?thesis by (rule yields_mono) (auto intro: transfer_sound [OF snd])
qed

lemma request_sound:
  assumes E: "env_ok E n" and i: "0 \<le> i" "i < n" and snd: "sound_at n par chl dat on wt C ph D (\<sigma>(i := s)) (pend w)"
    and idle: "qcount (qp s) = 0 \<or> cleanup"
  shows "yields (requestWork E M cleanup s w) (\<lambda>(rc, s', w'). sound_at n par chl dat on wt C ph D (\<sigma>(i := s')) (pend w'))"
proof -
  have "yields (requestWork E M cleanup s w) (\<lambda>(rc, s', w'). transfer n (\<sigma>(i := s)) (pend w) (\<sigma>(i := s')) (pend w')
      \<or> s' = s \<and> pend w' = pend w)"
    using request_transfer [OF E soundD(2) [OF snd] i, of cleanup] idle transfer.asking [of i n "\<sigma>(i := s)" "pend w"] i
    by (auto elim!: yields_mono)
  then show ?thesis by (rule yields_mono) (use snd in \<open>auto intro: transfer_sound [OF snd]\<close>)
qed

lemma abort_sound:
  assumes i: "0 \<le> i" "i < n" and snd: "sound_at n par chl dat on wt C ph D (\<sigma>(i := s)) (pend w)"
  shows "yields (abortCheck M cleanup s w) (\<lambda>(s', w'). s' = s \<and> sound_at n par chl dat on wt C ph D (\<sigma>(i := s')) (pend w'))"
proof -
  note b = soundD(1) [OF snd]
  note ok = base_inv_running [OF b i, simplified]
  have "pend w (a, c, TAG_ABORT_REQUEST) = []" for a c using b by (simp add: base_inv_def)
  from abortCheck_none [OF ok(1,4) this, of cleanup] snd show ?thesis by auto
qed

lemma reduce_sound:
  assumes tree: "rank_tree n par chl" and i: "0 \<le> i" "i < n" "ph i \<noteq> Finished" and ok: "callbacks_ok cb"
    and cb: "on \<Longrightarrow> reduces_with E cb dat own comb fin"
    and snd: "sound_at n par chl dat on wt C ph D (\<sigma>(i := s)) (pend w)"
  shows "yields (if reduce_enabled s then reduceCheck E M cb k cleanup s w else Inr (s, w))
    (\<lambda>(s', w'). sound_at n par chl dat on wt C ph D (\<sigma>(i := s')) (pend w'))"
proof (cases "reduce_enabled s")
  case False
  with snd show ?thesis by simp
next
  case True
  have keep: "callbacks_keep (\<lambda>_ k::int. k) cb" using ok by (simp add: callbacks_keep_def)
  have on: "on" using soundD(5) [OF snd] True i by (auto simp: parts_ok_def)
  then have parts: "parts_ok n chl dat True ph (\<sigma>(i := s)) (pend w)" using soundD(5) [OF snd] by simp
  obtain T X where nt: "reduce_net n chl T X ph D (\<sigma>(i := s)) (pend w)" using snd by (auto simp: sound_at_def)
  have "in_tree par chl i ((\<sigma>(i := s)) i)" using soundD(3) [OF snd] i unfolding spans_def in_tree_def by blast
  with nt have net: "net_of n par chl T X ph D \<sigma> i s (pend w)" by (simp add: net_of_def)
  have more: "results (reduceCheck E M cb k cleanup s w) (\<lambda>(s', w'). net_of n par chl T X ph D \<sigma> i s' (pend w')
      \<and> beside (\<lambda>_ k::int. k) s s' \<and> elsewhere {TAG_REDUCE} (pend w) (pend w'))"
    using reduceCheck_net(1) [OF tree i net] reduceCheck_aside [OF keep, where s = s and w = w] by (auto simp: results_def)
  show ?thesis unfolding if_P [OF True]
  proof (rule yields_mono [OF yields_conj [OF reduceCheck_yields [OF tree i cb [OF on] net parts] more]], goal_cases)
    case (1 x)
    obtain s' w' where x: "x = (s', w')" by (cases x)
    have "bystander (\<lambda>_ k::int. k) ((\<sigma>(i := s)) i) s'" using 1 by (simp add: x beside_bystander)
    from bystander_sound [OF snd this, where T = "{TAG_REDUCE}" and p' = "pend w'", unfolded fun_upd_upd] 1 on
    show ?case unfolding x net_of_def prod.case by (simp only:) blast
  qed
qed

end

section \<open>The callback that processes an item\<close>

text \<open>It returns when there is an item.\<close>

definition always_works :: "'u callbacks \<Rightarrow> bool" where
  "always_works cb \<longleftrightarrow> (\<forall>c. wf_queue (queue c) \<longrightarrow> fits (items (queue c)) \<longrightarrow> 0 < qcount (queue c) \<longrightarrow>
     (\<exists>c'. processCallback cb c = Inr c'))"

lemma weigh_nonneg: "0 \<le> weigh wt W"
  unfolding weigh_def by (rule of_nat_0_le_iff)

lemma processed_below:
  assumes i: "0 \<le> i" "i < n" and c: "in_count n \<sigma>" and acc: "account wt n \<sigma> p \<le> INT_MAX" and w: "0 < weigh wt (mset (items (qp (\<sigma> i))))"
  shows "local_objects_processed (\<sigma> i) < INT_MAX"
proof -
  have "local_objects_processed (\<sigma> i) \<le> processed n \<sigma>"
    unfolding processed_def by (rule member_le_sum) (use i c in \<open>auto simp: in_count_def\<close>)
  moreover have "mset (items (qp (\<sigma> i))) \<subseteq># all_items n \<sigma> p"
  proof -
    have "mset (items (qp (\<sigma> i))) \<subseteq># queued n \<sigma>"
      unfolding queued_def by (subst sum.remove [of _ i]) (use i in auto)
    then show ?thesis unfolding all_items_def by (rule subset_mset.order_trans) simp
  qed
  then obtain R where "all_items n \<sigma> p = mset (items (qp (\<sigma> i))) + R" unfolding mset_subset_eq_exists_conv by blast
  then have "weigh wt (mset (items (qp (\<sigma> i)))) \<le> weigh wt (all_items n \<sigma> p)" by (simp add: weigh_nonneg)
  ultimately show ?thesis using acc w by (simp add: account_def)
qed

context mpi_laws
begin

lemma process_sound:
  assumes i: "0 \<le> i" "i < n" and works: "always_works cb" "keeps_buffer cb" "consumes cb wt" "C \<le> INT_MAX"
    and snd: "sound_at n par chl dat on wt C ph D (\<sigma>(i := s)) (pend w)" and ne: "0 < qcount (qp s)"
  shows "yields (process_one cb s) (\<lambda>s'. same_part s s')"
proof -
  note ok = base_inv_running [OF soundD(1) [OF snd] i, simplified]
  obtain c where c: "processCallback cb (circ s) = Inr c" using works(1) ok ne by (auto simp: always_works_def)
  have "weigh wt (mset (items (queue c))) + 1 = weigh wt (mset (items (qp s)))" using works(3) ok ne c by (simp add: consumes_def)
  then have "0 < weigh wt (mset (items (qp s)))" using weigh_nonneg [of wt "mset (items (queue c))"] by linarith
  with processed_below [OF i soundD(7) [OF snd], of wt "pend w"] soundD(6) [OF snd] works(4)
  have "local_objects_processed s < INT_MAX" by simp
  moreover have "0 \<le> local_objects_processed s" using soundD(7) [OF snd] i by (auto simp: in_count_def)
  ultimately have "ck_int (local_objects_processed s + 1) = Inr (local_objects_processed s + 1)"
    by (simp add: ck_int_def in_int_def)
  with c works(2) show ?thesis by (simp add: process_one_def same_part_def keeps_buffer_def)
qed

end

section \<open>Iterations\<close>

text \<open>What is left after an iteration.\<close>

definition left_sound ::
  "int \<Rightarrow> (int \<Rightarrow> int list) \<Rightarrow> (byte list \<Rightarrow> bool) \<Rightarrow> bool \<Rightarrow> (int \<Rightarrow> phase) \<Rightarrow> (int \<Rightarrow> 'u state) \<Rightarrow> (channel \<Rightarrow> payload list) \<Rightarrow> bool" where
  "left_sound n chl dat on ph \<sigma> p \<longleftrightarrow> flags_ok p \<and> parts_ok n chl dat on ph \<sigma> p"

lemma sound_left: "sound_at n par chl dat on wt C ph D \<sigma> p \<Longrightarrow> left_sound n chl dat on ph \<sigma> p"
  by (simp add: sound_at_def left_sound_def)

context mpi_laws
begin

lemma same_left_sound:
  assumes "sound_at n par chl dat on wt C ph D (\<sigma>(i := s)) (pend w)" "same_part s s'" "flags_ok (pend w')"
    "\<And>a b. pend w' (a, b, TAG_REDUCE) = pend w (a, b, TAG_REDUCE)"
  shows "left_sound n chl dat on ph (\<sigma>(i := s')) (pend w')"
proof -
  have "parts_ok n chl dat on ph (\<sigma>(i := s')) (pend w') = parts_ok n chl dat on ph (\<sigma>(i := s)) (pend w)"
    by (rule parts_ok_cong) (use assms(2,4) in auto)
  then show ?thesis using soundD(5) [OF assms(1)] assms(3) by (simp add: left_sound_def)
qed

lemma check_sound:
  assumes snd: "sound_at n par chl dat on wt C ph D (\<sigma>(i := s)) (pend w)"
  shows "yields (if term_tree_enabled s then checkForTermAllReduce M s w else checkForTerm M s w)
    (\<lambda>(st, s', w'). left_sound n chl dat on ph (\<sigma>(i := s')) (pend w'))"
proof (cases "term_tree_enabled s")
  case True
  have "results (checkForTermAllReduce M s w) (\<lambda>(st, s', w'). elsewhere {TAG_TERM} (pend w) (pend w'))"
    using checkForTermAllReduce_aside [of s w] by (auto simp: results_def)
  note r = yields_conj [OF checkForTermAllReduce_flags [OF soundD(4) [OF snd]] this]
  show ?thesis unfolding if_P [OF True]
  proof (rule yields_mono [OF r], clarify, goal_cases)
    case (1 st s' w')
    show ?case by (rule same_left_sound [OF snd 1(3,2)]) (use 1(1) in \<open>simp add: elsewhere_def\<close>)
  qed
next
  case False
  have "results (checkForTerm M s w) (\<lambda>(st, s', w'). same_part s s' \<and> (\<forall>a b. pend w' (a, b, TAG_REDUCE) = pend w (a, b, TAG_REDUCE)))"
  proof (simp only: results_def, intro allI impI, clarify)
    fix st s' w' assume run: "checkForTerm M s w = Inr (st, s', w')"
    show "same_part s s' \<and> (\<forall>a b. pend w' (a, b, TAG_REDUCE) = pend w (a, b, TAG_REDUCE))"
      using checkForTerm_frame(1) [OF run] checkForTerm_frame(2) [OF run] token_same_part by auto
  qed
  note r = yields_conj [OF checkForTerm_flags [OF soundD(4) [OF snd]] this]
  show ?thesis unfolding if_not_P [OF False]
  proof (rule yields_mono [OF r], clarify, goal_cases)
    case (1 st s' w')
    show ?case by (rule same_left_sound [OF snd 1(2,1)]) (use 1(3) in simp)
  qed
qed

lemma drain_sound:
  assumes snd: "sound_at n par chl dat on wt C ph D (\<sigma>(i := s)) (pend w)"
  shows "yields (if \<not> term_tree_enabled s then drain_token M s w else Inr (s, w)) (\<lambda>(s', w'). left_sound n chl dat on ph (\<sigma>(i := s')) (pend w'))"
proof (cases "term_tree_enabled s")
  case True
  with sound_left [OF snd] show ?thesis by simp
next
  case False
  have "results (drain_token M s w) (\<lambda>(s', w'). same_part s s' \<and> (\<forall>a b. pend w' (a, b, TAG_REDUCE) = pend w (a, b, TAG_REDUCE)))"
  proof (simp only: results_def, intro allI impI, clarify)
    fix s' w' assume run: "drain_token M s w = Inr (s', w')"
    show "same_part s s' \<and> (\<forall>a b. pend w' (a, b, TAG_REDUCE) = pend w (a, b, TAG_REDUCE))"
      using drain_frame(1) [OF run] drain_frame(2) [OF run] token_same_part by auto
  qed
  note r = yields_conj [OF drain_flags [OF soundD(4) [OF snd]] this]
  have "yields (drain_token M s w) (\<lambda>(s', w'). left_sound n chl dat on ph (\<sigma>(i := s')) (pend w'))"
  proof (rule yields_mono [OF r], clarify, goal_cases)
    case (1 s' w')
    show ?case by (rule same_left_sound [OF snd 1(2,1)]) (use 1(3) in simp)
  qed
  with False show ?thesis by simp
qed

lemma work_step_sound:
  assumes E: "env_ok E n" and tree: "rank_tree n par chl" and i: "0 \<le> i" "i < n" "ph i \<noteq> Finished" and ok: "callbacks_ok cb"
    and cb: "on \<Longrightarrow> reduces_with E cb dat own comb fin"
    and works: "always_works cb" "keeps_buffer cb" "consumes cb wt" "C \<le> INT_MAX"
    and snd: "sound_at n par chl dat on wt C ph D \<sigma> (pend w)"
  shows "yields (work_step E M cb (\<sigma> i) w) (\<lambda>(l, s', w'). left_sound n chl dat on ph (\<sigma>(i := s')) (pend w'))"
proof -
  have snd0: "sound_at n par chl dat on wt C ph D (\<sigma>(i := \<sigma> i)) (pend w)" using snd by simp
  show ?thesis unfolding work_step_def
proof (rule yields_seq [OF serve_sound [OF E i(1,2) snd0]], clarify, goal_cases)
  case (1 s1 w1)
  show ?case
  proof (rule yields_seq [OF receipt_sound [OF i(1,2) 1]], clarify, goal_cases)
    case (1 s2 w2)
    show ?case
    proof (rule yields_seq [OF abort_sound [OF i(1,2) 1]], clarify, goal_cases)
      case (1 s3 w3)
      show ?case
      proof (rule yields_seq [OF reduce_sound [OF tree i ok cb 1]], assumption, clarify, goal_cases)
        case (1 s4 w4)
        have req: "yields (if qcount (qp s4) = 0 then bind_res (requestWork E M False s4 w4) (\<lambda>(_, s, w). Inr (s, w)) else Inr (s4, w4))
            (\<lambda>(s', w'). sound_at n par chl dat on wt C ph D (\<sigma>(i := s')) (pend w'))"
          using 1 request_sound [OF E i(1,2) 1, of False] by (auto elim!: yields_seq)
        show ?case
        proof (rule yields_seq [OF req], clarify, goal_cases)
          case (1 s5 w5)
          have process: "yields (bind_res (process_one cb s5) (\<lambda>s. Inr (False, s, w5))) (\<lambda>(l, s', w'). left_sound n chl dat on ph (\<sigma>(i := s')) (pend w'))"
            if "0 < qcount (qp s5)"
            by (rule yields_seq [OF process_sound [OF i(1,2) works 1 that]])
              (use same_left_sound [OF 1 _ soundD(4) [OF 1]] in simp)
          have check: "yields (bind_res (if term_tree_enabled s5 then checkForTermAllReduce M s5 w5 else checkForTerm M s5 w5)
              (\<lambda>(st, s, w). Inr (st = TERMINATE, s, w))) (\<lambda>(l, s', w'). left_sound n chl dat on ph (\<sigma>(i := s')) (pend w'))"
            by (rule yields_seq [OF check_sound [OF 1]]) auto
          show ?case using process check by (simp del: TERMINATE_def)
        qed
      qed
    qed
  qed
qed
qed

lemma cleanup_step_sound:
  assumes E: "env_ok E n" and tree: "rank_tree n par chl" and i: "0 \<le> i" "i < n" "ph i \<noteq> Finished" and ok: "callbacks_ok cb"
    and cb: "on \<Longrightarrow> reduces_with E cb dat own comb fin"
    and snd: "sound_at n par chl dat on wt C ph D \<sigma> (pend w)"
  shows "yields (cleanup_step E M cb (\<sigma> i) w) (\<lambda>(l, s', w'). left_sound n chl dat on ph (\<sigma>(i := s')) (pend w'))"
proof -
  let ?s = "entering (\<sigma> i)"
  have ent: "bystander g (\<sigma> i) ?s" "undisturbed (\<sigma> i) ?s" "same_part (\<sigma> i) ?s" for g :: "'a \<Rightarrow> int \<Rightarrow> int"
    by (simp_all add: entering_def barrierStart_def)
  have bar: "yields (barrierTest M ?s w) (\<lambda>(b, s', w'). sound_at n par chl dat on wt C ph D (\<sigma>(i := s')) (pend w'))"
  proof (rule yields_mono [OF yields_conj [OF barrierTest_yields barrierTest_aside [where g = "\<lambda>_ k::int. k"]]], clarify, goal_cases)
    case (1 b s' w')
    have bst: "bystander (\<lambda>_ k::int. k) (\<sigma> i) s'" by (rule bystander_trans [OF ent(1)]) (use 1 in simp)
    have un: "undisturbed (\<sigma> i) s'" by (rule undisturbed_trans [OF ent(2)]) (use 1 in simp)
    have sp: "same_part (\<sigma> i) s'" by (rule same_part_trans [OF ent(3)]) (use 1 in simp)
    have el: "elsewhere {TAG_BARRIER} (pend w) (pend w')" using 1 by simp
    have "reduction_same \<sigma> (pend w) (\<sigma>(i := s')) (pend w')"
      using un el by (simp add: reduction_same_def elsewhere_def)
    then have "\<exists>T X. reduce_net n chl T X ph D (\<sigma>(i := s')) (pend w')" using snd net_cong by (fastforce simp: sound_at_def)
    moreover have "parts_ok n chl dat on ph (\<sigma>(i := s')) (pend w')"
      using soundD(5) [OF snd] parts_ok_cong [of \<sigma> "\<sigma>(i := s')" "pend w'" "pend w" n chl dat on ph] sp el
      by (simp add: elsewhere_def)
    ultimately show ?case by (intro bystander_sound [where i = i, OF snd bst el]) simp_all
  qed
  show ?thesis
    unfolding cleanup_step_def Let_def entering_def [symmetric]
  proof (rule yields_seq [OF bar], clarify, goal_cases)
    case (1 b s1 w1)
    note snd1 = 1
    note left = sound_left [OF 1]
    have rest: "yields (bind_res (workreqCheck E M True s1 w1) (\<lambda>(s, w).
          bind_res (if reduce_enabled s then reduceCheck E M cb (local_objects_processed s) True s w
                    else Inr (s, w)) (\<lambda>(s, w).
          bind_res (requestWork E M True s w) (\<lambda>(_, s, w).
          bind_res (abortCheck M True s w) (\<lambda>(s, w).
          bind_res (if \<not> term_tree_enabled s then drain_token M s w else Inr (s, w)) (\<lambda>(s, w).
            Inr (False, s, w))))))) (\<lambda>(l, s', w'). left_sound n chl dat on ph (\<sigma>(i := s')) (pend w'))"
    proof (rule yields_seq [OF serve_sound [OF E i(1,2) snd1]], clarify, goal_cases)
      case (1 s2 w2)
      show ?case
      proof (rule yields_seq [OF reduce_sound [OF tree i ok cb 1]], assumption, clarify, goal_cases)
        case (1 s3 w3)
        show ?case
        proof (rule yields_seq [OF request_sound [OF E i(1,2) 1]], simp, clarify, goal_cases)
          case (1 rc s4 w4)
          show ?case
          proof (rule yields_seq [OF abort_sound [OF i(1,2) 1]], clarify, goal_cases)
            case (1 s5 w5)
            show ?case by (rule yields_seq [OF drain_sound [OF 1]]) auto
          qed
        qed
      qed
    qed
    show ?case using left rest by simp
  qed
qed

section \<open>The final reduction\<close>

lemma final_places:
  assumes tree: "rank_tree n par chl" and i: "0 \<le> i" "i < n" "i \<notin> D" "ph i = Finished" and on: "on"
    and snd: "sound_at n par chl dat on wt C ph D \<sigma> p"
  shows "\<exists>T X. \<forall>c \<in> set (chl i). p (c, i, TAG_REDUCE) = [] \<or> p (c, i, TAG_REDUCE) = part (T c) (X c) \<and> dat (X c)"
    "par i = Some q \<Longrightarrow> q < i \<and> p (i, q, TAG_REDUCE) = []"
proof -
  obtain T X where net: "reduce_net n chl T X ph D \<sigma> p" using snd by (auto simp: sound_at_def)
  have quiet: "waiting chl ph \<sigma> q = 0" if "ph q = Finished" for q using that by (simp add: waiting_def reducing_def)
  have "p (c, i, TAG_REDUCE) = [] \<or> p (c, i, TAG_REDUCE) = part (T c) (X c) \<and> dat (X c)" if c: "c \<in> set (chl i)" for c
  proof (cases "c \<in> D")
    case True
    then have pt: "p (c, i, TAG_REDUCE) = part (T c) (X c)" using reduce_netD(6) [OF net i(1,2) c] i(3) by simp
    moreover have "p (c, i, TAG_REDUCE) = [] \<or> sound_reply dat (p (c, i, TAG_REDUCE))"
      using soundD(5) [OF snd] i(1,2) c on unfolding parts_ok_def by blast
    ultimately show ?thesis by (auto simp: sound_reply_def part_def)
  next
    case False
    from net_quiet [OF net i(1-3) quiet [OF i(4)] c False] show ?thesis by (simp add: engaged_0)
  qed
  then show "\<exists>T X. \<forall>c \<in> set (chl i). p (c, i, TAG_REDUCE) = [] \<or> p (c, i, TAG_REDUCE) = part (T c) (X c) \<and> dat (X c)" by blast
  show "q < i \<and> p (i, q, TAG_REDUCE) = []" if q: "par i = Some q"
  proof -
    have b: "0 \<le> q" "q < i" "i \<in> set (chl q)" using rank_tree.par_range [OF tree i(1,2) q] by auto
    then have "q \<notin> D" "ph q = Finished" using reduce_netD(2,4) [OF net] i by auto
    from net_quiet [OF net b(1) _ this(1) quiet [OF this(2)] b(3) i(3)] b i(2) show ?thesis by (simp add: engaged_0)
  qed
qed

lemma final_sound:
  assumes tree: "rank_tree n par chl" and i: "0 \<le> i" "i < n" "i \<notin> D" "ph i = Finished" and on: "on"
    and cb: "reduces_with E cb dat own comb fin" and ok: "callbacks_ok cb"
    and snd: "sound_at n par chl dat on wt C ph D \<sigma> (pend w)"
  shows "yields (reduceSync E M cb k (\<sigma> i) w) (\<lambda>(s', w'). left_sound n chl dat on ph (\<sigma>(i := s')) (pend w'))"
proof -
  have keep: "callbacks_keep (\<lambda>_ k::int. k) cb" using ok by (simp add: callbacks_keep_def)
  have it: "rank (\<sigma> i) = i" "getParentRank (tree (\<sigma> i)) = par i" "child_list (tree (\<sigma> i)) = chl i"
    using soundD(3) [OF snd] i(1,2) by (simp_all add: spans_def)
  obtain T X where TX: "\<forall>c \<in> set (chl i). pend w (c, i, TAG_REDUCE) = [] \<or> pend w (c, i, TAG_REDUCE) = part (T c) (X c) \<and> dat (X c)"
    using final_places(1) [where p = "pend w", OF tree i on snd] by blast
  note dist = rank_tree.child_distinct [OF tree, of i]
  have "yields (reduceSync E M cb k (\<sigma> i) w) (\<lambda>_. True)"
    by (rule reduceSync_yields [OF cb]) (use TX dist in \<open>auto simp: it\<close>)
  then show ?thesis
  proof (rule yields_results, unfold results_def, intro allI impI, clarify)
    fix s' w' assume run: "reduceSync E M cb k (\<sigma> i) w = Inr (s', w')"
    have m: "measures dat (\<lambda>_. 0::int) comb" by (simp add: measures_def)
    have d0: "distinct (child_list (tree (\<sigma> i)))"
      and kids0: "\<forall>c \<in> set (child_list (tree (\<sigma> i))). pend w (c, rank (\<sigma> i), TAG_REDUCE) = []
        \<or> pend w (c, rank (\<sigma> i), TAG_REDUCE) = part (T c) (X c) \<and> dat (X c)" using dist TX by (simp_all add: it)
    obtain b t p' where dat: "dat b"
      and p0: "p' = (\<lambda>k. if \<exists>c \<in> set (child_list (tree (\<sigma> i))). k = (c, rank (\<sigma> i), TAG_REDUCE) then [] else pend w k)"
      and pw0: "pend w' = (case getParentRank (tree (\<sigma> i)) of None \<Rightarrow> p'
        | Some q \<Rightarrow> p'((rank (\<sigma> i), q, TAG_REDUCE) := p' (rank (\<sigma> i), q, TAG_REDUCE) @ part t b))"
      by (rule reduceSync_eff [OF cb m d0 run kids0])
    note p' = p0 [unfolded it] and pw = pw0 [unfolded it]
    have up: "q < i" "pend w (i, q, TAG_REDUCE) = []" if "par i = Some q" for q
      using final_places(2) [where p = "pend w", OF tree i on snd that] by simp_all
    have kid: "i < c" if "c \<in> set (chl i)" for c using rank_tree.child_bounds [OF tree i(1,2) that] by simp
    have "parts_ok n chl dat on ph (\<sigma>(i := s')) (pend w')"
    proof (rule parts_ok_change [OF tree i(1,2) soundD(5) [OF snd] on])
      show "pend w' (a, b, TAG_REDUCE) = pend w (a, b, TAG_REDUCE)" if "a \<noteq> i" "b \<noteq> i" for a b
        using that by (auto simp: pw p' split: option.split)
      show "pend w' (c, i, TAG_REDUCE) = pend w (c, i, TAG_REDUCE) \<or> pend w' (c, i, TAG_REDUCE) = []" if "c \<in> set (chl i)" for c
        using kid [OF that] that up(1) by (auto simp: pw p' split: option.split)
      show "pend w' (i, q, TAG_REDUCE) = pend w (i, q, TAG_REDUCE) \<or> sound_reply dat (pend w' (i, q, TAG_REDUCE))" if "par i = Some q" for q
        using that up [OF that] dat by (auto simp: pw p' sound_reply_def)
    qed (use i(4) in simp)
    moreover have "elsewhere {TAG_REDUCE} (pend w) (pend w')"
      using reduceSync_aside [OF keep, where s = "\<sigma> i" and w = w and E = E and k = k] run by (simp add: results_def)
    then have "flags_ok (pend w')" using soundD(4) [OF snd] flags_ok_cong [of "pend w'" "pend w"] by (simp add: elsewhere_def)
    ultimately show "left_sound n chl dat on ph (\<sigma>(i := s')) (pend w')" by (simp add: left_sound_def)
  qed
qed

end

section \<open>All runs\<close>

lemma left_sound_phase:
  assumes "left_sound n chl dat on ph \<sigma> p" "\<And>j. ph j = Finished \<Longrightarrow> ph' j = Finished"
  shows "left_sound n chl dat on ph' \<sigma> p"
  using assms unfolding left_sound_def parts_ok_def by blast

definition run_sound ::
  "int \<Rightarrow> (int \<Rightarrow> int option) \<Rightarrow> (int \<Rightarrow> int list) \<Rightarrow> (byte list \<Rightarrow> bool) \<Rightarrow> ('u \<Rightarrow> byte list) \<Rightarrow> (byte list \<Rightarrow> 'u circle \<Rightarrow> 'u circle)
    \<Rightarrow> bool \<Rightarrow> (byte list \<Rightarrow> nat) \<Rightarrow> int \<Rightarrow> (int \<Rightarrow> phase) \<Rightarrow> int set \<Rightarrow> (int \<Rightarrow> 'u state) \<Rightarrow> (channel \<Rightarrow> payload list) \<Rightarrow> bool" where
  "run_sound n par chl dat own fin on wt C ph D \<sigma> p \<longleftrightarrow> system_inv n par chl dat own (\<lambda>_. 0::int) fin ph D \<sigma> p
     \<and> left_sound n chl dat on ph \<sigma> p \<and> account wt n \<sigma> p = C \<and> in_count n \<sigma>"

lemma run_sound_at: "run_sound n par chl dat own fin on wt C ph D \<sigma> p \<Longrightarrow> sound_at n par chl dat on wt C ph D \<sigma> p"
  by (auto simp: run_sound_def sound_at_def system_inv_def base_program_def left_sound_def)

context mpi_laws
begin

lemma loops_sound:
  assumes E: "env_ok E n" and tree: "rank_tree n par chl" and ok: "callbacks_ok cb"
    and cb: "on \<Longrightarrow> reduces_with E cb dat own comb fin"
    and works: "always_works cb" "keeps_buffer cb" "consumes cb wt" "C \<le> INT_MAX"
    and inv: "run_sound n par chl dat own fin on wt C ph D \<sigma> (pend w)" and st: "program_step E M cb n (ph, \<sigma>, w) (ph', \<sigma>', w')"
  shows "run_sound n par chl dat own fin on wt C ph' D \<sigma>' (pend w')"
proof -
  have keep: "callbacks_keep (\<lambda>_ k::int. k) cb" using ok by (simp add: callbacks_keep_def)
  have sys: "system_inv n par chl dat own (\<lambda>_. 0::int) fin ph D \<sigma> (pend w)" and base: "base_program n ph \<sigma> (pend w)"
    and acc: "account wt n \<sigma> (pend w) = C" and cnt: "in_count n \<sigma>" using inv by (auto simp: run_sound_def system_inv_def)
  note snd = run_sound_at [OF inv]
  have "account wt n \<sigma>' (pend w') = C"
    using program_ledger [OF E keep consumes_settles [OF works(3)] base st] acc by (simp add: account_ledger)
  moreover have "left_sound n chl dat on ph' \<sigma>' (pend w')"
    using st
  proof cases
    case (iterate i leave s')
    have "ph i \<noteq> Finished" using iterate(5) by simp
    from work_step_sound [OF E tree iterate(3,4) this ok cb works snd] have "left_sound n chl dat on ph (\<sigma>(i := s')) (pend w')"
      by (simp add: iterate(6))
    then show ?thesis unfolding iterate(1,2) by (rule left_sound_phase) (use iterate(5) in auto)
  next
    case (cleanup i leave s')
    have "ph i \<noteq> Finished" using cleanup(5) by simp
    from cleanup_step_sound [OF E tree cleanup(3,4) this ok cb snd] have "left_sound n chl dat on ph (\<sigma>(i := s')) (pend w')"
      by (simp add: cleanup(6))
    then show ?thesis unfolding cleanup(1,2) by (rule left_sound_phase) (use cleanup(5) in auto)
  qed
  ultimately show ?thesis
    using loops_inv [OF tree E keep sys st] program_count [OF E keep base cnt st] by (simp add: run_sound_def)
qed

lemma final_step_sound:
  assumes tree: "rank_tree n par chl" and ok: "callbacks_ok cb" and cb: "on \<Longrightarrow> reduces_with E cb dat own comb fin"
    and inv: "run_sound n par chl dat own fin on wt C ph D \<sigma> (pend w)"
    and i: "0 \<le> i" "i < n" "i \<notin> D" "ph i = Finished" and on: "on"
    and run: "reduceSync E M cb (local_objects_processed (\<sigma> i)) (\<sigma> i) w = Inr (s', w')"
  shows "run_sound n par chl dat own fin on wt C ph (insert i D) (\<sigma>(i := s')) (pend w')"
proof -
  have keep: "callbacks_keep (\<lambda>_ k::int. k) cb" using ok by (simp add: callbacks_keep_def)
  have sys: "system_inv n par chl dat own (\<lambda>_. 0::int) fin ph D \<sigma> (pend w)"
    and acc: "account wt n \<sigma> (pend w) = C" and cnt: "in_count n \<sigma>" using inv by (auto simp: run_sound_def)
  have m: "measures dat (\<lambda>_. 0::int) comb" by (simp add: measures_def)
  have b: "beside (\<lambda>_ k::int. k) (\<sigma> i) s'" "elsewhere {TAG_REDUCE} (pend w) (pend w')"
    using reduceSync_aside [OF keep, where s = "\<sigma> i" and w = w and E = E and k = "local_objects_processed (\<sigma> i)"] run
    by (simp_all add: results_def)
  have "account wt n (\<sigma>(i := s')) (pend w') = C"
    using acc bystander_ledger [where \<sigma> = \<sigma> and i = i and d = "\<lambda>_ k. k", OF beside_bystander [OF b(1)] b(2)]
    by (simp add: account_ledger work_tags_def)
  moreover have "in_count n (\<sigma>(i := s'))" using cnt b(1) by (intro in_count_same) (simp_all add: beside_def bystander_def)
  moreover have "left_sound n chl dat on ph (\<sigma>(i := s')) (pend w')"
    using final_sound [where k = "local_objects_processed (\<sigma> i)", OF tree i on cb [OF on] ok run_sound_at [OF inv]] run by simp
  ultimately show ?thesis using final_inv [OF tree keep cb [OF on] m sys i run] by (simp add: run_sound_def)
qed

lemma system_sound:
  assumes E: "env_ok E n" and tree: "rank_tree n par chl" and ok: "callbacks_ok cb"
    and cb: "on \<Longrightarrow> reduces_with E cb dat own comb fin"
    and works: "always_works cb" "keeps_buffer cb" "consumes cb wt" "C \<le> INT_MAX"
    and inv: "run_sound n par chl dat own fin on wt C ph D \<sigma> (pend w)"
    and run: "(system_step E M cb n)\<^sup>*\<^sup>* (ph, D, \<sigma>, w) (ph', D', \<sigma>', w')"
  shows "run_sound n par chl dat own fin on wt C ph' D' \<sigma>' (pend w')"
  using run
proof (induction "(ph', D', \<sigma>', w')" arbitrary: ph' D' \<sigma>' w' rule: rtranclp_induct)
  case base
  show ?case using inv by simp
next
  case (step c)
  obtain ph1 D1 \<sigma>1 w1 where c: "c = (ph1, D1, \<sigma>1, w1)" by (rule prod_cases4)
  note IH = step.hyps(3) [OF c]
  from step.hyps(2) [unfolded c] show ?case
  proof cases
    case loops
    from loops_sound [OF E tree ok cb works IH loops(2)] show ?thesis unfolding loops(1) .
  next
    case (final i s')
    have "on" using soundD(5) [OF run_sound_at [OF IH]] final(4,5,8) by (auto simp: parts_ok_def)
    from final_step_sound [OF tree ok cb IH final(4-7) this final(9)] show ?thesis unfolding final(1-3) .
  qed
qed

lemma start_sound:
  assumes E: "env_ok E n" and tree: "rank_tree n par chl" and st: "starts_work E n \<sigma>" and net: "\<forall>k. pend w k = []"
    and sp: "spans n par chl \<sigma>" and on: "\<And>i. 0 \<le> i \<Longrightarrow> i < n \<Longrightarrow> reduce_enabled (\<sigma> i) \<Longrightarrow> on"
  shows "run_sound n par chl dat own fin on wt (weigh wt (queued n \<sigma>)) (\<lambda>_. Working) {} \<sigma> (pend w)"
proof -
  have "\<not> reduce_outstanding (\<sigma> i)" if i: "0 \<le> i" "i < n" for i
  proof -
    obtain now junk c s c' where s: "State_new E i n now junk c = Inr s" "\<sigma> i = s\<lparr>circ := c'\<rparr>"
      using st i unfolding starts_work_def by blast
    then show ?thesis using State_new_sel(23) [OF s(1)] by simp
  qed
  then have "left_sound n chl dat on (\<lambda>_. Working) \<sigma> (pend w)"
    using on net by (auto simp: left_sound_def parts_ok_def partial_ok_def flags_ok_start)
  then show ?thesis
    using start_system [OF tree st E net sp] start_account [OF st net, of wt] start_count [OF st] by (simp add: run_sound_def)
qed

text \<open>What any process does next ends or blocks.\<close>

lemma never_fails:
  assumes E: "env_ok E n" and ok: "callbacks_ok cb" and st: "starts_work E n \<sigma>0" and net: "\<forall>k. pend w0 k = []"
    and kt: "kary_tree E n width \<sigma>0" "1 \<le> width"
    and cb: "\<forall>i. 0 \<le> i \<longrightarrow> i < n \<longrightarrow> reduce_enabled (\<sigma>0 i) \<longrightarrow> reduces_with E cb dat own comb fin"
    and works: "always_works cb" "keeps_buffer cb" "consumes cb wt" "weigh wt (\<Sum>j\<in>{0..<n}. mset (items (qp (\<sigma>0 j)))) \<le> INT_MAX"
    and run: "(system_step E M cb n)\<^sup>*\<^sup>* (\<lambda>_. Working, {}, \<sigma>0, w0) (ph, D, \<sigma>, w)" and i: "0 \<le> i" "i < n"
  shows "ph i = Working \<Longrightarrow> yields (work_step E M cb (\<sigma> i) w) (\<lambda>_. True)"
    "ph i = Cleaning \<Longrightarrow> yields (cleanup_step E M cb (\<sigma> i) w) (\<lambda>_. True)"
    "ph i = Finished \<Longrightarrow> i \<notin> D \<Longrightarrow> reduce_enabled (\<sigma> i) \<Longrightarrow> yields (reduceSync E M cb (local_objects_processed (\<sigma> i)) (\<sigma> i) w) (\<lambda>_. True)"
proof -
  let ?on = "\<exists>i. 0 \<le> i \<and> i < n \<and> reduce_enabled (\<sigma>0 i)"
  note tree = kary_rank_tree [OF kt(2)]
  have cb': "reduces_with E cb dat own comb fin" if ?on using that cb by blast
  have "run_sound n (kary_parent width) (kary_children width n) dat own fin ?on wt (weigh wt (queued n \<sigma>0)) (\<lambda>_. Working) {} \<sigma>0 (pend w0)"
    by (rule start_sound [OF E tree st net start_spans [OF st E kt]]) blast
  from run_sound_at [OF system_sound [OF E tree ok cb' works(1-3) _ this run]] works(4)
  have snd: "sound_at n (kary_parent width) (kary_children width n) dat ?on wt (weigh wt (queued n \<sigma>0)) ph D \<sigma> (pend w)"
    by (simp add: queued_def)
  have le: "weigh wt (queued n \<sigma>0) \<le> INT_MAX" using works(4) by (simp add: queued_def)
  show "yields (work_step E M cb (\<sigma> i) w) (\<lambda>_. True)" if "ph i = Working"
  proof -
    have "ph i \<noteq> Finished" using that by simp
    from work_step_sound [OF E tree i this ok cb' works(1-3) le snd] show ?thesis by (rule yields_mono) simp_all
  qed
  show "yields (cleanup_step E M cb (\<sigma> i) w) (\<lambda>_. True)" if "ph i = Cleaning"
  proof -
    have "ph i \<noteq> Finished" using that by simp
    from cleanup_step_sound [OF E tree i this ok cb' snd] show ?thesis by (rule yields_mono) simp_all
  qed
  show "yields (reduceSync E M cb (local_objects_processed (\<sigma> i)) (\<sigma> i) w) (\<lambda>_. True)"
    if f: "ph i = Finished" "i \<notin> D" "reduce_enabled (\<sigma> i)"
  proof -
    have on: ?on using soundD(5) [OF snd] i f(3) unfolding parts_ok_def by blast
    from final_sound [OF tree i f(2,1) on cb' [OF on] ok snd] show ?thesis by (rule yields_mono) simp_all
  qed
qed

end

section \<open>An example\<close>

text \<open>The example with a reduction, on a disk where every file has a size: its callbacks never
  fail, take one item at a time and leave the buffer of the reduction alone.\<close>

lemma example_works:
  assumes "\<And>x. file_size d x \<noteq> None"
  shows "always_works (example_reduction_callbacks E d)"
  unfolding always_works_def
proof (intro allI impI)
  fix c :: "example_data circle"
  assume wf: "wf_queue (queue c)" and ne: "0 < qcount (queue c)"
  have rep: "queue_rep (queue c) (items (queue c))" by (rule wf_queue_rep [OF wf])
  then have "items (queue c) \<noteq> []" using ne queue_rep_count by fastforce
  then obtain xs x where "items (queue c) = xs @ [x]" by (metis rev_exhaust)
  with rep have "queue_rep (queue c) (xs @ [x])" by simp
  from dequeue_rep [OF this] obtain q where "dequeue [] c = Inr (0, x, c\<lparr>queue := q\<rparr>)" by metis
  moreover obtain k where "file_size d x = Some k" using assms by fastforce
  ultimately show "\<exists>c'. processCallback (example_reduction_callbacks E d) c = Inr c'"
    by (simp add: example_reduction_callbacks_def my_process_some_work_def)
qed

lemma example_keeps_buffer: "keeps_buffer (example_reduction_callbacks E d)"
proof -
  have "reduce_buf c' = reduce_buf c \<and> reduce_buf_size c' = reduce_buf_size c" if "my_process_some_work d c = Inr c'" for c c'
    using that by (auto simp: my_process_some_work_def dequeue_def elim!: bind_res_InrE split: option.splits)
  then show ?thesis by (simp add: keeps_buffer_def example_reduction_callbacks_def)
qed

lemma example_consumes: "consumes (example_reduction_callbacks E d) (\<lambda>_. 1)"
  unfolding consumes_def
proof (intro allI impI)
  fix c c' :: "example_data circle"
  assume p: "wf_queue (queue c)" "0 < qcount (queue c)" "processCallback (example_reduction_callbacks E d) c = Inr c'"
  then have "my_process_some_work d c = Inr c'" by (simp add: example_reduction_callbacks_def)
  from process_effect [OF p(1,2) this] obtain xs x where "items (queue c) = xs @ [x]" "items (queue c') = xs" .
  then show "weigh (\<lambda>_. 1) (mset (items (queue c'))) + 1 = weigh (\<lambda>_. 1) (mset (items (queue c)))"
    by (simp add: weigh_def)
qed

definition full_disk :: disk where
  "full_disk = demo_disk\<lparr>file_size := (\<lambda>x. if x = [7] then Some 100 else Some 23)\<rparr>"

lemma demo_example_items:
  "items (qp (demo_example example_reduction_circle 0)) = [[7], [8, 9]]" "items (qp (demo_example example_reduction_circle 1)) = []"
proof -
  note new = demo_example_new [OF disjI2 [OF refl]]
  have "qp (demo_example example_reduction_circle 0) = demo_queue 0" "qp (demo_example example_reduction_circle 1) = demo_queue 1"
    using State_new_sel(6) [OF new [of 0]] State_new_sel(6) [OF new [of 1]] by simp_all
  then show "items (qp (demo_example example_reduction_circle 0)) = [[7], [8, 9]]" "items (qp (demo_example example_reduction_circle 1)) = []"
    using queue_rep_items demo_queue_rep by (simp_all add: queue_rep_items [OF demo_queue_rep(1)] queue_rep_items [OF demo_queue_rep(2)])
qed

definition full_end :: "(example_data, fifo) program" where
  "full_end = the (run_program demo_env fifo_mpi (example_reduction_callbacks demo_env full_disk)
     [1, 0, 1, 0, 1, 0, 1, 0, 1, 0, 1, 0, 1, 0, 1] (\<lambda>_. Working, demo_example example_reduction_circle, fifo_new 2))"

lemma full_run:
  "(system_step demo_env fifo_mpi (example_reduction_callbacks demo_env full_disk) 2)\<^sup>*\<^sup>* reduction_start
     (fst full_end, {}, fst (snd full_end), snd (snd full_end))"
proof -
  have "(program_step demo_env fifo_mpi (example_reduction_callbacks demo_env full_disk) 2)\<^sup>*\<^sup>*
     (\<lambda>_. Working, demo_example example_reduction_circle, fifo_new 2) (fst full_end, fst (snd full_end), snd (snd full_end))"
    unfolding full_end_def prod.collapse by (rule ends_of_run) code_simp
  from loops_steps [OF this] show ?thesis by (simp add: reduction_start_def)
qed

lemma full_end_state: "fst full_end 1 = Finished \<and> reduce_enabled (fst (snd full_end) 1) \<and> fst full_end 0 = Finished"
  by code_simp

end
