(* ===== verification/Spec2Isabelle.thy ===== *)
theory Spec2Isabelle
  imports Circle_TermTree Circle_Alone Circle_Example Circle_Valid Circle_Handles Circle_Tests Circle_Restart Circle_Pi Circle_Print Circle_Safe
begin

text \<open>
  Circle is a work-stealing queue over MPI.  A user creates a \<open>Circle\<close> object with callbacks;
  \<open>execute\<close> builds a \<open>State\<close> on every process and runs \<open>State::mainLoop\<close>: a work loop (serve
  requests for work, take receipts, check for aborts, progress a background reduction, ask
  another process for work when the own queue is empty, process an item or else check for
  termination), a cleanup loop that ends with a barrier, a final reduction and, after an abort,
  a checkpoint.  Paths below are under \<open>src/\<close>.

  The library, one theory per part of the program:

  \<^item> \<open>Circle_Prelude\<close>: outcomes of an operation (\<open>failure + 'a\<close>: \<open>MPI_Abort\<close>, exit, the MPI
    error handler, a call that blocks for ever, a loop that does not end, undefined
    behaviour), C integer conversions, byte arrays cut at offsets.
  \<^item> \<open>Circle_Flags\<close>: \<open>RuntimeFlags\<close> and \<open>LogLevel\<close> (\<open>include/lanl_circle.hpp\<close>); \<open>Circle_Log\<close>: the
    line a message makes, the settings and the summary that \<open>execute\<close> prints.
  \<^item> \<open>Circle_Queue\<close>, \<open>Circle_Checkpoint\<close>: \<open>src/queue.cpp\<close>.  The locale \<open>lifo_store\<close> is what
    clients rely on, interpreted for the queue and for the \<open>Circle\<close> object.
  \<^item> \<open>Circle_Object\<close>: \<open>Circle\<close>, \<open>CircleImpl\<close> (\<open>src/circle.cpp\<close>) and the queue functions of
    \<open>src/lanl_circle.cpp\<close>; \<open>Circle_C\<close>: the C interface, over a table of live objects.
  \<^item> \<open>Circle_Mpi\<close>: the MPI calls as a parameter, a record of functions on the state of the
    network.  The locale \<open>mpi_laws\<close> states their documented behaviour through the messages
    pending on each channel; \<open>mpi_eager\<close> adds that a probe for one source finds a message that
    has been sent.  Both are interpreted on a network of first-in first-out channels.
  \<^item> \<open>Circle_Tree\<close>: \<open>src/tree_state.cpp\<close>; locale \<open>rank_tree\<close>, interpreted on what the
    constructor computes.
  \<^item> \<open>Circle_State\<close>, \<open>Circle_Work\<close>, \<open>Circle_Token\<close>, \<open>Circle_Collective\<close>, \<open>Circle_Reduce\<close>,
    \<open>Circle_MainLoop\<close>: \<open>src/state.cpp\<close> with the class \<open>State\<close> and the tags of
    \<open>include/token.hpp\<close>; \<open>execute\<close> of \<open>src/circle.cpp\<close> is in the last.  The definitions keep
    the names of the methods.
  \<^item> \<open>Circle_Print\<close>: the functions that show the pool, offsets and the stack for debugging
    (\<open>src/queue.cpp\<close>, \<open>src/state.cpp\<close>, \<open>src/backtrace.cpp\<close>).
  \<^item> \<open>Circle_Example\<close>: the callbacks of \<open>src/examples/example.cpp\<close> and \<open>example_reduction.cpp\<close>;
    \<open>Circle_Pi\<close>: those of \<open>example_pi.c\<close>, through the C interface; \<open>Circle_Tests\<close>: the unit tests
    of \<open>src/tests\<close>.

  and the theories that prove things about it:

  \<^item> \<open>Circle_Exchange\<close>, \<open>Circle_Serve\<close>, \<open>Circle_Ask\<close>: what each side of the exchange of work
    does to its queue and to the pending messages, never failing; \<open>Circle_Protocol\<close>: all
    processes together, with the invariant of requests, replies and receipts and the
    conservation of work.
  \<^item> \<open>Circle_Ring\<close>: the invariant of the token ring.  \<open>Circle_Beside\<close>, \<open>Circle_System\<close>: whole
    iterations of the two loops taken apart into fine steps that keep these invariants,
    whatever runs beside them.
  \<^item> \<open>Circle_Barrier\<close>: an abstract barrier on a tree and the simulation of the program by it.
  \<^item> \<open>Circle_Account\<close>: the worth of the items that remain and the credit of the processes add up,
    in any commutative group; work remaining and objects processed are one instance, the sizes of
    files in the examples another.
  \<^item> \<open>Circle_Total\<close>: the final reduction as a fold over the tree.  \<open>Circle_Background\<close>: the
    reductions during the loops keep the messages between a process and its children in step, so
    that they do not meet the final one.  \<open>Circle_Whole\<close>: the loops and the final reduction
    together, from the start to the total at the root.
  \<^item> \<open>Circle_Shapes\<close>, \<open>Circle_Parts\<close>, \<open>Circle_Safe\<close>: whole iterations and the final reduction
    never fail; every message has the shape its receiver decodes, a process that announces data
    sends them from a buffer that is there, and the counters stay in range.
  \<^item> \<open>Circle_Valid\<close>: the ranges of the fields of a state, from these invariants.
  \<^item> \<open>Circle_Handles\<close>: what the C interface promises, and that it keeps it.  \<open>Circle_Restart\<close>:
    checkpoint and restart of all ranks.
  \<^item> \<open>Circle_TermTree\<close>: the termination over the tree and its error.  \<open>Circle_Alone\<close>: a process
    alone runs to its end.
  \<^item> \<open>Circle_Demo\<close>, \<open>Circle_Run\<close>: small concrete systems for the witnesses.

  Interleaving.  A configuration is the state of every process and of the network.  A step of
  the finest system is one operation of one process (serving, taking receipts, asking,
  processing, checking for termination); a step of \<open>program_step\<close> is one iteration of a loop.
  An operation runs as a whole: between processes the only communication is through messages,
  and an operation that blocks in the middle of an iteration has no step.  Any order of
  processes is allowed, and nothing is assumed about fairness.

  Hypotheses.  \<open>env_ok\<close>: the page size is positive, allocation succeeds, random numbers are not
  negative and give another rank sooner or later.  \<open>starts_work\<close>: every process is as its
  constructor and the create callback leave it, with a well-formed queue that \<open>fits\<close>: its bytes
  and its item count fit an \<open>int\<close> with the room \<open>extendOffsets\<close> needs (without that the
  counts the code sends would wrap).  \<open>callbacks_ok\<close>: the process callback keeps that, the
  reduction callbacks leave the queue alone.  \<open>always_works\<close> and \<open>keeps_buffer\<close>, for the theorem
  that no iteration fails: the process callback succeeds on a queue that is not empty and leaves
  the reduction buffer alone.  \<open>mpi_eager\<close> is needed for the ring only: the
  ring does not look at \<open>work_outstanding\<close>, so it relies on a reply being noticed before the
  token has gone round.  Loops that may not end are partial functions; \<open>pick_other\<close>,
  \<open>extend_loop\<close>, \<open>work_loop\<close> and \<open>cleanup_loop\<close> have properties that say when they end.

  The time is a real number; a percentage in the summary, the listing of a directory, numbers of
  type \<open>double\<close>, \<open>rand\<close>, and the frames and symbols of a stack come from the C library, the file
  system and the platform and are parameters, as are the addresses \<open>new\<close> returns.  A callback acts
  on the object it is given and on the user's data, not on other objects.

  Not modelled: the other messages that are logged on the way; the signal handlers, which only
  report; the duplication and release of communicators and error handlers; \<open>bcast_abort\<close>, which is
  compiled out with the body of \<open>Circle::abort\<close>; the Fortran binding and the example over it, which
  forward calls; the Python binding, which cannot make an object (its module registers no class for
  \<open>circle::Circle\<close>), so that all it does is left to \<open>pybind11\<close>; the experimental queue in C, which
  nothing uses and which does not compile.
\<close>

section \<open>Distribution of work\<close>

text \<open>C1. Work is conserved.  From any start, after any interleaving of the operations of
  the work loop and of callbacks, serving requests, taking receipts and asking for work
  leaves the items of the whole system (in the queues and in replies on the way) the same
  multiset: no item is lost and none is duplicated.\<close>

theorem work_is_conserved:
  assumes "mpi_laws M pend" "env_ok E n" "starts_work E n \<sigma>0" "\<forall>k. pend w0 k = []"
    "(work_step_rel E M cb n)\<^sup>*\<^sup>* (\<sigma>0, w0) (\<sigma>, w)" "exchange_step E M n (\<sigma>, w) (\<sigma>', w')"
  shows "all_items n \<sigma>' (pend w') = all_items n \<sigma> (pend w)"
  using mpi_laws.exchange_kept [OF assms(1,2) _ assms(6)]
    mpi_laws.reachable_proto [OF assms(1) assms(5,2) start_proto [OF assms(3,2,4)]] by blast

theorem work_is_conserved_witness:
  "all_items 2 (fst demo2) (chan (snd demo2)) = all_items 2 (fst demo1) (chan (snd demo1))"
  using work_is_conserved [of fifo_mpi chan demo_env 2 demo_state "fifo_new 2" demo_callbacks
      "fst demo1" "snd demo1" "fst demo2" "snd demo2"]
    fifo.mpi_laws_axioms demo_env_ok demo_starts demo_reach1 demo_step2
  by (simp add: demo0_def)

text \<open>C2. The protocol of requests and replies.  In every reachable configuration: a
  process that asked for work has an empty queue and waits for one other process; either
  its one request or the one reply to it is on the way, never both and never neither; a
  reply is a refusal or carries well-formed items; and the number of outstanding transfers
  a process counts is the number of its replies with work and of receipts on the way.\<close>

theorem protocol_invariant:
  assumes "mpi_laws M pend" "env_ok E n" "starts_work E n \<sigma>0" "\<forall>k. pend w0 k = []"
    "(work_step_rel E M cb n)\<^sup>*\<^sup>* (\<sigma>0, w0) (\<sigma>, w)"
  shows "proto n \<sigma> (pend w)"
  using mpi_laws.reachable_proto [OF assms(1) assms(5,2) start_proto [OF assms(3,2,4)]] .

theorem protocol_invariant_witness: "proto 2 (fst demo2) (chan (snd demo2))"
  using protocol_invariant [of fifo_mpi chan demo_env 2 demo_state "fifo_new 2" demo_callbacks
      "fst demo2" "snd demo2"]
    fifo.mpi_laws_axioms demo_env_ok demo_starts demo_reach2
  by (simp add: demo0_def)



section \<open>Termination\<close>





text \<open>C6. No process ever aborts.  \<open>Circle::abort\<close> has no effect (its body is compiled out),
  and nothing else raises the abort flag: through any interleaving of iterations of the
  loops, in either mode of termination detection, every process keeps \<open>ABORT_FLAG\<close> at 0 and
  no abort request is ever sent.\<close>

theorem never_aborts:
  assumes "mpi_laws M pend" "env_ok E n" "callbacks_ok cb" "starts_work E n \<sigma>0" "\<forall>k. pend w0 k = []"
    "(program_step E M cb n)\<^sup>*\<^sup>* (\<lambda>_. Working, \<sigma>0, w0) (ph, \<sigma>, w)" "0 \<le> i" "i < n"
  shows "ABORT_FLAG (\<sigma> i) = 0 \<and> pend w (j, k, TAG_ABORT_REQUEST) = []"
proof -
  have inv: "base_inv n \<sigma> (pend w)" using program_reachable [OF assms(1-6)] by (simp add: base_program_def)
  with base_inv_running(1) [OF inv assms(7,8)] show ?thesis by (simp add: base_inv_def)
qed

theorem never_aborts_witness:
  "ABORT_FLAG (fst (snd program_end) 1) = 0 \<and> chan (snd (snd program_end)) (0, 1, TAG_ABORT_REQUEST) = []"
  using never_aborts [where ?w0.0 = "fifo_new 2" and ph = "fst program_end" and \<sigma> = "fst (snd program_end)"
      and w = "snd (snd program_end)" and i = 1,
      OF fifo.mpi_laws_axioms demo_env_ok demo_callbacks_ok demo_starts] program_run
  by (simp add: program_start_def demo0_def)





text \<open>C9. The account always balances.  In either mode of termination detection, at any time, the
  weight of the items in queues and messages plus the objects processed so far is the weight of
  the items the run started with: work that is lost is never counted as done.\<close>

theorem work_account_balances:
  assumes "mpi_laws M pend" "env_ok E n" "callbacks_ok cb" "starts_work E n \<sigma>0" "\<forall>k. pend w0 k = []" "consumes cb wt"
    "(program_step E M cb n)\<^sup>*\<^sup>* (\<lambda>_. Working, \<sigma>0, w0) (ph, \<sigma>, w)"
  shows "weigh wt (all_items n \<sigma> (pend w)) + (\<Sum>j\<in>{0..<n}. local_objects_processed (\<sigma> j)) = weigh wt (all_items n \<sigma>0 (pend w0))"
proof -
  have "base_program n (\<lambda>_. Working) \<sigma>0 (pend w0)" using start_base [OF assms(4,2,5)] .
  from mpi_laws.account_reachable [OF assms(1,7,2,3,6) this] start_processed [OF assms(4)]
  show ?thesis by (simp add: account_def processed_def)
qed

theorem work_account_balances_witness:
  "weigh (\<lambda>_. 1) (all_items 2 (fst (snd tree_end)) (chan (snd (snd tree_end))))
     + (\<Sum>j\<in>{0..<2}. local_objects_processed (fst (snd tree_end) j)) = weigh (\<lambda>_. 1) (all_items 2 tree_mode (chan (fifo_new 2)))"
  using work_account_balances [where ?w0.0 = "fifo_new 2" and ph = "fst tree_end" and \<sigma> = "fst (snd tree_end)"
      and w = "snd (snd tree_end)", OF fifo.mpi_laws_axioms demo_env_ok demo_callbacks_ok tree_starts _ demo_consumes]
    tree_run [unfolded tree_start_def]
  by simp



text \<open>C11. Every state is well formed.  In either mode of termination detection, at any time, every
  process's state is \<open>valid_state\<close>: it is the process's own rank and its place in the tree, the
  queue is well formed, the next rank to ask and the rank asked are other ranks of the
  communicator, a process that has asked has no item, the counters of replies stay between 0 and
  the number of children, those of transfers and of objects do not go below 0, a process that
  works has not entered the barrier, and one that has left its work loop through the ring has
  seen termination.\<close>

theorem states_well_formed:
  assumes "mpi_laws M pend" "env_ok E n" "callbacks_ok cb" "starts_work E n \<sigma>0" "\<forall>k. pend w0 k = []"
    "kary_tree E n width \<sigma>0" "1 \<le> width"
    "(program_step E M cb n)\<^sup>*\<^sup>* (\<lambda>_. Working, \<sigma>0, w0) (ph, \<sigma>, w)" "0 \<le> i" "i < n"
  shows "valid_state n width i (ph i) (\<sigma> i)"
  by (rule valid_reachable [OF assms])

theorem states_well_formed_witness: "valid_state 2 64 1 (fst program_end 1) (fst (snd program_end) 1)"
  using states_well_formed [where ?w0.0 = "fifo_new 2" and ph = "fst program_end" and \<sigma> = "fst (snd program_end)"
      and w = "snd (snd program_end)" and i = 1, OF fifo.mpi_laws_axioms demo_env_ok demo_callbacks_ok demo_starts _ demo_tree]
    program_run by (simp add: program_start_def demo0_def)



section \<open>The barrier\<close>

text \<open>C13. The barrier holds everybody back.  When the processes form a tree of the same width, no
  process gets past the cleanup loop (and returns to the user) before every process has left
  its work loop, in any interleaving and in either mode of termination detection.\<close>

theorem barrier_holds:
  assumes "mpi_laws M pend" "env_ok E n" "callbacks_ok cb" "starts_work E n \<sigma>0" "\<forall>k. pend w0 k = []"
    "kary_tree E n width \<sigma>0" "1 \<le> width"
    "(program_step E M cb n)\<^sup>*\<^sup>* (\<lambda>_. Working, \<sigma>0, w0) (ph, \<sigma>, w)" "0 \<le> i" "i < n" "ph i = Finished" "0 \<le> j" "j < n"
  shows "ph j \<noteq> Working"
  by (rule finished_together [OF assms])

theorem barrier_holds_witness: "fst program_end 1 \<noteq> Working"
  using barrier_holds [where ?w0.0 = "fifo_new 2" and ph = "fst program_end" and \<sigma> = "fst (snd program_end)"
      and w = "snd (snd program_end)" and i = 0 and j = 1,
      OF fifo.mpi_laws_axioms demo_env_ok demo_callbacks_ok demo_starts _ demo_tree]
    program_run program_end_finished
  by (simp add: program_start_def demo0_def)

text \<open>C14. The barrier is implemented.  Every run of the program is a run of the abstract barrier on
  the k-ary tree: a process leaves, collects a reply of a child, reports once it has all
  replies, and is released by its parent; nothing else the program does moves the barrier.\<close>

theorem barrier_refines:
  assumes "mpi_laws M pend" "env_ok E n" "callbacks_ok cb" "starts_work E n \<sigma>0" "\<forall>k. pend w0 k = []"
    "kary_tree E n width \<sigma>0" "1 \<le> width"
    "(program_step E M cb n)\<^sup>*\<^sup>* (\<lambda>_. Working, \<sigma>0, w0) (ph, \<sigma>, w)"
  shows "bar_start n (bar_of (\<lambda>_. Working) \<sigma>0 (pend w0)) \<and>
    (bar_step n (kary_parent width) (kary_children width n))\<^sup>*\<^sup>* (bar_of (\<lambda>_. Working) \<sigma>0 (pend w0)) (bar_of ph \<sigma> (pend w))"
  using start_bar [OF assms(4,5)] mpi_laws.barrier_reachable [OF assms(1) kary_rank_tree [OF assms(7)] assms(2) callbacks_keep_nothing [OF assms(3)] assms(8)
      start_base [OF assms(4,2,5)] start_spans [OF assms(4,2,6,7)]] by blast

theorem barrier_refines_witness:
  "(bar_step 2 (kary_parent 64) (kary_children 64 2))\<^sup>*\<^sup>* (bar_of (\<lambda>_. Working) demo_state (chan (fifo_new 2)))
     (bar_of (fst program_end) (fst (snd program_end)) (chan (snd (snd program_end))))"
  using barrier_refines [where ?w0.0 = "fifo_new 2" and ph = "fst program_end" and \<sigma> = "fst (snd program_end)"
      and w = "snd (snd program_end)",
      OF fifo.mpi_laws_axioms demo_env_ok demo_callbacks_ok demo_starts _ demo_tree] program_run
  by (simp add: program_start_def demo0_def)

section \<open>The final reduction\<close>

text \<open>C15. The final reduction reduces over all processes.  Each process runs \<open>reduceSync\<close> once, in
  any order its blocking receives allow, on a network with no reduction messages left.  When the
  root is done, all are; the root has the sum of the objects processed by all of them, and its
  last callback was given a combination of the data of all of them: any map \<open>h\<close> into a
  commutative monoid that respects the user's combination sends it to the sum over all
  processes.\<close>

theorem final_reduction:
  assumes "mpi_laws M pend" "1 \<le> width" "spans n (kary_parent width) (kary_children width n) \<sigma>0"
    "reduces_with E cb dat own comb fin" "measures dat h comb" "\<forall>a b. pend w0 (a, b, TAG_REDUCE) = []"
    "(sync_step E M cb n)\<^sup>*\<^sup>* ({}, \<sigma>0, w0) (D, \<sigma>, w)" "0 \<in> D"
  shows "D = {0..<n} \<and> fst (snd (local_reduce_buf (\<sigma> 0))) = (\<Sum>i\<in>{0..<n}. local_objects_processed (\<sigma>0 i))
    \<and> (\<exists>x c. circ (\<sigma> 0) = fin x (with_data x c) \<and> dat x \<and> h x = (\<Sum>i\<in>{0..<n}. h (own (user (circ (\<sigma>0 i))))))"
  using mpi_laws.final_total [OF assms(1) kary_rank_tree [OF assms(2)] assms(3-5,7,6,8)] by simp

theorem final_reduction_witness:
  "fst (snd (local_reduce_buf (fst (snd sync_end) 0))) = (\<Sum>i\<in>{0..<2}. local_objects_processed (total_state i))
   \<and> (\<exists>x c. circ (fst (snd sync_end) 0) = with_data x c \<and> sized x \<and> List.hd x = (\<Sum>i::int\<in>{0..<2}. (3 :: byte)))"
proof -
  obtain D \<sigma> w where e: "sync_end = (D, \<sigma>, w)" by (rule prod_cases3)
  have "0 \<in> fst sync_end" unfolding sync_end_def by code_simp
  then have "0 \<in> D" by (simp add: e)
  from final_reduction [OF fifo.mpi_laws_axioms _ total_spans adding_reduces adding_measures _ sync_run [unfolded e] this]
  show ?thesis by (simp add: e)
qed







text \<open>The example queues the regular files.  On rank 0, \<open>my_create_some_work\<close> appends the paths of
  the entries that exist and are regular files, in the order of the directory, and nothing
  else.\<close>

theorem create_queues_files:
  assumes "0 < pagesize E" "queue_rep (queue c) xs" "[] \<notin> set (chosen d)" "\<forall>y \<in> set (chosen d). length y < 4294967296"
    "int (length (xs @ chosen d)) < INT_MAX"
  shows "\<exists>c'. my_create_some_work E d c = Inr c' \<and> queue_rep (queue c') (xs @ chosen d) \<and> user c' = user c"
  by (rule create_files [OF assms])

theorem create_queues_files_witness:
  "\<exists>c'. my_create_some_work demo_env demo_disk (example_circle 0 0) = Inr c' \<and> queue_rep (queue c') [[7], [8, 9]]"
proof -
  have q: "queue_rep (queue (example_circle 0 0)) []"
    by (simp add: example_circle_def setLogLevel_def Circle_new_def)
  have "0 < pagesize demo_env" by (simp add: demo_env_def)
  moreover have "chosen demo_disk = [[7], [8, 9]]" by (simp add: chosen_def demo_disk_def)
  ultimately show ?thesis
    using create_queues_files [of demo_env "example_circle 0 0" "[]" demo_disk] q by (auto simp: INT_MAX_def)
qed



text \<open>C20. Background reductions keep in step.  In either mode of termination detection, at any time,
  between a process and its child in the tree at most one of these holds: a request of the parent
  is on the way, the child reduces, its reply is on the way.  A process that reduces waits for
  exactly the children for which one of them holds, and once a process has left the cleanup loop
  no message of a background reduction is left between it and its children.\<close>

theorem reductions_in_step:
  assumes "mpi_laws M pend" "env_ok E n" "callbacks_ok cb" "starts_work E n \<sigma>0" "\<forall>k. pend w0 k = []"
    "kary_tree E n width \<sigma>0" "1 \<le> width"
    "(program_step E M cb n)\<^sup>*\<^sup>* (\<lambda>_. Working, \<sigma>0, w0) (ph, \<sigma>, w)" "0 \<le> i" "i < n" "c \<in> set (kary_children width n i)"
  shows "engaged ph \<sigma> (pend w) i c \<le> 1
    \<and> (ph i \<noteq> Finished \<and> reduce_outstanding (\<sigma> i) \<longrightarrow>
        int (\<Sum>c\<in>set (kary_children width n i). engaged ph \<sigma> (pend w) i c) = int (length (kary_children width n i)) - reduce_replies (\<sigma> i))
    \<and> (ph i = Finished \<longrightarrow> pend w (i, c, TAG_REDUCE) = [] \<and> pend w (c, i, TAG_REDUCE) = [])"
  by (rule reductions_reachable [OF assms])

theorem reductions_in_step_witness:
  "chan (snd (snd program_end)) (0, 1, TAG_REDUCE) = [] \<and> chan (snd (snd program_end)) (1, 0, TAG_REDUCE) = []"
proof -
  have child: "1 \<in> set (kary_children 64 2 0)" by code_simp
  show ?thesis
    using reductions_in_step [where ?w0.0 = "fifo_new 2" and ph = "fst program_end" and \<sigma> = "fst (snd program_end)"
        and w = "snd (snd program_end)" and i = 0 and c = 1,
        OF fifo.mpi_laws_axioms demo_env_ok demo_callbacks_ok demo_starts _ demo_tree] program_run program_end_finished child
    by (simp add: program_start_def demo0_def)
qed

section \<open>Termination over the tree\<close>

text \<open>C21. The tree termination ignores its flags.  The flag a process keeps, and with it the flags
  its children have sent, has no influence on what \<open>checkForTermAllReduce\<close> returns, sends or
  leaves in the state, except for that field itself: a local variable hides it before it is
  used.  (The allreduce was meant to combine these flags.)\<close>

theorem tree_flags_ignored:
  "\<exists>f. checkForTermAllReduce M (s\<lparr>term_flag := x\<rparr>) w
    = bind_res (checkForTermAllReduce M s w) (\<lambda>(st, s', w'). Inr (st, s'\<lparr>term_flag := f\<rparr>, w'))"
  by (rule tree_flag)

text \<open>C22. The root declares termination as soon as it has a message of every child and no transfer
  outstanding, whatever the children know of work that is left.\<close>

theorem tree_root_terminates:
  assumes "checkForTermAllReduce M s w = Inr (st, s', w')" "getParentRank (tree s) = None" "\<not> term_up s"
    "term_replies s = getChildrenCount (tree s)" "work_outstanding s \<le> 0"
  shows "st = TERMINATE"
  by (rule root_terminates [OF assms])

theorem tree_root_terminates_witness:
  "\<exists>s' w'. checkForTermAllReduce fifo_mpi ((tree_mode 0)\<lparr>term_replies := 1, term_flag := 0\<rparr>) (fifo_new 2) = Inr (TERMINATE, s', w')"
proof -
  let ?s = "(tree_mode 0)\<lparr>term_replies := 1, term_flag := 0\<rparr>"
  have facts: "\<not> isl (checkForTermAllReduce fifo_mpi ?s (fifo_new 2))" "getParentRank (tree ?s) = None" "\<not> term_up ?s"
    "term_replies ?s = getChildrenCount (tree ?s)" "work_outstanding ?s \<le> 0"
    by code_simp+
  then obtain r where "checkForTermAllReduce fifo_mpi ?s (fifo_new 2) = Inr r" unfolding isl_def by (metis sumE)
  then obtain st s' w' where ck: "checkForTermAllReduce fifo_mpi ?s (fifo_new 2) = Inr (st, s', w')" by (metis prod_cases3)
  from tree_root_terminates [OF ck facts(2-5)] ck show ?thesis by blast
qed

text \<open>C23. The tree termination loses work.  There is a run, from a regular start of two processes
  with \<open>TermTree\<close>, in which both processes get past the cleanup loop while an item is still in
  the queue of process 0, never to be processed.\<close>

theorem tree_termination_loses_work:
  "starts_work demo_env 2 tree_mode
   \<and> (program_step demo_env fifo_mpi demo_callbacks 2)\<^sup>*\<^sup>* (\<lambda>_. Working, tree_mode, fifo_new 2) tree_end
   \<and> (case tree_end of (ph, \<sigma>, w) \<Rightarrow> ph 0 = Finished \<and> ph 1 = Finished \<and> qcount (qp (\<sigma> 0)) = 1)"
  by (intro conjI tree_starts tree_run [unfolded tree_start_def] tree_end_lost)

section \<open>The queue and its checkpoints\<close>

text \<open>C24. The queue refines a list.  A client that pushes and pops on the byte pool with its
  offsets sees what it would see on a list of elements used as a stack: the same return codes
  and the same elements (an empty element is refused, a pop of the empty queue fails and
  changes nothing), and the arrays stay well formed, whatever room they had at first.\<close>

theorem queue_refines_stack:
  assumes "wf_queue q" "0 < pg" "\<forall>x \<in> set (pushed ops). length x < 4294967296"
    "int (length (items q) + length (pushed ops)) \<le> INT_MAX"
  shows "\<exists>q'. run_queue pg ops q = Inr (fst (run_stack ops (items q)), q')
    \<and> wf_queue q' \<and> items q' = snd (run_stack ops (items q))"
  by (rule run_queue_refines [OF assms])

theorem queue_refines_stack_witness:
  "\<exists>q'. run_queue 1 [Push [7], Push [], Push [8, 9], Pop, Push [5], Pop, Pop, Pop] Queue_new
     = Inr ([(0, []), (-1, []), (0, []), (0, [8, 9]), (0, []), (0, [5]), (0, [7]), (-1, [])], q')
     \<and> wf_queue q' \<and> items q' = []"
proof -
  let ?ops = "[Push [7], Push [], Push [8, 9], Pop, Push [5], Pop, Pop, Pop]"
  have "wf_queue Queue_new" "items Queue_new = []"
    using queue_rep_wf queue_rep_items queue_rep_new by blast+
  with queue_refines_stack [of Queue_new 1 ?ops] show ?thesis by (simp add: INT_MAX_def)
qed





text \<open>C27. Checkpoints of different ranks do not meet: whatever a rank writes, what another rank
  reads is what it would have read without it.\<close>

theorem checkpoint_separate:
  assumes "Queue_write env a fs q = Inr (rc, fs', q')" "a \<noteq> b"
  shows "Queue_read env' pg b fs' q2 = Queue_read env' pg b fs q2"
  by (rule write_read_other [OF assms])

theorem checkpoint_separate_witness:
  "\<exists>rc fs' q'. Queue_write demo_os 0 (\<lambda>_. Some []) (demo_queue 0) = Inr (rc, fs', q') \<and>
     Queue_read demo_os 1 1 fs' (demo_queue 1) = Queue_read demo_os 1 1 (\<lambda>_. Some []) (demo_queue 1)"
proof -
  obtain fs' q' where "Queue_write demo_os 0 (\<lambda>_. Some []) (demo_queue 0) = Inr (0, fs', q')"
    using Queue_write_rep [OF demo_queue_rep(1), of demo_os 0 "\<lambda>_. Some []"] by (auto simp: demo_os_def)
  with checkpoint_separate [OF this, of 1 demo_os 1 "demo_queue 1"] show ?thesis by auto
qed

text \<open>C28. A restart continues with the work that was saved.  The ranks write their checkpoints in any
  order into one file system, where a rank without items has no old file; the objects of a later
  run read them in any order.  Each then has exactly the items of its rank, in reverse order, when
  every item is one line of text without NUL bytes.\<close>

theorem restart_restores_work:
  assumes "disk_ok (os E) is" "0 < pagesize E" "distinct is" "distinct js" "set js = set is"
    "\<forall>i \<in> set is. queue_rep (queue (cs i)) (xs i) \<and> c_rank (cs i) = i"
    "\<forall>i \<in> set is. xs i = [] \<longrightarrow> fs (checkpoint_name i) = None"
    "\<forall>i \<in> set is. (\<forall>x \<in> set (xs i). plain x) \<and> int (length (xs i)) \<le> INT_MAX"
    "\<forall>i \<in> set is. queue_rep (queue (ds i)) [] \<and> c_rank (ds i) = i"
  shows "\<exists>fs' ds'. checkpoint_all E is fs cs = Inr (map (\<lambda>_. 0) is, fs') \<and> restart_all E js fs' ds = Inr ds'
    \<and> (\<forall>i \<in> set is. queue_rep (queue (ds' i)) (rev (xs i)))"
  by (rule restart_restores [OF assms])

theorem restart_restores_work_witness:
  "\<exists>fs ds. checkpoint_all demo_env [0, 1] (\<lambda>_. None) demo_circle = Inr ([0, 0], fs)
     \<and> restart_all demo_env [1, 0] fs (\<lambda>i. Circle_new i DefaultFlags 0 ()) = Inr ds
     \<and> queue_rep (queue (ds 0)) [[8, 9], [7]] \<and> queue_rep (queue (ds 1)) []"
proof -
  let ?xs = "\<lambda>i::int. if i = 0 then [[7], [8, 9]] else [] :: byte list list" and ?new = "\<lambda>i. Circle_new i DefaultFlags 0 ()"
  have disk: "disk_ok (os demo_env) [0, 1]" and page: "0 < pagesize demo_env"
    by (simp_all add: disk_ok_def demo_env_def demo_os_def)
  have old: "\<forall>i \<in> set [0, 1]. queue_rep (queue (demo_circle i)) (?xs i) \<and> c_rank (demo_circle i) = i"
    using demo_queue_rep by (simp add: demo_circle_def Circle_new_def)
  have plain: "\<forall>i \<in> set [0, 1]. (\<forall>x \<in> set (?xs i). plain x) \<and> int (length (?xs i)) \<le> INT_MAX"
    by (simp add: plain_def one_line_def newline_def INT_MAX_def)
  have new: "\<forall>i \<in> set [0, 1]. queue_rep (queue (?new i)) [] \<and> c_rank (?new i) = i" by (simp add: Circle_new_def)
  from restart_restores_work [where js = "[1, 0]" and fs = "\<lambda>_. None", OF disk page _ _ _ old _ plain new] obtain fs ds where
    "checkpoint_all demo_env [0, 1] (\<lambda>_. None) demo_circle = Inr (map (\<lambda>_. 0) [0, 1::int], fs)" "restart_all demo_env [1, 0] fs ?new = Inr ds"
    "\<forall>i \<in> set [0, 1]. queue_rep (queue (ds i)) (rev (?xs i))"
    by (auto simp del: checkpoint_all.simps restart_all.simps)
  then show ?thesis by (intro exI [of _ fs] exI [of _ ds]) (simp del: checkpoint_all.simps restart_all.simps)
qed




section \<open>The tree, the ring and the choice of a partner\<close>

text \<open>C30. The trees of all processes fit together.  Every process computes its own part of the
  tree; for any two of them, one counts the other as its child exactly when that one counts it
  as its parent; only rank 0 has no parent, and a parent has a smaller rank (so every process
  reaches the root).\<close>

theorem trees_fit:
  assumes "TreeState_new malloc_a a n width = Inr t" "TreeState_new malloc_b b n width = Inr u"
    "0 \<le> a" "a < n" "0 \<le> b" "b < n" "1 \<le> width"
  shows "(b \<in> set (child_list t) \<longleftrightarrow> getParentRank u = Some a) \<and> (getParentRank u = None \<longleftrightarrow> b = 0)
    \<and> (\<forall>p. getParentRank u = Some p \<longrightarrow> 0 \<le> p \<and> p < b)"
  using trees_agree [OF assms] by blast

theorem trees_fit_witness: "\<exists>t u. TreeState_new (\<lambda>_. True) 1 9 2 = Inr t \<and> TreeState_new (\<lambda>_. True) 4 9 2 = Inr u
    \<and> (4 \<in> set (child_list t) \<longleftrightarrow> getParentRank u = Some 1)"
proof -
  obtain t where t: "TreeState_new (\<lambda>_. True) 1 9 2 = Inr t"
    using TreeState_new_ok [where malloc_ok = "\<lambda>_. True" and r = 1 and n = 9 and width = 2]
    by (auto simp: INT_MAX_def)
  obtain u where u: "TreeState_new (\<lambda>_. True) 4 9 2 = Inr u"
    using TreeState_new_ok [where malloc_ok = "\<lambda>_. True" and r = 4 and n = 9 and width = 2]
    by (auto simp: INT_MAX_def)
  from trees_fit [OF t u] t u show ?thesis by simp
qed

text \<open>C31. Width zero is not caught.  \<open>setTreeWidth\<close> accepts 0, and every process but the root
  then divides by it.\<close>

theorem tree_width_zero:
  assumes "0 < r"
  shows "TreeState_new mal r n (getTreeWidth (setTreeWidth 0 c)) = Inl Undefined"
  using TreeState_new_width_0 [OF assms] by (simp add: getTreeWidth_def setTreeWidth_def)

theorem tree_width_zero_witness:
  "TreeState_new (\<lambda>_. True) 1 2 (getTreeWidth (setTreeWidth 0 (demo_circle 1))) = Inl Undefined"
  by (rule tree_width_zero) simp

text \<open>C32. A process never asks itself.  The next rank to ask is another rank of the communicator;
  a process that is alone has none to ask.\<close>

theorem next_rank_in_range:
  assumes "getNextProc E s = Inr s'" "\<And>sd. 0 \<le> fst (rand_r E sd)"
  shows "if nprocs s > 1 then \<exists>p. next_processor s' = Some p \<and> p \<noteq> rank s \<and> 0 \<le> p \<and> p < nprocs s
    else next_processor s' = None"
  by (rule getNextProc_range [OF assms])

theorem next_rank_in_range_witness: "\<exists>s'. getNextProc demo_env (demo_state 0) = Inr s' \<and> next_processor s' = Some 1"
proof -
  have facts: "\<not> isl (getNextProc demo_env (demo_state 0))" "nprocs (demo_state 0) = 2" "rank (demo_state 0) = 0"
    by code_simp+
  then obtain s' where s': "getNextProc demo_env (demo_state 0) = Inr s'" unfolding isl_def by (metis sumE)
  have "\<And>sd. 0 \<le> fst (rand_r demo_env sd)" by (simp add: demo_env_def)
  from next_rank_in_range [OF s' this] facts(2,3) obtain p where "next_processor s' = Some p" "p \<noteq> 0" "0 \<le> p" "p < 2"
    by auto
  moreover then have "p = 1" by simp
  ultimately show ?thesis using s' by blast
qed

text \<open>C33. The search for a rank ends exactly when the random numbers allow it: when the generator,
  iterated from the seed, ever gives a rank other than the process's own.\<close>

theorem partner_search_ends:
  "pick_other rand r n sd \<noteq> None \<longleftrightarrow> (\<exists>m. fst (rand (seed_after rand m sd)) smod n \<noteq> r)"
  by (rule pick_other_ends)



section \<open>Splitting and moving work\<close>

text \<open>C35. \<open>spread_counts\<close> is the even division: the loops that fill the array compute, for every
  index, the quotient, and one more for the first \<open>count mod ranks\<close> of them.\<close>

theorem spread_is_even_division:
  assumes "1 \<le> ranks" "0 \<le> cnt" "length sizes = nat ranks"
  shows "spread_counts sizes ranks cnt
      = map (\<lambda>i. cnt div ranks + (if int i < cnt mod ranks then 1 else 0)) [0..<nat ranks]
    \<and> sum_list (spread_counts sizes ranks cnt) = cnt"
  using spread_counts_even [OF assms] spread_counts_sum [OF assms] by (simp add: even_share_def)

theorem spread_is_even_division_witness: "spread_counts [0, 0, 0, 0] 4 10 = [3, 3, 2, 2]"
  using spread_is_even_division [of 4 10 "[0, 0, 0, 0]"] by (simp add: upt_rec)

text \<open>C36. A process that shares its work keeps some.  With either way of splitting, the sizes it
  computes add up to its items, its own share is at least one item, no share is negative, and
  the shares of the others differ by at most one.\<close>

theorem shares_are_fair:
  assumes "0 < qcount (qp s)" "1 \<le> rcount" "\<And>sd. 0 \<le> fst (rand_r E sd)"
  shows "\<exists>sizes sd. split_sizes E rcount s = Inr (sizes, sd) \<and> length sizes = nat rcount + 1
    \<and> sum_list sizes = int (qcount (qp s)) \<and> 1 \<le> hd sizes
    \<and> (\<forall>x \<in> set sizes. 0 \<le> x) \<and> (\<forall>x \<in> set (tl sizes). \<forall>y \<in> set (tl sizes). x \<le> y + 1)"
proof -
  obtain sizes sd where "split_sizes E rcount s = Inr (sizes, sd)" "length sizes = nat rcount + 1"
    "sum_list sizes = int (qcount (qp s))" "1 \<le> hd sizes" "\<forall>x \<in> set sizes. 0 \<le> x"
    using split_sizes_ok [OF assms] by metis
  moreover from split_sizes_balanced [OF this(1) assms(2,3)]
  have "\<forall>x \<in> set (tl sizes). \<forall>y \<in> set (tl sizes). x \<le> y + 1" by blast
  ultimately show ?thesis by blast
qed

theorem shares_are_fair_witness:
  "\<exists>sizes sd. split_sizes demo_env 3 (demo_state 0) = Inr (sizes, sd) \<and> length sizes = 4 \<and> sum_list sizes = 2"
proof -
  have "qcount (qp (demo_state 0)) = 2" by code_simp
  with shares_are_fair [of "demo_state 0" 3 demo_env] show ?thesis by (auto simp: demo_env_def)
qed

text \<open>C37. Work arrives as it was sent.  When one process sends its last items and the other, whose
  queue is empty, receives them, the first keeps exactly its other items, the second holds
  exactly those that were sent, in the same order, nothing is left on the channel, and a receipt
  is on its way back.  Neither operation can fail; MPI may block.\<close>

theorem work_arrives:
  assumes "mpi_laws M pend" "queue_rep (qp s) (xs @ ys)" "ys \<noteq> []" "queue_rep (qp r) []"
    "int (length (concat (xs @ ys))) \<le> INT_MAX" "int (length ys) + 2 \<le> INT_MAX - 4096"
    "0 \<le> offsets_count s" "0 \<le> offsets_count r" "\<And>k. malloc_ok E k" "0 < pagesize E"
    "pend w (rank s, rank r, TAG_WORK_REPLY) = []"
  shows "yields (hand_over E M (int (length ys)) s r w) (\<lambda>((rc, s'), (rc', r'), w').
    rc = 0 \<and> rc' = 0 \<and> queue_rep (qp s') xs \<and> queue_rep (qp r') ys
    \<and> work_outstanding s' = work_outstanding s + 1 \<and> work_outstanding r' = work_outstanding r
    \<and> pend w' (rank s, rank r, TAG_WORK_REPLY) = []
    \<and> pend w' (rank r, rank s, TAG_WORK_RECEIPT) = pend w (rank r, rank s, TAG_WORK_RECEIPT) @ [Empty])"
  by (rule mpi_laws.hand_over_yields [OF assms])

theorem work_arrives_witness:
  "\<exists>s' r' w'. hand_over demo_env fifo_mpi 1 (demo_state 0) (demo_state 1) (fifo_new 2) = Inr ((0, s'), (0, r'), w')
     \<and> queue_rep (qp s') [[7]] \<and> queue_rep (qp r') [[8, 9]]"
proof -
  let ?h = "hand_over demo_env fifo_mpi 1 (demo_state 0) (demo_state 1) (fifo_new 2)"
  have "qp (demo_state 0) = demo_queue 0" "qp (demo_state 1) = demo_queue 1" by code_simp+
  then have q: "queue_rep (qp (demo_state 0)) ([[7]] @ [[8, 9]])" "queue_rep (qp (demo_state 1)) []"
    using demo_queue_rep by simp_all
  have facts: "\<not> isl ?h" "0 \<le> offsets_count (demo_state 0)" "0 \<le> offsets_count (demo_state 1)" by code_simp+
  obtain rc s' rc' r' w' where h: "?h = Inr ((rc, s'), (rc', r'), w')"
    using facts(1) unfolding isl_def by (metis sumE prod.exhaust)
  from work_arrives [OF fifo.mpi_laws_axioms q(1) _ q(2), of demo_env "fifo_new 2"] facts(2,3) h
  show ?thesis by (simp add: INT_MAX_def demo_env_def)
qed

section \<open>The interface to the user\<close>

text \<open>Through the C interface.  What \<open>circle_enqueue\<close> stores, \<open>circle_dequeue\<close> without a
  buffer gives the size of, and with a buffer of that size gives back whole, leaving the queue
  as it was before.\<close>

theorem c_interface_roundtrip:
  assumes "queue_rep (queue c) xs" "x \<noteq> []" "length x < 4294967296" "int (length xs) < INT_MAX" "0 < pagesize E"
    "length x \<le> length buf"
  shows "\<exists>q1. circle_enqueue E (x @ junk) (length x) c = Inr (0, c\<lparr>queue := q1\<rparr>)
    \<and> (length (base q1) < 2 ^ 63 \<longrightarrow>
        circle_dequeue None (Some sz) (c\<lparr>queue := q1\<rparr>) = Inr (0, None, Some (length x), c\<lparr>queue := q1\<rparr>))
    \<and> (\<exists>q2. circle_dequeue (Some buf) (Some (length x)) (c\<lparr>queue := q1\<rparr>)
            = Inr (0, Some (x @ drop (length x) buf), Some (length x), c\<lparr>queue := q2\<rparr>) \<and> queue_rep q2 xs)"
  by (rule circle_c_roundtrip [OF assms])

theorem c_interface_roundtrip_witness:
  "\<exists>q1 q2. circle_enqueue demo_env [1, 2, 3] 2 (demo_circle 0) = Inr (0, (demo_circle 0)\<lparr>queue := q1\<rparr>)
     \<and> circle_dequeue (Some [0, 0, 0]) (Some 2) ((demo_circle 0)\<lparr>queue := q1\<rparr>)
         = Inr (0, Some [1, 2, 0], Some 2, (demo_circle 0)\<lparr>queue := q2\<rparr>)"
proof -
  have "queue_rep (queue (demo_circle 0)) [[7], [8, 9]]" using demo_queue_rep(1) by (simp add: demo_circle_def)
  from c_interface_roundtrip [OF this, of "[1, 2]" demo_env "[0, 0, 0]" "[3]" 0] show ?thesis
    by (auto simp: INT_MAX_def demo_env_def numeral_2_eq_2)
qed

text \<open>An empty queue looks like success.  \<open>circle_dequeue\<close> on an empty queue returns 0: with a
  buffer it changes nothing and reports size 0, and asked for the size alone it reports the
  largest \<open>size_t\<close>.\<close>

theorem c_dequeue_empty:
  assumes "queue_rep (queue c) []"
  shows "circle_dequeue (Some buf) szelement c = Inr (0, Some buf, map_option (\<lambda>_. 0) szelement, c)
    \<and> circle_dequeue None (Some sz) c = Inr (0, None, Some 18446744073709551615, c)"
  using circle_dequeue_empty [OF assms] by blast

theorem c_dequeue_empty_witness:
  "circle_dequeue None (Some 4) (demo_circle 1) = Inr (0, None, Some 18446744073709551615, demo_circle 1)"
proof -
  have "queue_rep (queue (demo_circle 1)) []" using demo_queue_rep(2) [of 1] by (simp add: demo_circle_def)
  from c_dequeue_empty [OF this, of "[]" None 4] show ?thesis by blast
qed

text \<open>C38. Dropping the reduction data breaks the reduction.  After \<open>Circle::reduce\<close> with data and
  then with none, the size of the old data is kept without the data, and a process that is not
  the root fails when it sends its part of a reduction.\<close>

theorem reduce_keeps_stale_size:
  assumes "malloc_ok E (length b)" "0 < to_int32 (length b)" "circ s = reduce E [] (reduce E b c)"
  shows "isl (send_partial M (\<lambda>_. True) p s w)"
proof -
  have "b \<noteq> []" using assms(2) by (auto simp: to_int32_def INT_MAX_def)
  with assms(1,3) have "circ s = c\<lparr>reduce_buf := None, reduce_buf_size := length b\<rparr>"
    by (simp add: reduce_nothing reduce_something)
  then show ?thesis using assms(2) by (intro send_partial_no_buffer) simp_all
qed

theorem reduce_keeps_stale_size_witness:
  "isl (send_partial fifo_mpi (\<lambda>_. True) 0
      ((demo_state 1)\<lparr>circ := reduce demo_env [] (reduce demo_env [1, 2] (demo_circle 1))\<rparr>) (fifo_new 2))"
  by (rule reduce_keeps_stale_size [where c = "demo_circle 1" and b = "[1, 2]" and E = demo_env])
    (simp_all add: demo_env_def to_int32_def INT_MAX_def)

text \<open>C39. The C interface keeps its promise.  A sequence of calls through the C interface, on any
  number of handles, gives the results of the abstract interface, which keeps for each handle its
  settings and a stack of elements, and ends in a table of objects that stands for the abstract
  one; a call on a handle that is null or was freed, or one that reads or writes past the caller's
  buffer, is undefined in both.  So calls on one handle do not change what another one holds.\<close>

theorem c_interface_refines:
  assumes "sound (\<Sum>c\<leftarrow>cs. stores c) w" "\<forall>c \<in> set cs. small_call c" "0 < pagesize E" "int (\<Sum>c\<leftarrow>cs. stores c) \<le> INT_MAX"
  shows "case run_steps (spec_step me) cs (handles_of w) of
      Inl e \<Rightarrow> run_steps (c_step E me junk) cs w = Inl e
    | Inr (vs, H) \<Rightarrow> \<exists>w'. run_steps (c_step E me junk) cs w = Inr (vs, w') \<and> handles_of w' = H"
  using runs_agree [of 0 cs w E me junk] assms by (auto simp: agree_def split: sum.splits)

theorem c_interface_refines_witness:
  "\<exists>w. run_steps (c_step demo_env 3 0)
      [Create_simple 8 Inr Inr CircleDefaultFlags, Create_simple 16 Inr Inr CircleDefaultFlags, Enqueue 8 [1, 2] 2, Enqueue 16 [5] 1,
       Set_width 8 2, Dequeue 8 None (Some 0), Dequeue 8 (Some [0, 0, 0]) (Some 2), Get_width 16, Queue_size 16, Get_rank 8, Free 8]
      \<lparr>objects = (\<lambda>_. None), c_files = (\<lambda>_. None), c_data = ()\<rparr>
    = Inr ([Handle 8, Handle 16, Number 0, Number 0, Done, Item 0 None (Some 2), Item 0 (Some [1, 2, 0]) (Some 2), Number 64,
       Number 1, Number 3, Done], w)"
proof -
  let ?cs = "[Create_simple 8 Inr Inr CircleDefaultFlags :: unit c_call, Create_simple 16 Inr Inr CircleDefaultFlags, Enqueue 8 [1, 2] 2, Enqueue 16 [5] 1,
       Set_width 8 2, Dequeue 8 None (Some 0), Dequeue 8 (Some [0, 0, 0]) (Some 2), Get_width 16, Queue_size 16, Get_rank 8, Free 8]"
    and ?w = "\<lparr>objects = (\<lambda>_. None), c_files = (\<lambda>_. None), c_data = ()\<rparr>"
  let ?vs = "[Handle 8, Handle 16, Number 0, Number 0, Done, Item 0 None (Some 2), Item 0 (Some [1, 2, 0]) (Some 2), Number 64,
       Number 1, Number 3, Done]"
  have "\<exists>H. run_steps (spec_step 3) ?cs (handles_of ?w) = Inr (?vs, H)"
    by (simp add: at_handle_def handles_of_def new_setting_def take_last_def)
  then obtain H where H: "run_steps (spec_step 3) ?cs (handles_of ?w) = Inr (?vs, H)" by blast
  have "sound (\<Sum>c\<leftarrow>?cs. stores c) ?w" "\<forall>c \<in> set ?cs. small_call c" "0 < pagesize demo_env" "int (\<Sum>c\<leftarrow>?cs. stores c) \<le> INT_MAX"
    by (simp_all add: sound_def demo_env_def INT_MAX_def)
  from c_interface_refines [OF this, of 3 0, unfolded H sum.case prod.case] show ?thesis by blast
qed



end
